(* ===== verification/Go_Prelude.thy ===== *)
theory Go_Prelude
  imports Complex_Main "HOL-Library.Word" "HOL-Library.Char_ord" "HOL-Library.List_Lexorder"
    "HOL-Library.AList" "HOL-Library.Multiset"
begin

text \<open>
  The prelude of the development: the types that stand for Go's machine integers and times, the
  functions of Go's packages strings and strconv that the program calls, and the lemmas on lists,
  association lists and words that several components share.

  Conventions.  A Go string is a \<^typ>\<open>string\<close>, a list of bytes.  White space, case mapping and
  case folding are those of ASCII text: \<open>TrimSpace\<close>, \<open>ToLower\<close>, \<open>ToUpper\<close> and
  \<open>EqualFold\<close> leave bytes above 127 as they are.  An index that Go reports as -1 is \<^const>\<open>None\<close>.
  A \<open>uint64\<close> is a 64-bit word, so its arithmetic wraps; an \<open>int\<close> that only counts is an \<^typ>\<open>int\<close>;
  a \<open>time.Duration\<close> or a \<open>time.Time\<close> is a number of nanoseconds; a \<open>float64\<close> is a real number.
\<close>

unbundle bit_operations_syntax

type_synonym u64 = "64 word"
type_synonym u32 = "32 word"
type_synonym time = int
type_synonym duration = int

abbreviation second :: duration where "second \<equiv> 1000000000"
abbreviation minute :: duration where "minute \<equiv> 60 * second"
abbreviation millisecond :: duration where "millisecond \<equiv> 1000000"

named_theorems go_string_defs \<open>definitions of the string functions, for evaluation\<close>


section \<open>Package strings\<close>

definition HasPrefix :: "string \<Rightarrow> string \<Rightarrow> bool" where
  [go_string_defs]: "HasPrefix s p \<longleftrightarrow> take (length p) s = p"

definition HasSuffix :: "string \<Rightarrow> string \<Rightarrow> bool" where
  [go_string_defs]: "HasSuffix s p \<longleftrightarrow> take (length p) (rev s) = rev p"

definition TrimPrefix :: "string \<Rightarrow> string \<Rightarrow> string" where
  [go_string_defs]: "TrimPrefix s p = (if HasPrefix s p then drop (length p) s else s)"

definition TrimSuffix :: "string \<Rightarrow> string \<Rightarrow> string" where
  [go_string_defs]: "TrimSuffix s p = (if HasSuffix s p then take (length s - length p) s else s)"

text \<open>\<open>strings.CutPrefix\<close>: the rest after the prefix, if the prefix is there.\<close>

definition CutPrefix :: "string \<Rightarrow> string \<Rightarrow> string option" where
  [go_string_defs]: "CutPrefix s p = (if HasPrefix s p then Some (drop (length p) s) else None)"

definition TrimLeftByte :: "char \<Rightarrow> string \<Rightarrow> string" where
  [go_string_defs]: "TrimLeftByte c s = dropWhile (\<lambda>x. x = c) s"

definition TrimRightByte :: "char \<Rightarrow> string \<Rightarrow> string" where
  [go_string_defs]: "TrimRightByte c s = rev (dropWhile (\<lambda>x. x = c) (rev s))"

definition TrimByte :: "char \<Rightarrow> string \<Rightarrow> string" where
  [go_string_defs]: "TrimByte c s = TrimRightByte c (TrimLeftByte c s)"

definition is_space :: "char \<Rightarrow> bool" where
  [go_string_defs]: "is_space c \<longleftrightarrow> c \<in> {CHR '' '', CHR 0x09, CHR 0x0A, CHR 0x0B, CHR 0x0C, CHR 0x0D}"

definition TrimSpace :: "string \<Rightarrow> string" where
  [go_string_defs]: "TrimSpace s = rev (dropWhile is_space (rev (dropWhile is_space s)))"

definition lower_char :: "char \<Rightarrow> char" where
  [go_string_defs]: "lower_char c =
     (if 65 \<le> (of_char c :: nat) \<and> (of_char c :: nat) \<le> 90 then char_of ((of_char c :: nat) + 32) else c)"

definition upper_char :: "char \<Rightarrow> char" where
  [go_string_defs]: "upper_char c =
     (if 97 \<le> (of_char c :: nat) \<and> (of_char c :: nat) \<le> 122 then char_of ((of_char c :: nat) - 32) else c)"

definition ToLower :: "string \<Rightarrow> string" where
  [go_string_defs]: "ToLower s = map lower_char s"

definition ToUpper :: "string \<Rightarrow> string" where
  [go_string_defs]: "ToUpper s = map upper_char s"

definition EqualFold :: "string \<Rightarrow> string \<Rightarrow> bool" where
  [go_string_defs]: "EqualFold s t \<longleftrightarrow> ToLower s = ToLower t"

text \<open>\<open>strings.Index\<close> and \<open>strings.IndexByte\<close>: the first position, if any.\<close>

fun Index :: "string \<Rightarrow> string \<Rightarrow> nat option" where
  "Index [] p = (if p = [] then Some 0 else None)"
| "Index (c # s) p = (if HasPrefix (c # s) p then Some 0 else map_option Suc (Index s p))"

fun IndexByte :: "string \<Rightarrow> char \<Rightarrow> nat option" where
  "IndexByte [] b = None"
| "IndexByte (c # s) b = (if c = b then Some 0 else map_option Suc (IndexByte s b))"

definition Contains :: "string \<Rightarrow> string \<Rightarrow> bool" where
  [go_string_defs]: "Contains s p \<longleftrightarrow> Index s p \<noteq> None"

definition ContainsAny :: "string \<Rightarrow> string \<Rightarrow> bool" where
  [go_string_defs]: "ContainsAny s cs \<longleftrightarrow> (\<exists>c\<in>set s. c \<in> set cs)"

text \<open>\<open>strings.Split\<close> with a one-byte separator; the empty string gives one empty piece.\<close>

fun SplitByte :: "char \<Rightarrow> string \<Rightarrow> string list" where
  "SplitByte b [] = [[]]"
| "SplitByte b (c # s) =
     (if c = b then [] # SplitByte b s
      else case SplitByte b s of [] \<Rightarrow> [[c]] | w # ws \<Rightarrow> (c # w) # ws)"

text \<open>\<open>strings.Cut\<close> with a one-byte separator: the part before, the part after, whether it was found.\<close>

fun CutByte :: "char \<Rightarrow> string \<Rightarrow> string \<times> string \<times> bool" where
  "CutByte b [] = ([], [], False)"
| "CutByte b (c # s) =
     (if c = b then ([], s, True)
      else case CutByte b s of (x, y, f) \<Rightarrow> (c # x, y, f))"

fun Join :: "string list \<Rightarrow> string \<Rightarrow> string" where
  "Join [] sep = []"
| "Join [w] sep = w"
| "Join (w # ws) sep = w @ sep @ Join ws sep"


section \<open>Package strconv\<close>

definition is_digit :: "char \<Rightarrow> bool" where
  [go_string_defs]: "is_digit c \<longleftrightarrow> 48 \<le> (of_char c :: nat) \<and> (of_char c :: nat) \<le> 57"

definition digit_val :: "char \<Rightarrow> nat" where
  [go_string_defs]: "digit_val c = of_char c - 48"

definition decimal_val :: "string \<Rightarrow> nat" where
  [go_string_defs]: "decimal_val s = foldl (\<lambda>n c. 10 * n + digit_val c) 0 s"

text \<open>\<open>strconv.ParseUint(s, 10, 64)\<close>: digits only, at least one, and a value below \<open>2^64\<close>.\<close>

definition ParseUint :: "string \<Rightarrow> u64 option" where
  [go_string_defs]: "ParseUint s =
     (if s \<noteq> [] \<and> (\<forall>c\<in>set s. is_digit c) \<and> decimal_val s < 2 ^ 64
      then Some (of_nat (decimal_val s)) else None)"


text \<open>\<open>strconv.FormatUint(n, 10)\<close> and \<open>strconv.Itoa\<close> on a non-negative number.\<close>

fun itoa :: "nat \<Rightarrow> string" where
  "itoa n = (if n < 10 then [char_of (n + 48)] else itoa (n div 10) @ [char_of (n mod 10 + 48)])"

declare itoa.simps [simp del]


section \<open>Package path\<close>

text \<open>\<open>path.Clean\<close>: empty and dot elements go, a dot-dot element removes the element before it (or
  vanishes at the root, or stays at the front of a relative path).\<close>

fun clean_elems :: "bool \<Rightarrow> string list \<Rightarrow> string list \<Rightarrow> string list" where
  "clean_elems rooted acc [] = rev acc"
| "clean_elems rooted acc (e # es) =
     (if e = [] \<or> e = ''.'' then clean_elems rooted acc es
      else if e = ''..'' then
        (case acc of
           [] \<Rightarrow> clean_elems rooted (if rooted then [] else [''..'']) es
         | a # as \<Rightarrow> if a = ''..'' then clean_elems rooted (''..'' # acc) es else clean_elems rooted as es)
      else clean_elems rooted (e # acc) es)"

definition path_Clean :: "string \<Rightarrow> string" where
  "path_Clean p =
     (let rooted = HasPrefix p ''/'';
          body = Join (clean_elems rooted [] (SplitByte (CHR ''/'') p)) ''/''
      in if rooted then ''/'' @ body else if body = [] then ''.'' else body)"


section \<open>Defaulting\<close>

text \<open>The value, or the default when the value is the zero of its type.\<close>

definition or_zero :: "'a::zero \<Rightarrow> 'a \<Rightarrow> 'a" where
  "or_zero v d = (if v = 0 then d else v)"

definition or_empty :: "'a list \<Rightarrow> 'a list \<Rightarrow> 'a list" where
  "or_empty v d = (if v = [] then d else v)"


section \<open>Lemmas on strings\<close>

lemma HasPrefix_append [simp]: "HasPrefix (p @ s) p"
  by (simp add: HasPrefix_def)

lemma HasPrefix_iff: "HasPrefix s p \<longleftrightarrow> (\<exists>t. s = p @ t)"
  unfolding HasPrefix_def by (metis append_eq_conv_conj append_take_drop_id)

lemma HasSuffix_iff: "HasSuffix s p \<longleftrightarrow> (\<exists>t. s = t @ p)"
proof -
  have "HasSuffix s p \<longleftrightarrow> (\<exists>t. rev s = rev p @ t)"
    unfolding HasSuffix_def by (metis append_eq_conv_conj append_take_drop_id length_rev)
  also have "\<dots> \<longleftrightarrow> (\<exists>t. s = t @ p)"
    by (metis rev_append rev_rev_ident)
  finally show ?thesis .
qed

lemma HasPrefix_Nil [simp]: "HasPrefix s []"
  by (simp add: HasPrefix_def)

lemma TrimPrefix_append [simp]: "TrimPrefix (p @ s) p = s"
  by (simp add: TrimPrefix_def)

lemma HasPrefix_Cons [simp]: "HasPrefix (c # s) (d # p) \<longleftrightarrow> c = d \<and> HasPrefix s p"
  by (simp add: HasPrefix_def)

lemma HasPrefix_Nil_Cons [simp]: "\<not> HasPrefix [] (d # p)"
  by (simp add: HasPrefix_def)

lemma IndexByte_None: "IndexByte s b = None \<longleftrightarrow> b \<notin> set s"
  by (induction s) auto

lemma IndexByte_append: "b \<notin> set s \<Longrightarrow> IndexByte (s @ b # t) b = Some (length s)"
  by (induction s) auto

lemma IndexByte_Some:
  "IndexByte s b = Some i \<Longrightarrow> i < length s \<and> s ! i = b \<and> b \<notin> set (take i s)"
  by (induction s arbitrary: i) (auto split: if_splits)

lemma Index_Some_HasPrefix: "Index s p = Some i \<Longrightarrow> i \<le> length s \<and> HasPrefix (drop i s) p"
  by (induction s arbitrary: i) (auto split: if_splits)

lemma Contains_iff: "Contains s p \<longleftrightarrow> (\<exists>a b. s = a @ p @ b)"
proof
  assume "Contains s p"
  then obtain i where i: "Index s p = Some i" by (auto simp: Contains_def)
  then obtain b where "drop i s = p @ b"
    using Index_Some_HasPrefix HasPrefix_iff by blast
  then have "s = take i s @ p @ b" by (metis append_take_drop_id)
  then show "\<exists>a b. s = a @ p @ b" by blast
next
  assume "\<exists>a b. s = a @ p @ b"
  then obtain a b where s: "s = a @ p @ b" by blast
  have "Index (a @ p @ b) p \<noteq> None"
  proof (induction a)
    case Nil
    show ?case using HasPrefix_append [of p b] by (cases "p @ b") auto
  next
    case (Cons c a)
    then show ?case by auto
  qed
  then show "Contains s p" by (simp add: Contains_def s)
qed

lemma SplitByte_not_Nil [simp]: "SplitByte b s \<noteq> []"
  by (induction s) (auto split: list.splits)

lemma SplitByte_no_sep: "b \<notin> set s \<Longrightarrow> SplitByte b s = [s]"
  by (induction s) auto

lemma SplitByte_append: "b \<notin> set s \<Longrightarrow> SplitByte b (s @ b # t) = s # SplitByte b t"
  by (induction s) auto

lemma SplitByte_pieces: "w \<in> set (SplitByte b s) \<Longrightarrow> b \<notin> set w"
  by (induction s arbitrary: w) (fastforce split: list.splits if_splits)+

lemma Join_SplitByte: "Join (SplitByte b s) [b] = s"
proof (induction s)
  case Nil
  then show ?case by simp
next
  case (Cons c s)
  obtain w ws where ws: "SplitByte b s = w # ws"
    by (cases "SplitByte b s") auto
  with Cons show ?case by (cases ws) auto
qed

lemma SplitByte_Join:
  assumes "ws \<noteq> []" and "\<forall>w\<in>set ws. b \<notin> set w"
  shows "SplitByte b (Join ws [b]) = ws"
  using assms
proof (induction ws rule: induct_list012)
  case (3 w v ws)
  then show ?case using SplitByte_append [of b w "Join (v # ws) [b]"] by simp
qed (simp_all add: SplitByte_no_sep)

lemma lower_char_idem [simp]: "lower_char (lower_char c) = lower_char c"
proof (cases "65 \<le> (of_char c :: nat) \<and> (of_char c :: nat) \<le> 90")
  case True
  then have "(of_char (char_of ((of_char c :: nat) + 32) :: char) :: nat) = of_char c + 32"
    by (simp add: of_char_of)
  with True show ?thesis by (simp add: lower_char_def)
next
  case False
  then show ?thesis by (auto simp: lower_char_def)
qed

lemma ToLower_idem [simp]: "ToLower (ToLower s) = ToLower s"
  by (simp add: ToLower_def)

lemma EqualFold_refl [simp]: "EqualFold s s"
  by (simp add: EqualFold_def)

lemma ParseUint_bound: "ParseUint s = Some n \<Longrightarrow> unat n = decimal_val s"
  by (auto simp: ParseUint_def unat_of_nat take_bit_nat_eq_self split: if_splits)


lemma decimal_val_snoc: "decimal_val (s @ [c]) = 10 * decimal_val s + digit_val c"
  by (simp add: decimal_val_def)

lemma digit_char: "n < 10 \<Longrightarrow> is_digit (char_of (n + 48)) \<and> digit_val (char_of (n + 48)) = n"
  by (simp add: is_digit_def digit_val_def of_char_of)

lemma itoa_digits: "c \<in> set (itoa n) \<Longrightarrow> is_digit c"
proof (induction n rule: itoa.induct)
  case (1 n)
  show ?case
  proof (cases "n < 10")
    case True
    with 1(2) digit_char [of n] show ?thesis by (simp add: itoa.simps [of n])
  next
    case False
    with 1(1) [OF False] 1(2) digit_char [of "n mod 10"] show ?thesis by (auto simp: itoa.simps [of n])
  qed
qed

lemma itoa_not_Nil [simp]: "itoa n \<noteq> []"
  by (simp add: itoa.simps [of n])

lemma decimal_val_itoa: "decimal_val (itoa n) = n"
proof (induction n rule: itoa.induct)
  case (1 n)
  show ?case
  proof (cases "n < 10")
    case True
    with digit_char [of n] show ?thesis by (simp add: itoa.simps [of n] decimal_val_def)
  next
    case False
    with 1 [OF False] digit_char [of "n mod 10"] show ?thesis
      by (simp add: itoa.simps [of n] decimal_val_snoc)
  qed
qed

lemma ParseUint_itoa: "n < 2 ^ 64 \<Longrightarrow> ParseUint (itoa n) = Some (of_nat n)"
  using itoa_digits by (simp add: ParseUint_def decimal_val_itoa)

text \<open>For evaluation: the value of the digits as an integer, whose arithmetic is binary.\<close>

definition decimal_int :: "string \<Rightarrow> int" where
  "decimal_int s = foldl (\<lambda>n c. 10 * n + int (digit_val c)) 0 s"

lemma decimal_int: "decimal_int s = int (decimal_val s)"
proof -
  have "foldl (\<lambda>n c. 10 * n + int (digit_val c)) (int n) s = int (foldl (\<lambda>n c. 10 * n + digit_val c) n s)" for n
  proof (induction s arbitrary: n)
    case (Cons c s)
    then show ?case using Cons [of "10 * n + digit_val c"] by simp
  qed simp
  from this [of 0] show ?thesis by (simp add: decimal_int_def decimal_val_def)
qed

lemma ParseUint_code [code]:
  "ParseUint s =
     (if s \<noteq> [] \<and> list_all is_digit s \<and> decimal_int s < 2 ^ 64 then Some (word_of_int (decimal_int s)) else None)"
proof -
  have "decimal_int s < 2 ^ 64 \<longleftrightarrow> decimal_val s < 2 ^ 64" by (simp add: decimal_int)
  moreover have "(word_of_int (decimal_int s) :: u64) = of_nat (decimal_val s)" by (simp add: decimal_int)
  ultimately show ?thesis by (simp add: ParseUint_def list_all_iff)
qed

lemma or_zero_idem [simp]: "or_zero (or_zero v d) d = or_zero v d"
  by (simp add: or_zero_def)

lemma or_empty_idem [simp]: "or_empty (or_empty v d) d = or_empty v d"
  by (simp add: or_empty_def)

lemma or_zero_nonneg: "0 \<le> v \<Longrightarrow> 0 < d \<Longrightarrow> 0 < or_zero v (d::'a::linordered_idom)"
  by (auto simp: or_zero_def)


section \<open>Lemmas on lists and association lists\<close>

lemma filter_nonempty_mono: "(\<And>x. P x \<Longrightarrow> Q x) \<Longrightarrow> filter Q xs = [] \<Longrightarrow> filter P xs = []"
  by (auto simp: filter_empty_conv)

lemma set_take_mem: "x \<in> set (take n xs) \<Longrightarrow> x \<in> set xs"
  by (rule in_set_takeD)

lemma map_of_filter_key:
  "map_of (filter (\<lambda>kv. P (fst kv)) xs) k = (if P k then map_of xs k else None)"
  by (induction xs) auto

lemma distinct_fst_filter: "distinct (map fst xs) \<Longrightarrow> distinct (map fst (filter P xs))"
  by (simp add: distinct_map_filter)


section \<open>Lemmas on words\<close>

lemma unat_minus_one_less: "(0::u64) < s \<Longrightarrow> unat (s - 1) < unat s"
  by (metis unat_minus_one diff_less nat_neq_iff not_gr_zero unat_eq_zero word_neq_0_conv zero_less_one)

lemma unat_minus_one_u64: "(0::u64) < s \<Longrightarrow> unat (s - 1) = unat s - 1"
  by (metis unat_minus_one word_neq_0_conv)

lemma unat_sub_u64: "(b::u64) \<le> a \<Longrightarrow> unat (a - b) = unat a - unat b"
  by (rule unat_sub)

lemma of_nat_ne_zero_u64: "0 < k \<Longrightarrow> k < 2 ^ 64 \<Longrightarrow> (of_nat k :: u64) \<noteq> 0"
  by (auto simp: word_of_nat_eq_0_iff dest: dvd_imp_le)


section \<open>Histories\<close>

text \<open>A component as a machine: operations, an invariant, and the operations that are in order.\<close>

locale machine =
  fixes exec :: "'op \<Rightarrow> 'st \<Rightarrow> 'st" and inv :: "'st \<Rightarrow> bool" and in_order :: "'op \<Rightarrow> bool"
  assumes step_keeps: "inv s \<Longrightarrow> in_order op \<Longrightarrow> inv (exec op s)"
begin

lemma run_keeps: "inv s \<Longrightarrow> list_all in_order ops \<Longrightarrow> inv (fold exec ops s)"
  by (induction ops arbitrary: s) (simp_all add: step_keeps)

end

lemma SplitByte_append_sep: "SplitByte b (s @ b # t) = SplitByte b s @ SplitByte b t"
  by (induction s) (auto split: list.splits)

end
