(* ===== verification/Go_Http.thy ===== *)
theory Go_Http
  imports Go_Prelude
begin

text \<open>
  The parts of Go's packages net/url and net/http that the proxy uses: percent-encoding of paths and
  query components, \<open>url.Values\<close>, \<open>URL.EscapedPath\<close>, and \<open>http.Header\<close>.

  A query value map is an association list from keys to value lists; \<open>Encode\<close> sorts the keys, so the order
  of the list does not matter.  A header is an association list whose keys are in canonical form, which is how
  net/http stores every header it parses.  The parser accepts any number of query parameters.

  Lemmas: unescaping an escaped query component gives it back, an escaped component contains none of the
  separators, and parsing an encoded query gives the query back.
\<close>

section \<open>Percent-encoding\<close>

definition is_alnum :: "char \<Rightarrow> bool" where
  "is_alnum c \<longleftrightarrow> (let n = (of_char c :: nat) in (48 \<le> n \<and> n \<le> 57) \<or> (65 \<le> n \<and> n \<le> 90) \<or> (97 \<le> n \<and> n \<le> 122))"

datatype encoding = encodePath | encodeQueryComponent

definition shouldEscape :: "encoding \<Rightarrow> char \<Rightarrow> bool" where
  "shouldEscape mode c =
     (if is_alnum c \<or> c \<in> set ''-_.~'' then False
      else if c \<in> set ''$&+,/:;=?@'' then (case mode of encodePath \<Rightarrow> c = CHR ''?'' | encodeQueryComponent \<Rightarrow> True)
      else True)"

definition upperhex :: "nat \<Rightarrow> char" where
  "upperhex n = (if n < 10 then char_of (n + 48) else char_of (n + 55))"

definition ishex :: "char \<Rightarrow> bool" where
  "ishex c \<longleftrightarrow> (let n = (of_char c :: nat) in (48 \<le> n \<and> n \<le> 57) \<or> (97 \<le> n \<and> n \<le> 102) \<or> (65 \<le> n \<and> n \<le> 70))"

definition unhex :: "char \<Rightarrow> nat" where
  "unhex c = (let n = (of_char c :: nat) in
     if 48 \<le> n \<and> n \<le> 57 then n - 48 else if 97 \<le> n \<and> n \<le> 102 then n - 87 else if 65 \<le> n \<and> n \<le> 70 then n - 55 else 0)"

definition escape_char :: "encoding \<Rightarrow> char \<Rightarrow> string" where
  "escape_char mode c =
     (if c = CHR '' '' \<and> mode = encodeQueryComponent then ''+''
      else if shouldEscape mode c then [CHR ''%'', upperhex (of_char c div 16), upperhex (of_char c mod 16)]
      else [c])"

definition url_escape :: "encoding \<Rightarrow> string \<Rightarrow> string" where
  "url_escape mode s = concat (map (escape_char mode) s)"

fun url_unescape :: "encoding \<Rightarrow> string \<Rightarrow> string option" where
  "url_unescape mode [] = Some []"
| "url_unescape mode (c # s) =
     (if c = CHR ''%'' then
        (case s of
           a # b # t \<Rightarrow>
             if ishex a \<and> ishex b then map_option ((#) (char_of (16 * unhex a + unhex b))) (url_unescape mode t) else None
         | _ \<Rightarrow> None)
      else if c = CHR ''+'' \<and> mode = encodeQueryComponent then map_option ((#) (CHR '' '')) (url_unescape mode s)
      else map_option ((#) c) (url_unescape mode s))"

abbreviation QueryEscape :: "string \<Rightarrow> string" where "QueryEscape \<equiv> url_escape encodeQueryComponent"
abbreviation QueryUnescape :: "string \<Rightarrow> string option" where "QueryUnescape \<equiv> url_unescape encodeQueryComponent"


section \<open>Query values\<close>

type_synonym url_Values = "(string \<times> string list) list"

definition Values_Get :: "url_Values \<Rightarrow> string \<Rightarrow> string" where
  "Values_Get q k = (case map_of q k of Some (v # _) \<Rightarrow> v | _ \<Rightarrow> [])"

definition Values_Add :: "string \<Rightarrow> string \<Rightarrow> url_Values \<Rightarrow> url_Values" where
  "Values_Add k v q = AList.update k (case map_of q k of None \<Rightarrow> [v] | Some vs \<Rightarrow> vs @ [v]) q"

definition Values_Del :: "string \<Rightarrow> url_Values \<Rightarrow> url_Values" where
  "Values_Del k q = filter (\<lambda>kv. fst kv \<noteq> k) q"

definition encode_pairs :: "url_Values \<Rightarrow> (string \<times> string) list" where
  "encode_pairs q = concat (map (\<lambda>(k, vs). map (Pair k) vs) (sort_key fst q))"

definition Encode :: "url_Values \<Rightarrow> string" where
  "Encode q = Join (map (\<lambda>(k, v). QueryEscape k @ ''='' @ QueryEscape v) (encode_pairs q)) ''&''"

text \<open>One piece between ampersands: pieces with a semicolon, empty pieces and pieces that do not decode are
  skipped (\<open>URL.Query\<close> drops the error that \<open>ParseQuery\<close> reports for them).\<close>

definition parse_piece :: "string \<Rightarrow> (string \<times> string) option" where
  "parse_piece piece =
     (if Contains piece '';'' then None
      else if piece = [] then None
      else case CutByte (CHR ''='') piece of
        (k, v, _) \<Rightarrow>
          (case QueryUnescape k of
             None \<Rightarrow> None
           | Some k' \<Rightarrow> (case QueryUnescape v of None \<Rightarrow> None | Some v' \<Rightarrow> Some (k', v'))))"

definition add_piece :: "url_Values \<Rightarrow> string \<Rightarrow> url_Values" where
  "add_piece q piece = (case parse_piece piece of None \<Rightarrow> q | Some (k, v) \<Rightarrow> Values_Add k v q)"

definition ParseQuery :: "string \<Rightarrow> url_Values" where
  "ParseQuery s = foldl add_piece [] (SplitByte (CHR ''&'') s)"


section \<open>URLs and requests\<close>

record url_URL =
  u_Path :: string
  u_RawPath :: string
  u_RawQuery :: string

definition validEncoded :: "string \<Rightarrow> bool" where
  "validEncoded s \<longleftrightarrow> (\<forall>c\<in>set s. c \<in> set ''!$&()*+,;=:@[]%'' \<or> c = CHR 0x27 \<or> \<not> shouldEscape encodePath c)"

definition EscapedPath :: "url_URL \<Rightarrow> string" where
  "EscapedPath u =
     (if u_RawPath u \<noteq> [] \<and> validEncoded (u_RawPath u) \<and> url_unescape encodePath (u_RawPath u) = Some (u_Path u)
      then u_RawPath u
      else if u_Path u = ''*'' then ''*''
      else url_escape encodePath (u_Path u))"

definition Query :: "url_URL \<Rightarrow> url_Values" where
  "Query u = ParseQuery (u_RawQuery u)"

type_synonym http_Header = "(string \<times> string list) list"

text \<open>The canonical form of a header name: the first letter and every letter after a hyphen upper case, the
  rest lower case.  (A name with a byte that may not stand in one is left as it is.)\<close>

definition token_char :: "char \<Rightarrow> bool" where
  "token_char c \<longleftrightarrow> is_alnum c \<or> c \<in> set ''!#$%&*+-.^_`|~'' \<or> c = CHR 0x27"

fun canonical_loop :: "bool \<Rightarrow> string \<Rightarrow> string" where
  "canonical_loop upper [] = []"
| "canonical_loop upper (c # s) = (if upper then upper_char c else lower_char c) # canonical_loop (c = CHR ''-'') s"

definition CanonicalHeaderKey :: "string \<Rightarrow> string" where
  "CanonicalHeaderKey s = (if list_all token_char s then canonical_loop True s else s)"

definition Header_Values :: "http_Header \<Rightarrow> string \<Rightarrow> string list" where
  "Header_Values h k = (case map_of h (CanonicalHeaderKey k) of None \<Rightarrow> [] | Some vs \<Rightarrow> vs)"

definition Header_Get :: "http_Header \<Rightarrow> string \<Rightarrow> string" where
  "Header_Get h k = (case Header_Values h k of [] \<Rightarrow> [] | v # _ \<Rightarrow> v)"

definition Header_Set :: "string \<Rightarrow> string \<Rightarrow> http_Header \<Rightarrow> http_Header" where
  "Header_Set k v h = AList.update (CanonicalHeaderKey k) [v] h"

definition Header_Add :: "string \<Rightarrow> string \<Rightarrow> http_Header \<Rightarrow> http_Header" where
  "Header_Add k v h =
     (let ck = CanonicalHeaderKey k in AList.update ck ((case map_of h ck of None \<Rightarrow> [] | Some vs \<Rightarrow> vs) @ [v]) h)"

definition Header_Del :: "string \<Rightarrow> http_Header \<Rightarrow> http_Header" where
  "Header_Del k h = filter (\<lambda>kv. fst kv \<noteq> CanonicalHeaderKey k) h"

record http_Request =
  r_Method :: string
  r_URL :: url_URL
  r_Header :: http_Header
  r_Host :: string
  r_RemoteAddr :: string


section \<open>Escaping round trips\<close>

lemma hex_digit: "n < 16 \<Longrightarrow> unhex (upperhex n) = n \<and> ishex (upperhex n)"
  by (cases "n < 10") (simp_all add: upperhex_def unhex_def ishex_def Let_def of_char_of)

lemma char_nibbles: "(of_char c :: nat) div 16 < 16" "(of_char c :: nat) mod 16 < 16"
proof -
  have "(of_char c :: nat) < 16 * 16" using of_char_mod_256 [of c, where ?'a = nat] by (metis mod_less_divisor mult_numeral_1
      num_double numeral_times_numeral zero_less_numeral numeral_eq_iff semiring_norm(12,13))
  then show "(of_char c :: nat) div 16 < 16" by (rule less_mult_imp_div_less)
qed simp

lemma char_hex:
  "16 * unhex (upperhex ((of_char c :: nat) div 16)) + unhex (upperhex ((of_char c :: nat) mod 16)) = of_char c"
  "ishex (upperhex ((of_char c :: nat) div 16))" "ishex (upperhex ((of_char c :: nat) mod 16))"
  using char_nibbles [of c] by (simp_all add: hex_digit)

lemma unescape_escape_char:
  "QueryUnescape (escape_char encodeQueryComponent c @ s) = map_option ((#) c) (QueryUnescape s)"
proof -
  consider (sp) "c = CHR '' ''" | (esc) "c \<noteq> CHR '' ''" "shouldEscape encodeQueryComponent c" | (plain) "c \<noteq> CHR '' ''" "\<not> shouldEscape encodeQueryComponent c"
    by blast
  then show ?thesis
  proof cases
    case esc
    then show ?thesis using char_hex [of c] by (simp add: escape_char_def)
  next
    case plain
    moreover have "shouldEscape encodeQueryComponent (CHR ''%'')" "shouldEscape encodeQueryComponent (CHR ''+'')" by code_simp+
    ultimately have "c \<noteq> CHR ''%''" "c \<noteq> CHR ''+''" by metis+
    with plain show ?thesis by (simp add: escape_char_def)
  qed (simp add: escape_char_def)
qed

lemma unescape_escape: "QueryUnescape (QueryEscape s) = Some s"
  by (induction s) (simp_all add: url_escape_def unescape_escape_char)


lemma escape_char_safe:
  "c' \<in> set (escape_char encodeQueryComponent c) \<Longrightarrow> c' \<noteq> CHR ''&'' \<and> c' \<noteq> CHR ''='' \<and> c' \<noteq> CHR '';''"
proof -
  have hex: "upperhex n \<noteq> CHR ''&'' \<and> upperhex n \<noteq> CHR ''='' \<and> upperhex n \<noteq> CHR '';''" if "n < 16" for n
  proof -
    have "(of_char (upperhex n) :: nat) \<noteq> 38 \<and> (of_char (upperhex n) :: nat) \<noteq> 61 \<and> (of_char (upperhex n) :: nat) \<noteq> 59"
      using that by (simp add: upperhex_def of_char_of)
    then show ?thesis by (auto simp: of_char_def)
  qed
  have esc: "shouldEscape encodeQueryComponent (CHR ''&'')" "shouldEscape encodeQueryComponent (CHR ''='')"
    "shouldEscape encodeQueryComponent (CHR '';'')" by code_simp+
  assume "c' \<in> set (escape_char encodeQueryComponent c)"
  then show ?thesis using hex [OF char_nibbles(1)] hex [OF char_nibbles(2)] esc by (auto simp: escape_char_def split: if_splits)
qed

lemma QueryEscape_safe:
  "c \<in> set (QueryEscape s) \<Longrightarrow> c \<noteq> CHR ''&'' \<and> c \<noteq> CHR ''='' \<and> c \<noteq> CHR '';''"
  by (auto simp: url_escape_def dest: escape_char_safe)

lemma CutByte_append: "b \<notin> set s \<Longrightarrow> CutByte b (s @ b # t) = (s, t, True)"
  by (induction s) auto

lemma parse_piece_escaped: "parse_piece (QueryEscape k @ ''='' @ QueryEscape v) = Some (k, v)"
proof -
  have "CHR ''='' \<notin> set (QueryEscape k)" "CHR '';'' \<notin> set (QueryEscape k @ ''='' @ QueryEscape v)"
    using QueryEscape_safe by auto
  moreover have "CHR '';'' \<in> set (QueryEscape k @ ''='' @ QueryEscape v)" if c: "Contains (QueryEscape k @ ''='' @ QueryEscape v) '';''"
  proof -
    obtain a b where "QueryEscape k @ ''='' @ QueryEscape v = a @ '';'' @ b" using c by (auto simp: Contains_iff)
    then show ?thesis by (metis append_Cons in_set_conv_decomp)
  qed
  ultimately have "\<not> Contains (QueryEscape k @ ''='' @ QueryEscape v) '';''"
    "CutByte (CHR ''='') (QueryEscape k @ ''='' @ QueryEscape v) = (QueryEscape k, QueryEscape v, True)"
    using CutByte_append [of "CHR ''=''" "QueryEscape k" "QueryEscape v"] by auto
  then show ?thesis by (simp add: parse_piece_def unescape_escape)
qed


section \<open>Queries round trip\<close>

definition values_ok :: "url_Values \<Rightarrow> bool" where
  "values_ok q \<longleftrightarrow> distinct (map fst q) \<and> list_all (\<lambda>kv. snd kv \<noteq> []) q"

lemma ParseQuery_pairs:
  "ParseQuery (Join (map (\<lambda>(k, v). QueryEscape k @ ''='' @ QueryEscape v) ps) ''&'') = foldl (\<lambda>q (k, v). Values_Add k v q) [] ps"
proof (cases "ps = []")
  case False
  let ?e = "\<lambda>(k, v). QueryEscape k @ ''='' @ QueryEscape v"
  have "\<forall>w\<in>set (map ?e ps). CHR ''&'' \<notin> set w" using QueryEscape_safe by auto
  then have "SplitByte (CHR ''&'') (Join (map ?e ps) ''&'') = map ?e ps" using False by (intro SplitByte_Join) auto
  moreover have "add_piece q (?e kv) = (\<lambda>(k, v). Values_Add k v q) kv" for q kv
    by (cases kv) (use parse_piece_escaped in \<open>simp add: add_piece_def\<close>)
  ultimately show ?thesis by (simp add: ParseQuery_def foldl_map)
qed (simp add: ParseQuery_def add_piece_def parse_piece_def)

lemma adds_same_key:
  "k \<notin> fst ` set q \<Longrightarrow> foldl (\<lambda>q (k, v). Values_Add k v q) (q @ [(k, vs)]) (map (Pair k) ws) = q @ [(k, vs @ ws)]"
proof (induction ws arbitrary: vs)
  case (Cons w ws)
  have "map_of q k = None" using Cons.prems by (simp add: map_of_eq_None_iff)
  moreover have "AList.update k (vs @ [w]) (q @ [(k, vs)]) = q @ [(k, vs @ [w])]" using Cons.prems by (induction q) auto
  ultimately have "Values_Add k w (q @ [(k, vs)]) = q @ [(k, vs @ [w])]" by (simp add: Values_Add_def map_add_def)
  then show ?case using Cons by simp
qed simp

lemma adds_new_key:
  assumes "k \<notin> fst ` set q" "vs \<noteq> []"
  shows "foldl (\<lambda>q (k, v). Values_Add k v q) q (map (Pair k) vs) = q @ [(k, vs)]"
proof -
  obtain v ws where vs: "vs = v # ws" using assms(2) by (cases vs) auto
  have "map_of q k = None" using assms(1) by (simp add: map_of_eq_None_iff)
  moreover have "AList.update k [v] q = q @ [(k, [v])]" using assms(1) by (induction q) auto
  ultimately have "Values_Add k v q = q @ [(k, [v])]" by (simp add: Values_Add_def)
  then show ?thesis using adds_same_key [OF assms(1), of "[v]" ws] by (simp add: vs)
qed

lemma adds_all:
  "distinct (map fst (acc @ q)) \<Longrightarrow> list_all (\<lambda>kv. snd kv \<noteq> []) q \<Longrightarrow>
   foldl (\<lambda>q (k, v). Values_Add k v q) acc (concat (map (\<lambda>(k, vs). map (Pair k) vs) q)) = acc @ q"
proof (induction q arbitrary: acc)
  case (Cons kv q)
  obtain k vs where kv: "kv = (k, vs)" by (cases kv)
  have "k \<notin> fst ` set acc" "vs \<noteq> []" using Cons.prems kv by auto
  then show ?case using Cons.IH [of "acc @ [kv]"] Cons.prems by (simp add: kv adds_new_key)
qed simp

lemma ParseQuery_Encode:
  assumes "values_ok q"
  shows "ParseQuery (Encode q) = sort_key fst q"
proof -
  have "distinct (map fst (sort_key fst q))"
    using assms by (metis values_ok_def distinct_map distinct_sort inj_on_cong set_sort)
  moreover have "list_all (\<lambda>kv. snd kv \<noteq> []) (sort_key fst q)" using assms by (simp add: values_ok_def list_all_iff)
  ultimately show ?thesis
    using adds_all [of "[]" "sort_key fst q"] unfolding Encode_def ParseQuery_pairs encode_pairs_def by simp
qed

end
