(* ===== verification/Config_Types.thy ===== *)
theory Config_Types
  imports Go_Prelude
begin

text \<open>
  The configuration structs of config/config.go, one record per struct.  A field keeps the source's
  name behind a prefix that names its struct, since the structs share field names.  A pointer is an
  option, \<^const>\<open>None\<close> for nil.  A slice is a list, except where the code tells a nil slice from an
  empty one (the lists of the CORS section), where it is an option of a list.  A map is an
  association list.
\<close>

record RateLimitConfig =
  rl_Limit :: real
  rl_Burst :: int

record RateLimitingConfig =
  rls_PerIP :: "RateLimitConfig option"
  rls_Global :: "RateLimitConfig option"

record TierConfig =
  tier_Name :: string
  tier_Description :: string
  tier_RateLimiting :: "RateLimitConfig option"

record APIKeyConfig =
  key_ID :: string
  key_Description :: string
  key_Secret :: string
  key_Tier :: string
  key_RateLimiting :: "RateLimitConfig option"

record AuthConfig =
  auth_Secret :: string
  auth_Keys :: "APIKeyConfig list"
  auth_Tiers :: "TierConfig list"

record PprofConfig =
  pp_Enabled :: bool
  pp_Host :: string
  pp_Port :: int

record ServerConfig =
  srv_Host :: string
  srv_Port :: int
  srv_MaxTimeout :: duration
  srv_EnableGzip :: "bool option"
  srv_MaxResponseBodyBytes :: int
  srv_TrustedProxies :: "string list"

record DebugLoggingConfig =
  dl_Enabled :: bool
  dl_Path :: string
  dl_MaxSizeMB :: int
  dl_MaxBackups :: int
  dl_MaxBodyBytes :: int

record CORSConfig =
  cors_AllowedOrigins :: "string list option"
  cors_AllowedMethods :: "string list option"
  cors_AllowedHeaders :: "string list option"
  cors_ExposedHeaders :: "string list option"
  cors_AllowCredentials :: "bool option"
  cors_MaxAge :: int

record TimeoutConfig =
  to_Duration :: duration

record RetryConfig =
  rt_MaxAttempts :: int
  rt_Delay :: duration
  rt_Backoff :: real
  rt_Jitter :: duration
  rt_MaxDelay :: duration

record HedgeConfig =
  hd_Delay :: duration
  hd_MaxCount :: int

record CircuitBreakerConfig =
  FailureThreshold :: int
  SuccessThreshold :: int
  HalfOpenAfter :: duration

record ConsensusConfig =
  cs_Enabled :: bool
  cs_MaxParticipants :: int
  cs_AgreementThreshold :: int

record FailsafeConfig =
  fs_Timeout :: "TimeoutConfig option"
  fs_Retry :: "RetryConfig option"
  fs_Hedge :: "HedgeConfig option"
  fs_CircuitBreaker :: "CircuitBreakerConfig option"
  fs_Consensus :: "ConsensusConfig option"

text \<open>\<open>MaxAttempts\<close>: the retry attempt budget, 1 when retry is not configured.\<close>

definition MaxAttempts :: "FailsafeConfig \<Rightarrow> int" where
  "MaxAttempts f = (case fs_Retry f of None \<Rightarrow> 1 | Some r \<Rightarrow> rt_MaxAttempts r)"

record FailsafeOverride =
  fo_PathPattern :: string
  fo_Methods :: "string list"
  fo_Failsafe :: FailsafeConfig

record UpstreamRateLimitConfig =
  url_AutoTune :: bool
  url_InitialRate :: real
  url_MinRate :: real
  url_MaxRate :: real
  url_AdjustmentPeriod :: duration
  url_ErrorRateThreshold :: real

record UpstreamConfig =
  uc_ID :: string
  uc_URL :: string
  uc_Headers :: "(string \<times> string) list"
  uc_Failsafe :: "FailsafeConfig option"
  uc_Priority :: int
  uc_Weight :: int
  uc_Archive :: bool
  uc_RateLimiting :: "UpstreamRateLimitConfig option"

record ScoreWeightsConfig =
  sw_ErrorRate :: real
  sw_Latency :: real
  sw_HeadLag :: real
  sw_SyncDistance :: real

record ClientRouteConfig =
  cr_PathPrefix :: string
  cr_UpstreamID :: string

record RouteRuleConfig =
  rr_PathPattern :: string
  rr_Methods :: "string list"
  rr_UpstreamID :: string
  rr_Deny :: bool

record RoutingConfig =
  ro_LoadBalancing :: string
  ro_StickySession :: bool
  ro_StickyTimeout :: duration
  ro_BlockedPaths :: "string list"
  ro_RebalanceInterval :: duration
  ro_RebalanceThreshold :: real
  ro_RebalanceMaxSweep :: int
  ro_ScoreWeights :: "ScoreWeightsConfig option"
  ro_ScoreWindowSize :: int
  ro_ClientRoutes :: "ClientRouteConfig list"
  ro_RouteRules :: "RouteRuleConfig list"

record HealthConfig =
  hc_CheckInterval :: duration
  hc_FinalityInterval :: duration
  hc_MaxSyncDistance :: u64
  hc_FollowDistance :: u64
  hc_MaxHeadDistance :: u64

record RedisConfig =
  rd_URL :: string
  rd_Username :: string
  rd_Password :: string
  rd_DB :: int
  rd_MaxRetries :: int

record RedisCacheConfig =
  rc_Redis :: RedisConfig
  rc_KeyPrefix :: string

record CachePolicy =
  cp_Pattern :: string
  cp_TTL :: duration
  cp_Methods :: "string list"

record CacheConfig =
  ca_Enabled :: bool
  ca_MaxSize :: int
  ca_Driver :: string
  ca_Redis :: "RedisCacheConfig option"
  ca_Policies :: "CachePolicy list"

record NetworkConfig =
  nc_ID :: string
  nc_GenesisTime :: int
  nc_SecondsPerSlot :: int
  nc_SlotsPerEpoch :: int
  nc_Upstreams :: "UpstreamConfig list"
  nc_Failsafe :: "FailsafeConfig option"
  nc_FailsafeOverrides :: "FailsafeOverride list"
  nc_Routing :: RoutingConfig
  nc_Cache :: CacheConfig
  nc_Health :: "HealthConfig option"
  nc_RateLimiting :: "RateLimitingConfig option"

record MetricsConfig =
  me_Enabled :: bool
  me_Path :: string

record StateConfig =
  st_Driver :: string
  st_Redis :: "RedisConfig option"

record UIConfig =
  ui_Enabled :: bool
  ui_BasePath :: string
  ui_Auth :: "AuthConfig option"

text \<open>\<open>LegacyProjects\<close> is a raw YAML node of which the code reads only whether it is present.\<close>

record Config =
  c_LogLevel :: string
  c_DebugLogging :: DebugLoggingConfig
  c_Server :: ServerConfig
  c_Pprof :: PprofConfig
  c_CORS :: "CORSConfig option"
  c_Auth :: "AuthConfig option"
  c_Networks :: "NetworkConfig list"
  c_LegacyProjects :: bool
  c_Failsafe :: FailsafeConfig
  c_RateLimiting :: RateLimitingConfig
  c_Health :: HealthConfig
  c_Metrics :: MetricsConfig
  c_State :: StateConfig
  c_UI :: UIConfig

text \<open>Chain timing defaults.\<close>

definition DefaultSecondsPerSlot :: int where "DefaultSecondsPerSlot = 12"
definition DefaultSlotsPerEpoch :: u64 where "DefaultSlotsPerEpoch = 32"

definition GzipEnabled :: "ServerConfig \<Rightarrow> bool" where
  "GzipEnabled s = (case srv_EnableGzip s of None \<Rightarrow> True | Some b \<Rightarrow> b)"


text \<open>Zero values of the structs, as Go initialises them.\<close>

definition zeroFailsafe :: FailsafeConfig where
  "zeroFailsafe = \<lparr>fs_Timeout = None, fs_Retry = None, fs_Hedge = None, fs_CircuitBreaker = None, fs_Consensus = None\<rparr>"

definition zeroRouting :: RoutingConfig where
  "zeroRouting = \<lparr>ro_LoadBalancing = [], ro_StickySession = False, ro_StickyTimeout = 0, ro_BlockedPaths = [],
     ro_RebalanceInterval = 0, ro_RebalanceThreshold = 0, ro_RebalanceMaxSweep = 0, ro_ScoreWeights = None,
     ro_ScoreWindowSize = 0, ro_ClientRoutes = [], ro_RouteRules = []\<rparr>"

definition zeroHealth :: HealthConfig where
  "zeroHealth = \<lparr>hc_CheckInterval = 0, hc_FinalityInterval = 0, hc_MaxSyncDistance = 0, hc_FollowDistance = 0, hc_MaxHeadDistance = 0\<rparr>"

definition zeroCache :: CacheConfig where
  "zeroCache = \<lparr>ca_Enabled = False, ca_MaxSize = 0, ca_Driver = [], ca_Redis = None, ca_Policies = []\<rparr>"

definition zeroUpstreamConfig :: UpstreamConfig where
  "zeroUpstreamConfig = \<lparr>uc_ID = [], uc_URL = [], uc_Headers = [], uc_Failsafe = None, uc_Priority = 0, uc_Weight = 0,
     uc_Archive = False, uc_RateLimiting = None\<rparr>"

definition zeroNetwork :: NetworkConfig where
  "zeroNetwork = \<lparr>nc_ID = [], nc_GenesisTime = 0, nc_SecondsPerSlot = 0, nc_SlotsPerEpoch = 0, nc_Upstreams = [],
     nc_Failsafe = None, nc_FailsafeOverrides = [], nc_Routing = zeroRouting, nc_Cache = zeroCache, nc_Health = None,
     nc_RateLimiting = None\<rparr>"

definition zeroConfig :: Config where
  "zeroConfig = \<lparr>c_LogLevel = [],
     c_DebugLogging = \<lparr>dl_Enabled = False, dl_Path = [], dl_MaxSizeMB = 0, dl_MaxBackups = 0, dl_MaxBodyBytes = 0\<rparr>,
     c_Server = \<lparr>srv_Host = [], srv_Port = 0, srv_MaxTimeout = 0, srv_EnableGzip = None, srv_MaxResponseBodyBytes = 0,
                 srv_TrustedProxies = []\<rparr>,
     c_Pprof = \<lparr>pp_Enabled = False, pp_Host = [], pp_Port = 0\<rparr>, c_CORS = None, c_Auth = None, c_Networks = [],
     c_LegacyProjects = False, c_Failsafe = zeroFailsafe, c_RateLimiting = \<lparr>rls_PerIP = None, rls_Global = None\<rparr>,
     c_Health = zeroHealth, c_Metrics = \<lparr>me_Enabled = False, me_Path = []\<rparr>, c_State = \<lparr>st_Driver = [], st_Redis = None\<rparr>,
     c_UI = \<lparr>ui_Enabled = False, ui_BasePath = [], ui_Auth = None\<rparr>\<rparr>"

end
