(* ===== verification/Api_Path.thy ===== *)
theory Api_Path
  imports Config_Types
begin

text \<open>
  The request-path classifiers of \<open>src/network\<close>: the route templates of \<open>api_path.go\<close>, the slot, epoch,
  named-identifier and finality predicates and the clean-path guard of \<open>network.go\<close>, the historical
  targets of \<open>historical_target.go\<close> and the pruning test of \<open>pruning_error.go\<close>.  A path is split into
  segments as the source does it; every access \<open>segs ! i\<close> stands behind the length test that guards it
  there.

  Lemmas: the templates form a fixed finite list; a clean rooted path has no dot segment; the numeric
  parsers read back what is printed; finality is monotone, and disjoint from the named identifiers; the
  archive test is the intended comparison of natural numbers wherever the 64-bit arithmetic does not wrap.
\<close>

section \<open>Segments\<close>

definition path_segments :: "string \<Rightarrow> string list" where
  "path_segments p = SplitByte (CHR ''/'') (TrimByte (CHR ''/'') p)"

text \<open>The version tests: \<open>len(s) != 2 || s[0] != 'v' || s[1] < '0' || s[1] > '9'\<close>, and the looser
  \<open>len(s) < 2 || s[0] != 'v'\<close>.\<close>

definition version_digit :: "string \<Rightarrow> bool" where
  "version_digit s \<longleftrightarrow> length s = 2 \<and> s ! 0 = CHR ''v'' \<and> is_digit (s ! 1)"

definition version_segment :: "string \<Rightarrow> bool" where
  "version_segment s \<longleftrightarrow> 2 \<le> length s \<and> s ! 0 = CHR ''v''"


section \<open>Route templates\<close>

definition node_routes :: "string list" where
  "node_routes = [''health'', ''identity'', ''peer_count'', ''peers'', ''syncing'', ''version'']"

definition config_routes :: "string list" where
  "config_routes = [''deposit_contract'', ''fork_schedule'', ''genesis'', ''spec'']"

definition block_routes :: "string list" where
  "block_routes = [''blocks'', ''blinded_blocks'', ''blobs'', ''blob_sidecars'']"

definition state_routes :: "string list" where
  "state_routes = [''committees'', ''finality_checkpoints'', ''fork'', ''pending_consolidations'',
     ''pending_deposits'', ''pending_partial_withdrawals'', ''proposer_lookahead'', ''randao'', ''root'',
     ''sync_committees'', ''validator_balances'', ''validator_identities'', ''validators'']"

definition pool_routes :: "string list" where
  "pool_routes = [''attestations'', ''attester_slashings'', ''proposer_slashings'', ''sync_committees'',
     ''voluntary_exits'', ''bls_to_execution_changes'', ''payload_attestations'']"

definition validator_routes :: "string list" where
  "validator_routes = [''attestation_data'', ''aggregate_and_proofs'', ''aggregate_attestation'',
     ''beacon_committee_selections'', ''beacon_committee_subscriptions'', ''builder_preferences'',
     ''contribution_and_proofs'', ''payload_attestation_data'', ''prepare_beacon_proposer'',
     ''proposer_preferences'', ''register_validator'', ''sync_committee_contribution'',
     ''sync_committee_selections'', ''sync_committee_subscriptions'']"

text \<open>The inner switches of \<open>normalizeAPIPath\<close>, one definition per category.  The result is the part of
  the template after the version prefix.\<close>

definition normalize_blocks :: "string list \<Rightarrow> string" where
  "normalize_blocks segs =
     (if length segs = 5 then ''/beacon/'' @ segs ! 3 @ ''/{block_id}''
      else if length segs = 6 \<and> segs ! 5 \<in> set [''attestations'', ''root'']
        then ''/beacon/'' @ segs ! 3 @ ''/{block_id}/'' @ segs ! 5
      else ''/beacon/'' @ segs ! 3 @ ''/other'')"

definition normalize_states :: "string list \<Rightarrow> string" where
  "normalize_states segs =
     (if length segs < 6 then ''/beacon/states/other''
      else if segs ! 5 \<in> set state_routes \<and> length segs = 6 then ''/beacon/states/{state_id}/'' @ segs ! 5
      else if segs ! 5 \<in> set state_routes \<and> length segs = 7 \<and> segs ! 5 = ''validators''
        then ''/beacon/states/{state_id}/'' @ segs ! 5 @ ''/{validator_id}''
      else ''/beacon/states/other'')"

definition normalize_rewards :: "string list \<Rightarrow> string" where
  "normalize_rewards segs =
     (if length segs = 6 \<and> segs ! 4 = ''attestations'' then ''/beacon/rewards/attestations/{epoch}''
      else if length segs = 6 \<and> segs ! 4 \<in> set [''blocks'', ''sync_committee'']
        then ''/beacon/rewards/'' @ segs ! 4 @ ''/{block_id}''
      else ''/beacon/rewards/other'')"

definition normalize_light_client :: "string list \<Rightarrow> string" where
  "normalize_light_client segs =
     (if length segs = 4 then ''/beacon/light_client''
      else if segs ! 4 \<in> set [''finality_update'', ''optimistic_update'', ''updates'']
        then ''/beacon/light_client/'' @ segs ! 4
      else if segs ! 4 = ''bootstrap'' \<and> length segs = 6 then ''/beacon/light_client/bootstrap/{block_root}''
      else ''/beacon/light_client/other'')"

definition normalize_beacon :: "string list \<Rightarrow> string" where
  "normalize_beacon segs =
     (if length segs < 4 then ''/beacon/other''
      else if segs ! 3 = ''genesis'' then ''/beacon/genesis''
      else if segs ! 3 = ''headers'' then
        (if length segs = 4 then ''/beacon/headers'' else ''/beacon/headers/{block_id}'')
      else if segs ! 3 \<in> set block_routes then normalize_blocks segs
      else if segs ! 3 = ''states'' then normalize_states segs
      else if segs ! 3 = ''rewards'' then normalize_rewards segs
      else if segs ! 3 = ''execution_payload_envelopes'' then
        (if length segs = 4 then ''/beacon/execution_payload_envelopes''
         else if length segs = 5 then ''/beacon/execution_payload_envelopes/{block_id}''
         else ''/beacon/execution_payload_envelopes/other'')
      else if segs ! 3 = ''execution_payload_bids'' then
        (if length segs = 4 then ''/beacon/execution_payload_bids'' else ''/beacon/other'')
      else if segs ! 3 = ''pool'' then
        (if length segs = 5 \<and> segs ! 4 \<in> set pool_routes then ''/beacon/pool/'' @ segs ! 4
         else ''/beacon/pool/other'')
      else if segs ! 3 = ''deposit_snapshot'' then
        (if length segs = 4 then ''/beacon/deposit_snapshot'' else ''/other'')
      else if segs ! 3 = ''light_client'' then normalize_light_client segs
      else ''/beacon/other'')"

definition normalize_validator :: "string list \<Rightarrow> string" where
  "normalize_validator segs =
     (if length segs = 6 \<and> segs ! 3 = ''duties'' \<and> segs ! 4 \<in> set [''attester'', ''proposer'', ''sync'', ''ptc'']
        then ''/validator/duties/'' @ segs ! 4 @ ''/{epoch}''
      else if length segs = 5 \<and> segs ! 3 = ''liveness'' then ''/validator/liveness/{epoch}''
      else if length segs = 5 \<and> segs ! 3 = ''blocks'' then ''/validator/blocks/{slot}''
      else if length segs = 6 \<and> segs ! 3 = ''execution_payload_envelopes''
        then ''/validator/execution_payload_envelopes/{slot}/{beacon_block_root}''
      else if length segs = 4 \<and> segs ! 3 \<in> set validator_routes then ''/validator/'' @ segs ! 3
      else ''/validator/other'')"

definition normalize_debug :: "string list \<Rightarrow> string" where
  "normalize_debug segs =
     (if length segs = 6 \<and> segs ! 3 = ''beacon'' \<and> segs ! 4 = ''states'' then ''/debug/beacon/states/{state_id}''
      else if length segs = 6 \<and> segs ! 3 = ''beacon'' \<and> segs ! 4 = ''data_column_sidecars''
        then ''/debug/beacon/data_column_sidecars/{block_id}''
      else ''/debug/other'')"

definition normalize_category :: "string list \<Rightarrow> string" where
  "normalize_category segs =
     (if segs ! 2 = ''events'' then ''/events''
      else if segs ! 2 = ''node'' then
        (if 4 \<le> length segs \<and> segs ! 3 \<in> set node_routes then ''/node/'' @ segs ! 3 else ''/node/other'')
      else if segs ! 2 = ''config'' then
        (if 4 \<le> length segs \<and> segs ! 3 \<in> set config_routes then ''/config/'' @ segs ! 3 else ''/config/other'')
      else if segs ! 2 = ''beacon'' then normalize_beacon segs
      else if segs ! 2 = ''validator'' then normalize_validator segs
      else if segs ! 2 = ''debug'' then normalize_debug segs
      else ''/other'')"

definition normalizeAPIPath :: "string \<Rightarrow> string" where
  "normalizeAPIPath path0 =
     (let p1 = TrimSpace path0 in
      if p1 = [] then ''/''
      else
        let p2 = (if p1 \<noteq> ''/'' then or_empty (TrimRightByte (CHR ''/'') p1) ''/'' else p1) in
        if p2 = ''/healthz'' then p2
        else
          let segs = path_segments p2 in
          if length segs < 2 \<or> segs ! 0 \<noteq> ''eth'' \<or> \<not> version_digit (segs ! 1) then ''/other''
          else
            let prefix = ''/'' @ segs ! 0 @ ''/'' @ segs ! 1 in
            if length segs = 2 then prefix else prefix @ normalize_category segs)"


section \<open>Identifiers in a path\<close>

definition slot_routes :: "string list" where
  "slot_routes = [''headers'', ''blocks'', ''blinded_blocks'', ''blobs'', ''blob_sidecars'', ''states'',
     ''execution_payload_envelopes'']"

definition parse_slot :: "string \<Rightarrow> u64 option" where
  "parse_slot seg =
     (if seg = [] \<or> length seg > 12 \<or> \<not> is_digit (seg ! 0) then None
      else case ParseUint seg of None \<Rightarrow> None | Some n \<Rightarrow> if n = 0 then None else Some n)"

definition pathNumericSlot :: "string \<Rightarrow> u64 option" where
  "pathNumericSlot path =
     (let segs = path_segments path in
      if length segs < 5 \<or> segs ! 0 \<noteq> ''eth'' \<or> \<not> version_segment (segs ! 1) \<or> segs ! 2 \<noteq> ''beacon'' then None
      else if segs ! 3 \<in> set slot_routes then parse_slot (segs ! 4)
      else if segs ! 3 = ''rewards'' then
        (if length segs < 6 then None
         else if segs ! 4 \<in> set [''blocks'', ''sync_committee''] then parse_slot (segs ! 5) else None)
      else None)"

definition namedSlotIDs :: "string list" where
  "namedSlotIDs = [''head'', ''finalized'', ''justified'']"

definition pathHasNamedSlotID :: "string \<Rightarrow> bool" where
  "pathHasNamedSlotID path =
     (let segs = path_segments path in
      if length segs < 4 \<or> segs ! 0 \<noteq> ''eth'' \<or> \<not> version_segment (segs ! 1) \<or> segs ! 2 \<noteq> ''beacon'' then False
      else if segs ! 3 = ''headers'' then
        (if length segs < 5 then True else segs ! 4 \<in> set namedSlotIDs)
      else if segs ! 3 \<in> set slot_routes then
        (if length segs < 5 then False else segs ! 4 \<in> set namedSlotIDs)
      else False)"

definition pathNumericEpoch :: "string \<Rightarrow> u64 option" where
  "pathNumericEpoch path =
     (let segs = path_segments path in
      if length segs \<noteq> 6 then None
      else if segs ! 0 \<noteq> ''eth'' \<or> \<not> version_segment (segs ! 1) then None
      else if (segs ! 2 = ''beacon'' \<and> segs ! 3 = ''rewards'' \<and> segs ! 4 = ''attestations'') \<or>
              (segs ! 2 = ''validator'' \<and> segs ! 3 = ''duties'' \<and> segs ! 4 = ''proposer'')
        then ParseUint (segs ! 5)
      else None)"

definition isPayloadEnvelopePath :: "string \<Rightarrow> bool" where
  "isPayloadEnvelopePath path =
     (let segs = path_segments path in
      4 \<le> length segs \<and> segs ! 2 = ''beacon'' \<and> segs ! 3 = ''execution_payload_envelopes'')"

definition isFinalizedPath :: "string \<Rightarrow> u64 \<Rightarrow> u64 \<Rightarrow> bool" where
  "isFinalizedPath path finalized spe =
     (let by_epoch = (case pathNumericEpoch path of None \<Rightarrow> False
                      | Some epoch \<Rightarrow> finalized \<ge> 2 \<and> epoch \<le> finalized - 2) in
      if finalized = 0 then False
      else case pathNumericSlot path of
        Some slot \<Rightarrow>
          if isPayloadEnvelopePath path then finalized \<ge> 2 \<and> slot < (finalized - 1) * spe
          else if slot \<le> finalized * spe then True
          else by_epoch
      | None \<Rightarrow> by_epoch)"

definition isCleanPath :: "string \<Rightarrow> bool" where
  "isCleanPath p =
     (if Contains p '';'' then False
      else p = [] \<or> p = ''/'' \<or> path_Clean p = TrimSuffix p ''/'')"


section \<open>Historical targets\<close>

datatype HistoricalKind = HistoricalKindNone | HistoricalKindBlockByID | HistoricalKindBlobSidecars
  | HistoricalKindStateByID | HistoricalKindAttesterDuties | HistoricalKindProposerDuties
  | HistoricalKindSyncDuties | HistoricalKindRewardsEpoch | HistoricalKindLiveness
  | HistoricalKindPayloadEnvelope | HistoricalKindPTCDuties

definition blobSidecarsRetentionEpochs :: u64 where "blobSidecarsRetentionEpochs = 4096"
definition statesRetentionSlots :: u64 where "statesRetentionSlots = 8192"
definition blocksRetentionEpochs :: u64 where "blocksRetentionEpochs = 33024"

record HistoricalTarget =
  ht_Kind :: HistoricalKind
  ht_Named :: string
  ht_Slot :: "u64 option"
  ht_Root :: string
  ht_Epoch :: "u64 option"

definition noTarget :: HistoricalTarget where
  "noTarget = \<lparr>ht_Kind = HistoricalKindNone, ht_Named = [], ht_Slot = None, ht_Root = [], ht_Epoch = None\<rparr>"

definition IsHistorical :: "HistoricalTarget \<Rightarrow> bool" where
  "IsHistorical t \<longleftrightarrow> ht_Kind t \<noteq> HistoricalKindNone"

definition olderThan :: "u64 \<Rightarrow> u64 \<Rightarrow> u64 \<Rightarrow> bool" where
  "olderThan targetSlot headSlot retentionSlots =
     (if headSlot \<le> retentionSlots then False else targetSlot < headSlot - retentionSlots)"

definition older_slot :: "u64 option \<Rightarrow> u64 \<Rightarrow> u64 \<Rightarrow> bool" where
  "older_slot slot headSlot retention =
     (case slot of None \<Rightarrow> False | Some s \<Rightarrow> olderThan s headSlot retention)"

definition RequiresArchive :: "HistoricalTarget \<Rightarrow> u64 \<Rightarrow> u64 \<Rightarrow> bool" where
  "RequiresArchive t headSlot spe0 =
     (if headSlot = 0 \<or> ht_Named t \<noteq> [] \<or> ht_Root t \<noteq> [] then False
      else
        let spe = (if spe0 = 0 then DefaultSlotsPerEpoch else spe0);
            headEpoch = headSlot div spe in
        case ht_Kind t of
          HistoricalKindNone \<Rightarrow> False
        | HistoricalKindBlockByID \<Rightarrow> older_slot (ht_Slot t) headSlot (blocksRetentionEpochs * spe)
        | HistoricalKindPayloadEnvelope \<Rightarrow> older_slot (ht_Slot t) headSlot (blocksRetentionEpochs * spe)
        | HistoricalKindBlobSidecars \<Rightarrow> older_slot (ht_Slot t) headSlot (blobSidecarsRetentionEpochs * spe)
        | HistoricalKindStateByID \<Rightarrow> older_slot (ht_Slot t) headSlot statesRetentionSlots
        | _ \<Rightarrow> (case ht_Epoch t of None \<Rightarrow> False | Some e \<Rightarrow> e + 1 < headEpoch))"

text \<open>\<open>parseUint64\<close> tests for the empty string before calling \<open>strconv.ParseUint\<close>, which rejects it too.\<close>

definition parseUint64 :: "string \<Rightarrow> u64 option" where
  "parseUint64 s = (if s = [] then None else ParseUint s)"

definition parseBlockIdentifier :: "string \<Rightarrow> HistoricalTarget" where
  "parseBlockIdentifier seg =
     (if seg \<in> set [''head'', ''genesis'', ''finalized'', ''justified''] then noTarget\<lparr>ht_Named := seg\<rparr>
      else if HasPrefix seg ''0x'' \<or> HasPrefix seg ''0X'' then noTarget\<lparr>ht_Root := seg\<rparr>
      else case parseUint64 seg of Some slot \<Rightarrow> noTarget\<lparr>ht_Slot := Some slot\<rparr> | None \<Rightarrow> noTarget)"

definition epoch_target :: "HistoricalKind \<Rightarrow> string \<Rightarrow> HistoricalTarget" where
  "epoch_target k seg =
     (case parseUint64 seg of Some epoch \<Rightarrow> noTarget\<lparr>ht_Kind := k, ht_Epoch := Some epoch\<rparr> | None \<Rightarrow> noTarget)"

definition block_target :: "HistoricalKind \<Rightarrow> string \<Rightarrow> HistoricalTarget" where
  "block_target k seg = (parseBlockIdentifier seg)\<lparr>ht_Kind := k\<rparr>"

definition classifyBeaconPath :: "string list \<Rightarrow> HistoricalTarget" where
  "classifyBeaconPath segs =
     (if segs ! 3 \<in> set [''blocks'', ''blinded_blocks'', ''headers''] then
        (if length segs < 5 then noTarget else block_target HistoricalKindBlockByID (segs ! 4))
      else if segs ! 3 \<in> set [''blobs'', ''blob_sidecars''] then
        (if length segs < 5 then noTarget else block_target HistoricalKindBlobSidecars (segs ! 4))
      else if segs ! 3 = ''states'' then
        (if length segs < 5 then noTarget else block_target HistoricalKindStateByID (segs ! 4))
      else if segs ! 3 = ''execution_payload_envelopes'' then
        (if length segs < 5 then noTarget else block_target HistoricalKindPayloadEnvelope (segs ! 4))
      else if segs ! 3 = ''rewards'' then
        (if length segs < 6 then noTarget
         else if segs ! 4 = ''attestations'' then epoch_target HistoricalKindRewardsEpoch (segs ! 5)
         else if segs ! 4 \<in> set [''blocks'', ''sync_committee''] then block_target HistoricalKindBlockByID (segs ! 5)
         else noTarget)
      else if segs ! 3 = ''light_client'' then
        (if 6 \<le> length segs \<and> segs ! 4 = ''bootstrap'' then block_target HistoricalKindBlockByID (segs ! 5)
         else noTarget)
      else noTarget)"

definition classifyValidatorPath :: "string list \<Rightarrow> HistoricalTarget" where
  "classifyValidatorPath segs =
     (if length segs < 5 then noTarget
      else if segs ! 3 = ''liveness'' then epoch_target HistoricalKindLiveness (segs ! 4)
      else if length segs < 6 \<or> segs ! 3 \<noteq> ''duties'' then noTarget
      else if segs ! 4 = ''attester'' then epoch_target HistoricalKindAttesterDuties (segs ! 5)
      else if segs ! 4 = ''proposer'' then epoch_target HistoricalKindProposerDuties (segs ! 5)
      else if segs ! 4 = ''sync'' then epoch_target HistoricalKindSyncDuties (segs ! 5)
      else if segs ! 4 = ''ptc'' then epoch_target HistoricalKindPTCDuties (segs ! 5)
      else noTarget)"

definition classifyDebugPath :: "string list \<Rightarrow> HistoricalTarget" where
  "classifyDebugPath segs =
     (if length segs < 5 \<or> segs ! 3 \<noteq> ''beacon'' then noTarget
      else if length segs < 6 then noTarget
      else if segs ! 4 = ''states'' then block_target HistoricalKindStateByID (segs ! 5)
      else if segs ! 4 = ''data_column_sidecars'' then block_target HistoricalKindBlobSidecars (segs ! 5)
      else noTarget)"

definition classifyHistoricalTarget :: "string \<Rightarrow> HistoricalTarget" where
  "classifyHistoricalTarget p0 =
     (let p = TrimSpace p0 in
      if p = [] \<or> p = ''/'' then noTarget
      else
        let segs = path_segments p in
        if length segs < 4 \<or> segs ! 0 \<noteq> ''eth'' \<or> \<not> version_segment (segs ! 1) then noTarget
        else if segs ! 2 = ''beacon'' then classifyBeaconPath segs
        else if segs ! 2 = ''validator'' then classifyValidatorPath segs
        else if segs ! 2 = ''debug'' then classifyDebugPath segs
        else noTarget)"


section \<open>Pruning-shaped errors\<close>

definition peerDASCustodyBodySignals :: "string list" where
  "peerDASCustodyBodySignals = [''data columns'', ''reconstruct blobs'']"

definition isPeerDASCustodyBody :: "string \<Rightarrow> bool" where
  "isPeerDASCustodyBody body \<longleftrightarrow> (\<exists>sig\<in>set peerDASCustodyBodySignals. Contains body sig)"

definition isPruningError :: "int \<Rightarrow> string \<Rightarrow> HistoricalTarget \<Rightarrow> bool" where
  "isPruningError statusCode body target =
     (if \<not> IsHistorical target then False
      else if ht_Named target \<noteq> [] \<or> ht_Kind target = HistoricalKindPayloadEnvelope then False
      else if statusCode = 404 then True
      else if statusCode = 400 \<and> ht_Kind target = HistoricalKindBlobSidecars then isPeerDASCustodyBody body
      else False)"

definition peerDASBodyPeekLimit :: nat where "peerDASBodyPeekLimit = 4096"


section \<open>Templates are a fixed list\<close>

text \<open>The templates after the version prefix, and the whole list.\<close>

definition literal_suffixes :: "string list" where
  "literal_suffixes =
     [[], ''/events'', ''/other'', ''/node/other'', ''/config/other'',
      ''/beacon/other'', ''/beacon/genesis'', ''/beacon/headers'', ''/beacon/headers/{block_id}'',
      ''/beacon/states/other'', ''/beacon/states/{state_id}/validators/{validator_id}'',
      ''/beacon/rewards/attestations/{epoch}'', ''/beacon/rewards/blocks/{block_id}'',
      ''/beacon/rewards/sync_committee/{block_id}'', ''/beacon/rewards/other'',
      ''/beacon/execution_payload_envelopes'', ''/beacon/execution_payload_envelopes/{block_id}'',
      ''/beacon/execution_payload_envelopes/other'', ''/beacon/execution_payload_bids'', ''/beacon/pool/other'',
      ''/beacon/deposit_snapshot'', ''/beacon/light_client'', ''/beacon/light_client/finality_update'',
      ''/beacon/light_client/optimistic_update'', ''/beacon/light_client/updates'',
      ''/beacon/light_client/bootstrap/{block_root}'', ''/beacon/light_client/other'',
      ''/validator/duties/attester/{epoch}'', ''/validator/duties/proposer/{epoch}'',
      ''/validator/duties/sync/{epoch}'', ''/validator/duties/ptc/{epoch}'', ''/validator/liveness/{epoch}'',
      ''/validator/blocks/{slot}'', ''/validator/execution_payload_envelopes/{slot}/{beacon_block_root}'',
      ''/validator/other'', ''/debug/beacon/states/{state_id}'',
      ''/debug/beacon/data_column_sidecars/{block_id}'', ''/debug/other'']"

definition block_suffixes :: "string list" where
  "block_suffixes = [''/{block_id}'', ''/{block_id}/attestations'', ''/{block_id}/root'', ''/other'']"

definition route_suffixes :: "string list" where
  "route_suffixes = literal_suffixes @
     map (\<lambda>r. ''/node/'' @ r) node_routes @ map (\<lambda>r. ''/config/'' @ r) config_routes @
     concat (map (\<lambda>r. map (\<lambda>t. ''/beacon/'' @ r @ t) block_suffixes) block_routes) @
     map (\<lambda>r. ''/beacon/states/{state_id}/'' @ r) state_routes @
     map (\<lambda>r. ''/beacon/pool/'' @ r) pool_routes @ map (\<lambda>r. ''/validator/'' @ r) validator_routes"

definition api_templates :: "string list" where
  "api_templates = [''/'', ''/healthz'', ''/other''] @
     concat (map (\<lambda>d. map (\<lambda>r. ''/eth/v'' @ d # r) route_suffixes) ''0123456789'')"


lemma route_suffixes_mem:
  "r \<in> set literal_suffixes \<Longrightarrow> r \<in> set route_suffixes"
  "r \<in> set node_routes \<Longrightarrow> ''/node/'' @ r \<in> set route_suffixes"
  "r \<in> set config_routes \<Longrightarrow> ''/config/'' @ r \<in> set route_suffixes"
  "r \<in> set state_routes \<Longrightarrow> ''/beacon/states/{state_id}/'' @ r \<in> set route_suffixes"
  "r \<in> set pool_routes \<Longrightarrow> ''/beacon/pool/'' @ r \<in> set route_suffixes"
  "r \<in> set validator_routes \<Longrightarrow> ''/validator/'' @ r \<in> set route_suffixes"
  "r \<in> set block_routes \<Longrightarrow> t \<in> set block_suffixes \<Longrightarrow> ''/beacon/'' @ r @ t \<in> set route_suffixes"
  by (auto simp: route_suffixes_def)

lemma normalize_blocks_mem: "segs ! 3 \<in> set block_routes \<Longrightarrow> normalize_blocks segs \<in> set route_suffixes"
  using route_suffixes_mem(7) [of "segs ! 3"] by (auto simp: normalize_blocks_def block_suffixes_def)

lemma normalize_states_mem: "normalize_states segs \<in> set route_suffixes"
proof -
  have "''/beacon/states/other'' \<in> set route_suffixes"
    "''/beacon/states/{state_id}/validators/{validator_id}'' \<in> set route_suffixes"
    by (simp_all add: route_suffixes_mem(1) literal_suffixes_def)
  then show ?thesis using route_suffixes_mem(4) [of "segs ! 5"] by (auto simp: normalize_states_def)
qed

lemma normalize_rewards_mem: "normalize_rewards segs \<in> set route_suffixes"
  by (rule route_suffixes_mem(1)) (auto simp: normalize_rewards_def literal_suffixes_def)

lemma normalize_light_client_mem: "normalize_light_client segs \<in> set route_suffixes"
  by (rule route_suffixes_mem(1)) (auto simp: normalize_light_client_def literal_suffixes_def)

lemma normalize_debug_mem: "normalize_debug segs \<in> set route_suffixes"
  by (rule route_suffixes_mem(1)) (simp add: normalize_debug_def literal_suffixes_def)

lemma normalize_beacon_mem: "normalize_beacon segs \<in> set route_suffixes"
proof -
  have "set [''/beacon/other'', ''/beacon/genesis'', ''/beacon/headers'', ''/beacon/headers/{block_id}'',
      ''/beacon/execution_payload_envelopes'', ''/beacon/execution_payload_envelopes/{block_id}'',
      ''/beacon/execution_payload_envelopes/other'', ''/beacon/execution_payload_bids'', ''/beacon/pool/other'',
      ''/beacon/deposit_snapshot'', ''/other''] \<subseteq> set route_suffixes"
    by (simp add: route_suffixes_mem(1) literal_suffixes_def)
  then show ?thesis
    using route_suffixes_mem(5) [of "segs ! 4"] normalize_blocks_mem [of segs] normalize_states_mem [of segs]
      normalize_rewards_mem [of segs] normalize_light_client_mem [of segs]
    by (simp add: normalize_beacon_def)
qed

lemma normalize_validator_mem: "normalize_validator segs \<in> set route_suffixes"
proof (cases "length segs = 4 \<and> segs ! 3 \<in> set validator_routes")
  case True
  then show ?thesis using route_suffixes_mem(6) [of "segs ! 3"] by (simp add: normalize_validator_def)
next
  case False
  show ?thesis
    by (rule route_suffixes_mem(1)) (use False in \<open>auto simp: normalize_validator_def literal_suffixes_def\<close>)
qed

lemma normalize_category_mem: "normalize_category segs \<in> set route_suffixes"
proof -
  have "set [''/events'', ''/other'', ''/node/other'', ''/config/other''] \<subseteq> set route_suffixes"
    by (simp add: route_suffixes_mem(1) literal_suffixes_def)
  then show ?thesis
    using route_suffixes_mem(2,3) [of "segs ! 3"] normalize_beacon_mem [of segs] normalize_validator_mem [of segs]
      normalize_debug_mem [of segs]
    by (simp add: normalize_category_def)
qed

lemma is_digit_literal: "is_digit c \<Longrightarrow> c \<in> set ''0123456789''"
proof -
  assume "is_digit c"
  then have "(of_char c :: nat) \<in> set [48..<58]"
    unfolding is_digit_def set_upt atLeastLessThan_iff by simp
  then have "char_of (of_char c :: nat) \<in> set (map char_of [48..<58])" by (simp only: set_map imageI)
  moreover have "map char_of [48..<58] = ''0123456789''" by code_simp
  ultimately show ?thesis by simp
qed

lemma version_digitD: "version_digit s \<Longrightarrow> \<exists>d\<in>set ''0123456789''. s = [CHR ''v'', d]"
proof -
  assume v: "version_digit s"
  then obtain a b where s: "s = [a, b]"
    by (auto simp: version_digit_def length_Suc_conv numeral_2_eq_2)
  with v is_digit_literal [of b] show ?thesis by (auto simp: version_digit_def)
qed


section \<open>Clean paths\<close>

definition plain_elem :: "string \<Rightarrow> bool" where
  "plain_elem e \<longleftrightarrow> e \<noteq> [] \<and> e \<noteq> ''.'' \<and> e \<noteq> ''..''"

lemma clean_elems_rooted: "list_all plain_elem acc \<Longrightarrow> list_all plain_elem (clean_elems True acc es)"
proof (induction es arbitrary: acc)
  case (Cons e es)
  then show ?case by (cases acc) (auto simp: plain_elem_def)
qed simp

lemma clean_elems_sub: "set (clean_elems True acc es) \<subseteq> set acc \<union> set es"
proof (induction es arbitrary: acc)
  case (Cons e es)
  show ?case using Cons [of acc] Cons [of "e # acc"] Cons [of "tl acc"] Cons [of "[]"] Cons [of "''..'' # acc"]
    by (cases acc) auto
qed simp

lemma SplitByte_snoc: "SplitByte b (s @ [b]) = SplitByte b s @ [[]]"
  by (induction s) (auto split: list.splits)

lemma Join_Cons_Nil: "ws \<noteq> [] \<Longrightarrow> Join ([] # ws) sep = sep @ Join ws sep"
  by (cases ws) auto


lemma path_Clean_rooted:
  assumes "HasPrefix p ''/''"
  obtains es where "list_all plain_elem es" "\<forall>e\<in>set es. CHR ''/'' \<notin> set e"
    "path_Clean p = CHR ''/'' # Join es ''/''"
proof -
  let ?es = "clean_elems True [] (SplitByte (CHR ''/'') p)"
  have "\<forall>e\<in>set ?es. CHR ''/'' \<notin> set e"
    using clean_elems_sub [of "[]" "SplitByte (CHR ''/'') p"] SplitByte_pieces by fastforce
  moreover have "path_Clean p = CHR ''/'' # Join ?es ''/''"
    using assms by (simp add: path_Clean_def Let_def)
  moreover have "list_all plain_elem ?es" by (rule clean_elems_rooted) simp
  ultimately show ?thesis using that by blast
qed

lemma TrimSuffix_slash: "TrimSuffix p ''/'' = q \<Longrightarrow> p = q \<or> p = q @ ''/''"
  by (auto simp: TrimSuffix_def HasSuffix_iff)

lemma rooted_segments:
  assumes "list_all plain_elem es" "\<forall>e\<in>set es. CHR ''/'' \<notin> set e" "s \<in> set (SplitByte (CHR ''/'') (CHR ''/'' # Join es ''/''))"
  shows "s = [] \<or> plain_elem s"
proof (cases "es = []")
  case False
  then have "SplitByte (CHR ''/'') (Join es ''/'') = es" using assms(2) by (intro SplitByte_Join) auto
  with assms show ?thesis by (auto simp: list_all_iff)
qed (use assms(3) in simp)

lemma clean_path_segments:
  assumes "isCleanPath p" "HasPrefix p ''/''" "s \<in> set (SplitByte (CHR ''/'') p)"
  shows "s = [] \<or> plain_elem s"
proof (cases "p = ''/''")
  case True
  with assms(3) show ?thesis by simp
next
  case False
  obtain es where es: "list_all plain_elem es" "\<forall>e\<in>set es. CHR ''/'' \<notin> set e" "path_Clean p = CHR ''/'' # Join es ''/''"
    using path_Clean_rooted [OF assms(2)] .
  have "p \<noteq> []" using assms(2) by auto
  with False assms(1) es(3) have "TrimSuffix p ''/'' = CHR ''/'' # Join es ''/''"
    by (auto simp: isCleanPath_def split: if_splits)
  then have "p = CHR ''/'' # Join es ''/'' \<or> p = (CHR ''/'' # Join es ''/'') @ [CHR ''/'']"
    using TrimSuffix_slash by blast
  then have "s \<in> set (SplitByte (CHR ''/'') (CHR ''/'' # Join es ''/'')) \<or> s = []"
    using assms(3) SplitByte_snoc [of "CHR ''/''" "CHR ''/'' # Join es ''/''"] by (elim disjE) simp_all
  then show ?thesis using rooted_segments [OF es(1,2)] by blast
qed


section \<open>Finality and named identifiers\<close>

lemma parse_slot_named: "seg \<in> set namedSlotIDs \<Longrightarrow> parse_slot seg = None"
  by (auto simp: namedSlotIDs_def parse_slot_def is_digit_def of_char_def)

lemma parse_slot_itoa:
  "0 < n \<Longrightarrow> n < 2 ^ 64 \<Longrightarrow> length (itoa n) \<le> 12 \<Longrightarrow> parse_slot (itoa n) = Some (of_nat n)"
  using itoa_digits [of "itoa n ! 0" n] by (simp add: parse_slot_def ParseUint_itoa of_nat_ne_zero_u64)

lemma unat_times_u64:
  "unat a * unat b < 2 ^ 64 \<Longrightarrow> unat (a * b :: u64) = unat a * unat b"
  by (simp add: unat_word_ariths take_bit_nat_eq_self)

lemma mult_mono_u64:
  fixes a b s :: u64
  assumes "a \<le> b" and "unat b * unat s < 2 ^ 64"
  shows "a * s \<le> b * s"
proof -
  have le: "unat a * unat s \<le> unat b * unat s" using assms(1) by (simp add: word_le_nat_alt mult_le_mono1)
  then have "unat (a * s) = unat a * unat s" by (intro unat_times_u64) (use le assms(2) in linarith)
  with le assms(2) show ?thesis by (simp add: word_le_nat_alt unat_times_u64)
qed

lemma pathNumericSlot_not_named: "pathHasNamedSlotID path \<Longrightarrow> pathNumericSlot path = None"
  using parse_slot_named [of "path_segments path ! 4"]
  by (auto simp: pathHasNamedSlotID_def pathNumericSlot_def Let_def slot_routes_def split: if_splits)

lemma pathNumericEpoch_not_named: "pathHasNamedSlotID path \<Longrightarrow> pathNumericEpoch path = None"
  by (auto simp: pathHasNamedSlotID_def pathNumericEpoch_def Let_def slot_routes_def split: if_splits)


lemma finalized_mono:
  fixes e e' spe :: u64
  assumes fin: "isFinalizedPath path e spe" and le: "e \<le> e'" and nowrap: "unat e' * unat spe < 2 ^ 64"
  shows "isFinalizedPath path e' spe"
proof -
  have e0: "e \<noteq> 0" using fin by (auto simp: isFinalizedPath_def)
  then have e0': "e' \<noteq> 0" using le by (metis antisym word_zero_le)
  have slots: "e * spe \<le> e' * spe" using mult_mono_u64 [OF le nowrap] .
  have two: "2 \<le> e'" "e - 2 \<le> e' - 2" "(e - 1) * spe \<le> (e' - 1) * spe" if "2 \<le> e"
  proof -
    show "2 \<le> e'" using that le by simp
    show "e - 2 \<le> e' - 2" using that le by (simp add: word_le_nat_alt unat_sub)
    have "1 \<le> e" "1 \<le> e'" using that le by (simp_all add: word_le_nat_alt)
    then have u: "unat (e - 1) = unat e - 1" "unat (e' - 1) = unat e' - 1" by (simp_all add: unat_sub)
    have "unat (e' - 1) * unat spe \<le> unat e' * unat spe" by (simp add: u)
    then have "unat (e' - 1) * unat spe < 2 ^ 64" using nowrap by linarith
    moreover have "e - 1 \<le> e' - 1" using le by (simp add: u word_le_nat_alt)
    ultimately show "(e - 1) * spe \<le> (e' - 1) * spe" by (intro mult_mono_u64)
  qed
  show ?thesis using fin e0 e0' slots two
    by (auto simp: isFinalizedPath_def Let_def split: option.splits if_splits)
qed


section \<open>The archive test\<close>

text \<open>The intended reading over natural numbers: the retention window of a kind of target, in slots.\<close>

definition retention_slots :: "HistoricalKind \<Rightarrow> nat \<Rightarrow> nat" where
  "retention_slots k spe =
     (if k = HistoricalKindBlobSidecars then 4096 * spe
      else if k = HistoricalKindStateByID then 8192 else 33024 * spe)"

definition slot_kinds :: "HistoricalKind set" where
  "slot_kinds = {HistoricalKindBlockByID, HistoricalKindPayloadEnvelope, HistoricalKindBlobSidecars, HistoricalKindStateByID}"

lemma olderThan_unat: "olderThan s h r \<longleftrightarrow> unat s + unat r < unat h"
  by (auto simp: olderThan_def word_le_nat_alt word_less_nat_alt unat_sub)

lemma HistoricalKind_epoch:
  "k \<notin> slot_kinds \<Longrightarrow> k \<noteq> HistoricalKindNone \<Longrightarrow>
   k \<in> {HistoricalKindAttesterDuties, HistoricalKindProposerDuties, HistoricalKindSyncDuties,
     HistoricalKindRewardsEpoch, HistoricalKindLiveness, HistoricalKindPTCDuties}"
  by (cases k) (simp_all add: slot_kinds_def)

lemma RequiresArchive_slot:
  assumes "ht_Named t = []" "ht_Root t = []" "ht_Slot t = Some s" "ht_Kind t \<in> slot_kinds"
    and "0 < spe" "33024 * unat spe < 2 ^ 64"
  shows "RequiresArchive t h spe \<longleftrightarrow> unat s + retention_slots (ht_Kind t) (unat spe) < unat h"
proof -
  have r: "unat (blocksRetentionEpochs * spe) = 33024 * unat spe" "unat (blobSidecarsRetentionEpochs * spe) = 4096 * unat spe"
    "unat statesRetentionSlots = 8192"
    using assms(6) by (simp_all add: unat_times_u64 blocksRetentionEpochs_def blobSidecarsRetentionEpochs_def statesRetentionSlots_def)
  have "spe \<noteq> 0" using assms(5) by auto
  with assms(1-4) r show ?thesis
    by (auto simp: RequiresArchive_def Let_def older_slot_def olderThan_unat retention_slots_def slot_kinds_def)
qed



section \<open>Properties\<close>

text \<open>Score trackers and metric series stay bounded: every request path, whatever a client sends, is
  reduced to one of a fixed list of 983 route templates.\<close>

theorem templates_bounded:
  "normalizeAPIPath path \<in> set api_templates \<and> length api_templates = 983"
proof
  show "length api_templates = 983" by code_simp
  show "normalizeAPIPath path \<in> set api_templates"
  proof -
    let ?p = "or_empty (TrimRightByte (CHR ''/'') (TrimSpace path)) ''/''"
    have templ: "''/'' @ ''eth'' @ ''/'' @ v @ r \<in> set api_templates"
      if "version_digit v" "r \<in> set route_suffixes" for v r
      using version_digitD [OF that(1)] that(2) by (auto simp: api_templates_def)
    have nil: "[] \<in> set route_suffixes" by (rule route_suffixes_mem(1)) (simp add: literal_suffixes_def)
    have lits: "''/'' \<in> set api_templates" "''/healthz'' \<in> set api_templates" "''/other'' \<in> set api_templates"
      by (simp_all add: api_templates_def)
    show ?thesis
      using lits templ [OF _ nil] templ [OF _ normalize_category_mem] by (auto simp: normalizeAPIPath_def Let_def)
  qed
qed

text \<open>C30.  A request path that passes the clean-path guard and starts with a slash has no dot and no
  dot-dot segment, so no upstream can resolve it to another path, and no path parameter that a server could
  strip to make one.\<close>

theorem clean_path_safe:
  assumes "isCleanPath p" and "HasPrefix p ''/''"
  shows "''.'' \<notin> set (SplitByte (CHR ''/'') p) \<and> ''..'' \<notin> set (SplitByte (CHR ''/'') p) \<and> \<not> Contains p '';''"
  using clean_path_segments [OF assms, of "''.''"] clean_path_segments [OF assms, of "''..''"] assms(1)
  by (auto simp: plain_elem_def isCleanPath_def split: if_splits)

lemma clean_path_safe_witness: "''..'' \<notin> set (SplitByte (CHR ''/'') ''/eth/v1/node/health/'')"
proof -
  have "isCleanPath ''/eth/v1/node/health/''" "HasPrefix ''/eth/v1/node/health/'' ''/''" by code_simp+
  then show ?thesis by (rule clean_path_safe [THEN conjunct2, THEN conjunct1])
qed

text \<open>C31.  Finality is stable and sound: a path that one finalized epoch makes immutable stays immutable
  under every later epoch (while epochs times slots per epoch fit 64 bits), and a path with a chain-relative
  name (head, finalized, justified) is never immutable.\<close>

theorem finality_stable:
  fixes e e' spe :: u64
  assumes "e \<le> e'" and "unat e' * unat spe < 2 ^ 64"
  shows "(isFinalizedPath path e spe \<longrightarrow> isFinalizedPath path e' spe) \<and>
    (pathHasNamedSlotID path \<longrightarrow> \<not> isFinalizedPath path e spe)"
  using finalized_mono [OF _ assms] pathNumericSlot_not_named [of path] pathNumericEpoch_not_named [of path]
  by (auto simp: isFinalizedPath_def)

lemma finality_stable_witness:
  "isFinalizedPath ''/eth/v2/beacon/blocks/64'' 3 32 \<and> \<not> isFinalizedPath ''/eth/v2/beacon/blocks/head'' 2 32"
proof -
  have "isFinalizedPath ''/eth/v2/beacon/blocks/64'' 2 32" "pathHasNamedSlotID ''/eth/v2/beacon/blocks/head''" by code_simp+
  then show ?thesis using finality_stable [of 2 3 32 "''/eth/v2/beacon/blocks/64''"]
      finality_stable [of 2 3 32 "''/eth/v2/beacon/blocks/head''"] by simp
qed

text \<open>The archive test is exact: a numeric slot requires an archive exactly when it lies more than the
  retention window of its endpoint below the head, and a numeric epoch exactly when it ended at least two
  epochs before the head's, except for the largest 64-bit epoch, where the sum wraps and the answer is always
  yes once the head has left epoch 0.\<close>

theorem requires_archive_exact:
  fixes spe :: u64
  assumes "ht_Named t = []" "ht_Root t = []" "0 < spe" "33024 * unat spe < 2 ^ 64"
  shows "(ht_Kind t \<in> slot_kinds \<longrightarrow> ht_Slot t = Some s \<longrightarrow>
      (RequiresArchive t h spe \<longleftrightarrow> unat s + retention_slots (ht_Kind t) (unat spe) < unat h)) \<and>
    (ht_Kind t \<notin> slot_kinds \<union> {HistoricalKindNone} \<longrightarrow> ht_Epoch t = Some e \<longrightarrow>
      (RequiresArchive t h spe \<longleftrightarrow> (if e = -1 then unat spe \<le> unat h else unat e + 1 < unat h div unat spe)))"
proof (intro conjI impI)
  assume "ht_Kind t \<in> slot_kinds" "ht_Slot t = Some s"
  then show "RequiresArchive t h spe \<longleftrightarrow> unat s + retention_slots (ht_Kind t) (unat spe) < unat h"
    using RequiresArchive_slot assms by blast
next
  assume k: "ht_Kind t \<notin> slot_kinds \<union> {HistoricalKindNone}" and ep: "ht_Epoch t = Some e"
  have sp: "spe \<noteq> 0" "0 < unat spe" using assms(3) by (auto simp: word_less_nat_alt)
  have "RequiresArchive t h spe \<longleftrightarrow> h \<noteq> 0 \<and> e + 1 < h div spe"
    using HistoricalKind_epoch [of "ht_Kind t"] k ep assms(1,2) sp by (auto simp: RequiresArchive_def Let_def)
  also have "\<dots> \<longleftrightarrow> unat (e + 1) < unat h div unat spe"
    by (auto simp: word_less_nat_alt unat_div unat_eq_0)
  also have "\<dots> \<longleftrightarrow> (if e = -1 then unat spe \<le> unat h else unat e + 1 < unat h div unat spe)"
  proof (cases "e = -1")
    case True
    then show ?thesis using sp by (simp add: div_greater_zero_iff)
  next
    case False
    then have "1 + e \<noteq> 0" by (metis add.commute add_eq_0_iff minus_minus)
    then have "unat (e + 1) = unat e + 1" using unatSuc [of e] by (simp add: add.commute)
    with False show ?thesis by simp
  qed
  finally show "RequiresArchive t h spe \<longleftrightarrow> (if e = -1 then unat spe \<le> unat h else unat e + 1 < unat h div unat spe)" .
qed

lemma requires_archive_exact_witness:
  "RequiresArchive (classifyHistoricalTarget ''/eth/v1/beacon/blob_sidecars/7'') 131080 32 \<and>
   RequiresArchive (noTarget\<lparr>ht_Kind := HistoricalKindSyncDuties, ht_Epoch := Some (-1)\<rparr>) 32 32"
proof -
  have "classifyHistoricalTarget ''/eth/v1/beacon/blob_sidecars/7'' =
      \<lparr>ht_Kind = HistoricalKindBlobSidecars, ht_Named = [], ht_Slot = Some 7, ht_Root = [], ht_Epoch = None\<rparr>"
    by code_simp
  then show ?thesis
    using requires_archive_exact [of "classifyHistoricalTarget ''/eth/v1/beacon/blob_sidecars/7''" 32 7 131080 0]
      requires_archive_exact [of "noTarget\<lparr>ht_Kind := HistoricalKindSyncDuties, ht_Epoch := Some (-1)\<rparr>" 32 0 32 "-1"]
    by (simp add: slot_kinds_def retention_slots_def noTarget_def)
qed

end
