(* ===== verification/Config_Defaults.thy ===== *)
theory Config_Defaults
  imports Config_Types
begin

text \<open>
  Defaulting and merging of the configuration (config/config.go): the defaults every section gets, the
  expansion of environment variables in secrets, and the merge of global, network and upstream
  settings.  A function that changes a struct through its pointer returns the new struct.  The text
  expansion \<open>os.ExpandEnv\<close>, which depends on the environment of the process, is the parameter \<open>expand\<close>.

  The lemmas show that defaulting is idempotent and which level a merged setting comes from.
\<close>

section \<open>Failsafe defaults and merging\<close>

definition mergeTimeoutConfig :: "TimeoutConfig option \<Rightarrow> TimeoutConfig option \<Rightarrow> TimeoutConfig option" where
  "mergeTimeoutConfig base override =
     (case override of None \<Rightarrow> base
      | Some o' \<Rightarrow>
          let out = (case base of None \<Rightarrow> \<lparr>to_Duration = 0\<rparr> | Some b \<Rightarrow> b)
          in Some (out\<lparr>to_Duration := or_zero (to_Duration o') (to_Duration out)\<rparr>))"

definition mergeRetryConfig :: "RetryConfig option \<Rightarrow> RetryConfig option \<Rightarrow> RetryConfig option" where
  "mergeRetryConfig base override =
     (case override of None \<Rightarrow> base
      | Some o' \<Rightarrow>
          let out = (case base of
                 None \<Rightarrow> \<lparr>rt_MaxAttempts = 0, rt_Delay = 0, rt_Backoff = 0, rt_Jitter = 0, rt_MaxDelay = 0\<rparr>
               | Some b \<Rightarrow> b)
          in Some (out\<lparr>rt_MaxAttempts := or_zero (rt_MaxAttempts o') (rt_MaxAttempts out),
                       rt_Delay := or_zero (rt_Delay o') (rt_Delay out),
                       rt_Backoff := or_zero (rt_Backoff o') (rt_Backoff out),
                       rt_Jitter := or_zero (rt_Jitter o') (rt_Jitter out),
                       rt_MaxDelay := or_zero (rt_MaxDelay o') (rt_MaxDelay out)\<rparr>))"

definition mergeHedgeConfig :: "HedgeConfig option \<Rightarrow> HedgeConfig option \<Rightarrow> HedgeConfig option" where
  "mergeHedgeConfig base override =
     (case override of None \<Rightarrow> base
      | Some o' \<Rightarrow>
          let out = (case base of None \<Rightarrow> \<lparr>hd_Delay = 0, hd_MaxCount = 0\<rparr> | Some b \<Rightarrow> b)
          in Some (out\<lparr>hd_Delay := or_zero (hd_Delay o') (hd_Delay out),
                       hd_MaxCount := or_zero (hd_MaxCount o') (hd_MaxCount out)\<rparr>))"

definition defaultCircuitBreaker :: CircuitBreakerConfig where
  "defaultCircuitBreaker = \<lparr>FailureThreshold = 5, SuccessThreshold = 2, HalfOpenAfter = 30 * second\<rparr>"

definition mergeCircuitBreakerConfig ::
    "CircuitBreakerConfig option \<Rightarrow> CircuitBreakerConfig option \<Rightarrow> CircuitBreakerConfig option" where
  "mergeCircuitBreakerConfig base override =
     (case override of None \<Rightarrow> base
      | Some o' \<Rightarrow>
          let out = (case base of
                 None \<Rightarrow> \<lparr>FailureThreshold = 0, SuccessThreshold = 0, HalfOpenAfter = 0\<rparr>
               | Some b \<Rightarrow> b)
          in Some (out\<lparr>FailureThreshold := or_zero (FailureThreshold o') (FailureThreshold out),
                       SuccessThreshold := or_zero (SuccessThreshold o') (SuccessThreshold out),
                       HalfOpenAfter := or_zero (HalfOpenAfter o') (HalfOpenAfter out)\<rparr>))"

text \<open>The merge of a non-nil base is never nil, so the dereference is safe.\<close>

definition UpstreamCircuitBreaker ::
    "CircuitBreakerConfig option \<Rightarrow> CircuitBreakerConfig option \<Rightarrow> CircuitBreakerConfig" where
  "UpstreamCircuitBreaker base override =
     (let base' = (case base of None \<Rightarrow> defaultCircuitBreaker | Some b \<Rightarrow> b)
      in case mergeCircuitBreakerConfig (Some base') override of Some c \<Rightarrow> c | None \<Rightarrow> base')"

definition default_retry :: "RetryConfig \<Rightarrow> RetryConfig" where
  "default_retry r = r\<lparr>rt_MaxAttempts := or_zero (rt_MaxAttempts r) 3,
     rt_Delay := or_zero (rt_Delay r) (100 * millisecond),
     rt_Backoff := or_zero (rt_Backoff r) 2,
     rt_MaxDelay := or_zero (rt_MaxDelay r) (5 * second)\<rparr>"

definition default_cb :: "CircuitBreakerConfig \<Rightarrow> CircuitBreakerConfig" where
  "default_cb c = c\<lparr>FailureThreshold := or_zero (FailureThreshold c) (FailureThreshold defaultCircuitBreaker),
     SuccessThreshold := or_zero (SuccessThreshold c) (SuccessThreshold defaultCircuitBreaker),
     HalfOpenAfter := or_zero (HalfOpenAfter c) (HalfOpenAfter defaultCircuitBreaker)\<rparr>"

definition applyFailsafeDefaults :: "FailsafeConfig \<Rightarrow> FailsafeConfig" where
  "applyFailsafeDefaults fs =
     fs\<lparr>fs_Timeout := Some (case fs_Timeout fs of None \<Rightarrow> \<lparr>to_Duration = 30 * second\<rparr>
                             | Some t \<Rightarrow> t\<lparr>to_Duration := or_zero (to_Duration t) (30 * second)\<rparr>),
        fs_Retry := map_option default_retry (fs_Retry fs),
        fs_CircuitBreaker := map_option default_cb (fs_CircuitBreaker fs)\<rparr>"

definition EffectiveFailsafe :: "Config \<Rightarrow> NetworkConfig \<Rightarrow> FailsafeConfig" where
  "EffectiveFailsafe c net =
     (let result = c_Failsafe c;
          result = (case nc_Failsafe net of
             None \<Rightarrow> result
           | Some n \<Rightarrow>
               result\<lparr>fs_Timeout := (if fs_Timeout n \<noteq> None then mergeTimeoutConfig (fs_Timeout result) (fs_Timeout n) else fs_Timeout result),
                      fs_Retry := (if fs_Retry n \<noteq> None then mergeRetryConfig (fs_Retry result) (fs_Retry n) else fs_Retry result),
                      fs_Hedge := (if fs_Hedge n \<noteq> None then mergeHedgeConfig (fs_Hedge result) (fs_Hedge n) else fs_Hedge result),
                      fs_CircuitBreaker := (if fs_CircuitBreaker n \<noteq> None
                          then mergeCircuitBreakerConfig (fs_CircuitBreaker result) (fs_CircuitBreaker n)
                          else fs_CircuitBreaker result),
                      fs_Consensus := (if fs_Consensus n \<noteq> None then fs_Consensus n else fs_Consensus result)\<rparr>)
      in applyFailsafeDefaults result)"

definition EffectiveHealth :: "Config \<Rightarrow> NetworkConfig \<Rightarrow> HealthConfig" where
  "EffectiveHealth c net =
     (case nc_Health net of
        None \<Rightarrow> c_Health c
      | Some h \<Rightarrow>
          let result = c_Health c
          in result\<lparr>hc_CheckInterval := or_zero (hc_CheckInterval h) (hc_CheckInterval result),
                    hc_FinalityInterval := or_zero (hc_FinalityInterval h) (hc_FinalityInterval result),
                    hc_MaxSyncDistance := or_zero (hc_MaxSyncDistance h) (hc_MaxSyncDistance result),
                    hc_FollowDistance := or_zero (hc_FollowDistance h) (hc_FollowDistance result),
                    hc_MaxHeadDistance := or_zero (hc_MaxHeadDistance h) (hc_MaxHeadDistance result)\<rparr>)"

definition EffectiveRateLimiting :: "Config \<Rightarrow> NetworkConfig \<Rightarrow> RateLimitingConfig" where
  "EffectiveRateLimiting c net = (case nc_RateLimiting net of None \<Rightarrow> c_RateLimiting c | Some r \<Rightarrow> r)"


section \<open>Defaults of the other sections\<close>

definition applyCORSDefaults :: "CORSConfig \<Rightarrow> CORSConfig" where
  "applyCORSDefaults cors =
     cors\<lparr>cors_AllowedOrigins := (if cors_AllowedOrigins cors = None then Some [''*''] else cors_AllowedOrigins cors),
          cors_AllowedMethods := (if cors_AllowedMethods cors = None
             then Some [''GET'', ''HEAD'', ''POST'', ''OPTIONS''] else cors_AllowedMethods cors),
          cors_AllowedHeaders := (if cors_AllowedHeaders cors = None
             then Some [''content-type'', ''authorization'', ''x-ebeacon-secret-token'', ''x-api-key'']
             else cors_AllowedHeaders cors),
          cors_AllowCredentials := (if cors_AllowCredentials cors = None then Some False else cors_AllowCredentials cors),
          cors_MaxAge := or_zero (cors_MaxAge cors) 3600\<rparr>"

definition applyDebugLoggingDefaults :: "DebugLoggingConfig \<Rightarrow> DebugLoggingConfig" where
  "applyDebugLoggingDefaults dl =
     dl\<lparr>dl_MaxSizeMB := or_zero (dl_MaxSizeMB dl) 100,
        dl_MaxBackups := or_zero (dl_MaxBackups dl) 10,
        dl_MaxBodyBytes := or_zero (dl_MaxBodyBytes dl) 65536\<rparr>"

definition knownGenesisTimes :: "(string \<times> int) list" where
  "knownGenesisTimes = [(''mainnet'', 1606824023), (''sepolia'', 1655733600), (''hoodi'', 1742213400)]"

definition knownSlotsPerEpoch :: "(string \<times> int) list" where
  "knownSlotsPerEpoch = [(''gnosis'', 16), (''chiado'', 16)]"

definition default_routing :: "RoutingConfig \<Rightarrow> RoutingConfig" where
  "default_routing r =
     r\<lparr>ro_LoadBalancing := or_empty (ro_LoadBalancing r) ''round-robin'',
       ro_StickyTimeout := or_zero (ro_StickyTimeout r) (10 * minute),
       ro_RebalanceInterval := or_zero (ro_RebalanceInterval r) (30 * second),
       ro_RebalanceThreshold := or_zero (ro_RebalanceThreshold r) (3/2),
       ro_RebalanceMaxSweep := or_zero (ro_RebalanceMaxSweep r) 10,
       ro_ScoreWindowSize := or_zero (ro_ScoreWindowSize r) 100\<rparr>"

text \<open>The key prefix is defaulted after the driver.\<close>

definition default_cache :: "string \<Rightarrow> CacheConfig \<Rightarrow> CacheConfig" where
  "default_cache netID ca =
     (let ca1 = ca\<lparr>ca_MaxSize := or_zero (ca_MaxSize ca) 2048, ca_Driver := or_empty (ca_Driver ca) ''memory''\<rparr>
      in if ca_Driver ca1 = ''redis''
         then ca1\<lparr>ca_Redis := map_option (\<lambda>r. r\<lparr>rc_KeyPrefix := or_empty (rc_KeyPrefix r) (''ebeacon:'' @ netID @ '':'')\<rparr>) (ca_Redis ca1)\<rparr>
         else ca1)"

definition applyNetworkDefaults :: "NetworkConfig \<Rightarrow> NetworkConfig" where
  "applyNetworkDefaults n =
     n\<lparr>nc_GenesisTime := (if nc_GenesisTime n = 0 then
           (case map_of knownGenesisTimes (ToLower (nc_ID n)) of Some t \<Rightarrow> t | None \<Rightarrow> nc_GenesisTime n)
           else nc_GenesisTime n),
       nc_SecondsPerSlot := or_zero (nc_SecondsPerSlot n) DefaultSecondsPerSlot,
       nc_SlotsPerEpoch := (if nc_SlotsPerEpoch n = 0 then
           (case map_of knownSlotsPerEpoch (ToLower (nc_ID n)) of Some s \<Rightarrow> s | None \<Rightarrow> uint DefaultSlotsPerEpoch)
           else nc_SlotsPerEpoch n),
       nc_Routing := default_routing (nc_Routing n),
       nc_Cache := default_cache (nc_ID n) (nc_Cache n),
       nc_Upstreams := map (\<lambda>u. u\<lparr>uc_Weight := or_zero (uc_Weight u) 1\<rparr>) (nc_Upstreams n)\<rparr>"

definition default_server :: "ServerConfig \<Rightarrow> ServerConfig" where
  "default_server s =
     s\<lparr>srv_Host := or_empty (srv_Host s) ''0.0.0.0'', srv_Port := or_zero (srv_Port s) 5555,
       srv_MaxTimeout := or_zero (srv_MaxTimeout s) (60 * second),
       srv_MaxResponseBodyBytes := or_zero (srv_MaxResponseBodyBytes s) (2 ^ 31)\<rparr>"

definition default_health :: "HealthConfig \<Rightarrow> HealthConfig" where
  "default_health h =
     h\<lparr>hc_CheckInterval := or_zero (hc_CheckInterval h) (15 * second),
       hc_FinalityInterval := or_zero (hc_FinalityInterval h) (60 * second),
       hc_MaxSyncDistance := or_zero (hc_MaxSyncDistance h) 10,
       hc_FollowDistance := or_zero (hc_FollowDistance h) 32,
       hc_MaxHeadDistance := or_zero (hc_MaxHeadDistance h) 2\<rparr>"

definition applyDefaults :: "Config \<Rightarrow> Config" where
  "applyDefaults c =
     c\<lparr>c_LogLevel := or_empty (c_LogLevel c) ''info'',
       c_Server := default_server (c_Server c),
       c_DebugLogging := applyDebugLoggingDefaults (c_DebugLogging c),
       c_Health := default_health (c_Health c),
       c_Metrics := (c_Metrics c)\<lparr>me_Path := or_empty (me_Path (c_Metrics c)) ''/metrics''\<rparr>,
       c_State := (c_State c)\<lparr>st_Driver := or_empty (st_Driver (c_State c)) ''local''\<rparr>,
       c_UI := (c_UI c)\<lparr>ui_BasePath := or_empty (ui_BasePath (c_UI c)) ''/webui''\<rparr>,
       c_CORS := map_option applyCORSDefaults (c_CORS c),
       c_Failsafe := applyFailsafeDefaults (c_Failsafe c),
       c_Networks := map applyNetworkDefaults (c_Networks c)\<rparr>"


section \<open>Expansion of secrets\<close>

text \<open>An empty field is left alone.\<close>

definition expand_nonempty :: "(string \<Rightarrow> string) \<Rightarrow> string \<Rightarrow> string" where
  "expand_nonempty expand s = (if s \<noteq> [] then expand s else s)"

definition expandEnv :: "(string \<Rightarrow> string) \<Rightarrow> RedisConfig \<Rightarrow> RedisConfig" where
  "expandEnv expand r = r\<lparr>rd_Username := expand_nonempty expand (rd_Username r),
     rd_Password := expand_nonempty expand (rd_Password r)\<rparr>"

definition expandAuthConfig :: "(string \<Rightarrow> string) \<Rightarrow> AuthConfig \<Rightarrow> AuthConfig" where
  "expandAuthConfig expand a =
     a\<lparr>auth_Secret := expand_nonempty expand (auth_Secret a),
       auth_Keys := map (\<lambda>k. k\<lparr>key_Secret := expand_nonempty expand (key_Secret k)\<rparr>) (auth_Keys a)\<rparr>"

definition expand_upstream :: "(string \<Rightarrow> string) \<Rightarrow> UpstreamConfig \<Rightarrow> UpstreamConfig" where
  "expand_upstream expand u =
     u\<lparr>uc_URL := expand_nonempty expand (uc_URL u),
       uc_Headers := map (\<lambda>(k, v). (k, expand_nonempty expand v)) (uc_Headers u)\<rparr>"

definition expand_network :: "(string \<Rightarrow> string) \<Rightarrow> NetworkConfig \<Rightarrow> NetworkConfig" where
  "expand_network expand n =
     n\<lparr>nc_Cache := (nc_Cache n)\<lparr>ca_Redis := map_option (\<lambda>r. r\<lparr>rc_Redis := expandEnv expand (rc_Redis r)\<rparr>) (ca_Redis (nc_Cache n))\<rparr>,
       nc_Upstreams := map (expand_upstream expand) (nc_Upstreams n)\<rparr>"

definition expandSecrets :: "(string \<Rightarrow> string) \<Rightarrow> Config \<Rightarrow> Config" where
  "expandSecrets expand c =
     c\<lparr>c_Auth := map_option (expandAuthConfig expand) (c_Auth c),
       c_UI := (c_UI c)\<lparr>ui_Auth := map_option (expandAuthConfig expand) (ui_Auth (c_UI c))\<rparr>,
       c_DebugLogging := (c_DebugLogging c)\<lparr>dl_Path := expand_nonempty expand (dl_Path (c_DebugLogging c))\<rparr>,
       c_State := (c_State c)\<lparr>st_Redis := map_option (expandEnv expand) (st_Redis (c_State c))\<rparr>,
       c_Networks := map (expand_network expand) (c_Networks c)\<rparr>"



section \<open>Where a setting comes from\<close>

text \<open>One number of one optional section, 0 when the section is absent.\<close>

definition setting :: "(FailsafeConfig \<Rightarrow> 's option) \<Rightarrow> ('s \<Rightarrow> 'n::zero) \<Rightarrow> FailsafeConfig \<Rightarrow> 'n" where
  "setting sec get f = (case sec f of None \<Rightarrow> 0 | Some x \<Rightarrow> get x)"

definition net_setting :: "(FailsafeConfig \<Rightarrow> 's option) \<Rightarrow> ('s \<Rightarrow> 'n::zero) \<Rightarrow> NetworkConfig \<Rightarrow> 'n" where
  "net_setting sec get n = (case nc_Failsafe n of None \<Rightarrow> 0 | Some f \<Rightarrow> setting sec get f)"

definition fs_has :: "(FailsafeConfig \<Rightarrow> 's option) \<Rightarrow> FailsafeConfig \<Rightarrow> bool" where
  "fs_has sec f \<longleftrightarrow> sec f \<noteq> None"

definition net_has :: "(FailsafeConfig \<Rightarrow> 's option) \<Rightarrow> NetworkConfig \<Rightarrow> bool" where
  "net_has sec n \<longleftrightarrow> (case nc_Failsafe n of None \<Rightarrow> False | Some f \<Rightarrow> sec f \<noteq> None)"

lemmas merge_defs = mergeTimeoutConfig_def mergeRetryConfig_def mergeHedgeConfig_def mergeCircuitBreakerConfig_def

lemmas setting_defs = setting_def net_setting_def net_has_def

lemma or_zero_zero [simp]: "or_zero 0 d = d"
  by (simp add: or_zero_def)

lemma or_zero_ne_zero [simp]: "or_zero v d = 0 \<longleftrightarrow> v = 0 \<and> d = 0"
  by (auto simp: or_zero_def)

lemma or_zero_assoc: "or_zero (or_zero a b) c = or_zero a (or_zero b c)"
  by (simp add: or_zero_def)

lemma effective_timeout:
  "fs_Timeout (EffectiveFailsafe c n) \<noteq> None \<and>
   setting fs_Timeout to_Duration (EffectiveFailsafe c n) =
     or_zero (net_setting fs_Timeout to_Duration n) (or_zero (setting fs_Timeout to_Duration (c_Failsafe c)) (30 * second))"
  by (auto simp: EffectiveFailsafe_def applyFailsafeDefaults_def merge_defs setting_defs Let_def or_zero_assoc split: option.splits)

lemma effective_retry_present:
  "fs_Retry (EffectiveFailsafe c n) \<noteq> None \<longleftrightarrow> net_has fs_Retry n \<or> fs_Retry (c_Failsafe c) \<noteq> None"
  by (auto simp: EffectiveFailsafe_def applyFailsafeDefaults_def merge_defs setting_defs Let_def split: option.splits)

lemma effective_retry_attempts:
  "fs_Retry (EffectiveFailsafe c n) \<noteq> None \<Longrightarrow>
   MaxAttempts (EffectiveFailsafe c n) =
     or_zero (net_setting fs_Retry rt_MaxAttempts n) (or_zero (setting fs_Retry rt_MaxAttempts (c_Failsafe c)) 3)"
  by (auto simp: EffectiveFailsafe_def applyFailsafeDefaults_def merge_defs setting_defs MaxAttempts_def default_retry_def
      Let_def or_zero_assoc split: option.splits)

lemma effective_cb_present:
  "fs_CircuitBreaker (EffectiveFailsafe c n) \<noteq> None \<longleftrightarrow> net_has fs_CircuitBreaker n \<or> fs_CircuitBreaker (c_Failsafe c) \<noteq> None"
  by (auto simp: EffectiveFailsafe_def applyFailsafeDefaults_def merge_defs setting_defs Let_def split: option.splits)

lemma effective_cb_thresholds:
  assumes "fs_CircuitBreaker (EffectiveFailsafe c n) = Some cb"
  shows "FailureThreshold cb = or_zero (net_setting fs_CircuitBreaker FailureThreshold n) (or_zero (setting fs_CircuitBreaker FailureThreshold (c_Failsafe c)) 5)"
    and "SuccessThreshold cb = or_zero (net_setting fs_CircuitBreaker SuccessThreshold n) (or_zero (setting fs_CircuitBreaker SuccessThreshold (c_Failsafe c)) 2)"
    and "HalfOpenAfter cb = or_zero (net_setting fs_CircuitBreaker HalfOpenAfter n) (or_zero (setting fs_CircuitBreaker HalfOpenAfter (c_Failsafe c)) (30 * second))"
  using assms
  by (auto simp: EffectiveFailsafe_def applyFailsafeDefaults_def merge_defs setting_defs default_cb_def defaultCircuitBreaker_def
      Let_def or_zero_assoc split: option.splits if_splits)

lemma or_zero_self [simp]: "or_zero d d = d"
  by (simp add: or_zero_def)

lemma or_empty_Cons [simp]: "or_empty (x # xs) d = x # xs"
  by (simp add: or_empty_def)

lemma default_retry_idem [simp]: "default_retry (default_retry r) = default_retry r"
  by (simp add: default_retry_def)

lemma default_cb_idem [simp]: "default_cb (default_cb c) = default_cb c"
  by (simp add: default_cb_def)

lemma default_routing_idem [simp]: "default_routing (default_routing r) = default_routing r"
  by (simp add: default_routing_def)

lemma applyFailsafeDefaults_idem [simp]: "applyFailsafeDefaults (applyFailsafeDefaults f) = applyFailsafeDefaults f"
  by (simp add: applyFailsafeDefaults_def option.map_comp comp_def split: option.splits)

lemma applyCORSDefaults_idem [simp]: "applyCORSDefaults (applyCORSDefaults c) = applyCORSDefaults c"
  by (simp add: applyCORSDefaults_def)

lemma default_cache_idem [simp]: "default_cache i (default_cache i c) = default_cache i c"
  by (simp add: default_cache_def Let_def option.map_comp comp_def)

lemma applyNetworkDefaults_idem [simp]: "applyNetworkDefaults (applyNetworkDefaults n) = applyNetworkDefaults n"
  by (auto simp: applyNetworkDefaults_def default_routing_def DefaultSlotsPerEpoch_def comp_def split: option.splits)


lemma default_server_idem [simp]: "default_server (default_server s) = default_server s"
  by (simp add: default_server_def)

lemma default_health_idem [simp]: "default_health (default_health h) = default_health h"
  by (simp add: default_health_def)

lemma applyDebugLoggingDefaults_idem [simp]: "applyDebugLoggingDefaults (applyDebugLoggingDefaults d) = applyDebugLoggingDefaults d"
  by (simp add: applyDebugLoggingDefaults_def)


section \<open>Properties\<close>

text \<open>Defaulting is idempotent: a configuration that already went through \<open>applyDefaults\<close> is
  left as it is, so defaults never pile up or override a value set before.\<close>

theorem applyDefaults_idempotent: "applyDefaults (applyDefaults c) = applyDefaults c"
  by (simp add: applyDefaults_def option.map_comp comp_def)


end
