(* ===== verification/Circuit_Breaker.thy ===== *)
theory Circuit_Breaker
  imports Config_Types
begin

text \<open>
  The per-upstream circuit breaker of upstream/upstream.go: the fields behind \<open>cbMu\<close> as the record
  \<open>breaker\<close>, the admission tokens as \<open>CBToken\<close>, and one definition per method.  Every method
  runs under the mutex, so an interleaving of callers is a sequence of these operations; the clock
  reading a method takes is its argument \<open>now\<close>.  The gauge \<open>metricCBState\<close> and the log lines are
  not modelled.

  The lemmas show the breaker's invariant, that settled and stale tokens are inert, and the two
  thresholds: exactly the configured number of failures opens it, exactly the configured number of
  successful probes closes it.
\<close>

section \<open>State\<close>

datatype CBState = CBClosed | CBOpen | CBHalfOpen

datatype cbOutcome = cbSettleSuccess | cbSettleFailure | cbSettleRelease

record breaker =
  cbState :: CBState
  cbFails :: int
  cbSuccess :: int
  cbLastErr :: time
  cbCfg :: CircuitBreakerConfig
  cbProbeInFlight :: bool
  cbProbeGen :: u64
  cbEpoch :: u64

text \<open>A token names the upstream it belongs to; \<^const>\<open>None\<close> is the nil pointer of the zero token.\<close>

record CBToken =
  tok_u :: "string option"
  tok_probe :: bool
  tok_gen :: u64
  tok_epoch :: u64

definition zeroToken :: CBToken where
  "zeroToken = \<lparr>tok_u = None, tok_probe = False, tok_gen = 0, tok_epoch = 0\<rparr>"

definition newBreaker :: "CircuitBreakerConfig \<Rightarrow> breaker" where
  "newBreaker cfg = \<lparr>cbState = CBClosed, cbFails = 0, cbSuccess = 0, cbLastErr = 0, cbCfg = cfg,
     cbProbeInFlight = False, cbProbeGen = 0, cbEpoch = 0\<rparr>"


section \<open>Operations\<close>

named_theorems cb_defs \<open>definitions of the breaker's operations\<close>

definition cbTransitionLocked :: "CBState \<Rightarrow> breaker \<Rightarrow> breaker" where
  [cb_defs]: "cbTransitionLocked s b =
     (if cbState b \<noteq> s then b\<lparr>cbState := s, cbEpoch := cbEpoch b + 1\<rparr> else b)"

definition cbOpenLocked :: "breaker \<Rightarrow> breaker" where
  [cb_defs]: "cbOpenLocked b = (cbTransitionLocked CBOpen b)\<lparr>cbSuccess := 0\<rparr>"

definition cbFailAndOpenLocked :: "time \<Rightarrow> breaker \<Rightarrow> breaker" where
  [cb_defs]: "cbFailAndOpenLocked now b = cbOpenLocked (b\<lparr>cbFails := cbFails b + 1, cbLastErr := now\<rparr>)"

definition cbRecordFailureLocked :: "time \<Rightarrow> breaker \<Rightarrow> breaker" where
  [cb_defs]: "cbRecordFailureLocked now b =
     (let b1 = b\<lparr>cbFails := cbFails b + 1, cbLastErr := now\<rparr>
      in if cbFails b1 \<ge> FailureThreshold (cbCfg b1) then cbOpenLocked b1 else b1)"

definition cbGrantProbeLocked :: "string \<Rightarrow> breaker \<Rightarrow> CBToken \<times> breaker" where
  [cb_defs]: "cbGrantProbeLocked u b =
     (let b1 = b\<lparr>cbProbeInFlight := True, cbProbeGen := cbProbeGen b + 1\<rparr>
      in (\<lparr>tok_u = Some u, tok_probe = True, tok_gen = cbProbeGen b1, tok_epoch = cbEpoch b1\<rparr>, b1))"

text \<open>\<open>CBTryAcquire\<close> returns the token, whether the request is admitted, and the new state.\<close>

definition CBTryAcquire :: "string \<Rightarrow> time \<Rightarrow> breaker \<Rightarrow> (CBToken \<times> bool) \<times> breaker" where
  [cb_defs]: "CBTryAcquire u now b =
     (case cbState b of
        CBOpen \<Rightarrow>
          (if now - cbLastErr b \<ge> HalfOpenAfter (cbCfg b) then
             let b1 = (cbTransitionLocked CBHalfOpen b)\<lparr>cbSuccess := 0\<rparr>;
                 (t, b2) = cbGrantProbeLocked u b1
             in ((t, True), b2)
           else ((\<lparr>tok_u = Some u, tok_probe = False, tok_gen = 0, tok_epoch = cbEpoch b\<rparr>, True), b))
      | CBHalfOpen \<Rightarrow>
          (if cbProbeInFlight b then ((zeroToken, False), b)
           else let (t, b2) = cbGrantProbeLocked u b in ((t, True), b2))
      | CBClosed \<Rightarrow>
          ((\<lparr>tok_u = Some u, tok_probe = False, tok_gen = 0, tok_epoch = cbEpoch b\<rparr>, True), b))"

definition cbCanRoute :: "time \<Rightarrow> breaker \<Rightarrow> bool" where
  [cb_defs]: "cbCanRoute now b =
     (case cbState b of
        CBOpen \<Rightarrow> now - cbLastErr b \<ge> HalfOpenAfter (cbCfg b)
      | CBHalfOpen \<Rightarrow> \<not> cbProbeInFlight b
      | CBClosed \<Rightarrow> True)"

definition settle :: "time \<Rightarrow> cbOutcome \<Rightarrow> CBToken \<Rightarrow> breaker \<Rightarrow> breaker" where
  [cb_defs]: "settle now out t b =
     (if tok_u t = None then b
      else if tok_probe t then
        (if \<not> cbProbeInFlight b \<or> cbProbeGen b \<noteq> tok_gen t then b
         else let b1 = b\<lparr>cbProbeInFlight := False\<rparr> in
           (case out of
              cbSettleSuccess \<Rightarrow>
                (let b2 = b1\<lparr>cbSuccess := cbSuccess b1 + 1\<rparr>
                 in if cbSuccess b2 \<ge> SuccessThreshold (cbCfg b2)
                    then (cbTransitionLocked CBClosed b2)\<lparr>cbFails := 0\<rparr> else b2)
            | cbSettleFailure \<Rightarrow> cbFailAndOpenLocked now b1
            | cbSettleRelease \<Rightarrow> b1))
      else if cbEpoch b \<noteq> tok_epoch t \<or> cbState b \<noteq> CBClosed then b
      else (case out of
              cbSettleSuccess \<Rightarrow> b\<lparr>cbFails := 0\<rparr>
            | cbSettleFailure \<Rightarrow> cbRecordFailureLocked now b
            | cbSettleRelease \<Rightarrow> b))"

definition CBFailure :: "time \<Rightarrow> breaker \<Rightarrow> breaker" where
  [cb_defs]: "CBFailure now b =
     (case cbState b of
        CBClosed \<Rightarrow> cbRecordFailureLocked now b
      | CBHalfOpen \<Rightarrow> (if \<not> cbProbeInFlight b then cbFailAndOpenLocked now b else b)
      | CBOpen \<Rightarrow> b)"

text \<open>The three settlement methods of a token.\<close>

abbreviation Success :: "time \<Rightarrow> CBToken \<Rightarrow> breaker \<Rightarrow> breaker" where
  "Success now \<equiv> settle now cbSettleSuccess"
abbreviation Failure :: "time \<Rightarrow> CBToken \<Rightarrow> breaker \<Rightarrow> breaker" where
  "Failure now \<equiv> settle now cbSettleFailure"
abbreviation Release :: "time \<Rightarrow> CBToken \<Rightarrow> breaker \<Rightarrow> breaker" where
  "Release now \<equiv> settle now cbSettleRelease"


text \<open>A configuration from its three numbers, and a plain token, for concrete runs.\<close>

abbreviation cbConfig :: "int \<Rightarrow> int \<Rightarrow> duration \<Rightarrow> CircuitBreakerConfig" where
  "cbConfig f s h \<equiv> \<lparr>FailureThreshold = f, SuccessThreshold = s, HalfOpenAfter = h\<rparr>"

abbreviation plainToken :: "string \<Rightarrow> u64 \<Rightarrow> CBToken" where
  "plainToken u e \<equiv> \<lparr>tok_u = Some u, tok_probe = False, tok_gen = 0, tok_epoch = e\<rparr>"


section \<open>Runs: interleavings of callers\<close>

text \<open>
  Each method holds the mutex, so any concurrent history is a sequence of calls.  \<open>cb_step\<close> is one
  call by any caller: an acquisition, a settlement of any token with any outcome (late, duplicate and
  made-up settlements included), or failure evidence without a token.
\<close>

datatype cb_event = Acquire time | Settle time cbOutcome CBToken | Evidence time

fun cb_apply :: "string \<Rightarrow> cb_event \<Rightarrow> breaker \<Rightarrow> breaker" where
  "cb_apply u (Acquire now) b = snd (CBTryAcquire u now b)"
| "cb_apply u (Settle now out t) b = settle now out t b"
| "cb_apply u (Evidence now) b = CBFailure now b"

fun cb_run :: "string \<Rightarrow> cb_event list \<Rightarrow> breaker \<Rightarrow> breaker" where
  "cb_run u [] b = b"
| "cb_run u (e # es) b = cb_run u es (cb_apply u e b)"

text \<open>How often a run changes the breaker's state, and how many probes it grants.\<close>

fun cb_transitions :: "string \<Rightarrow> cb_event list \<Rightarrow> breaker \<Rightarrow> nat" where
  "cb_transitions u [] b = 0"
| "cb_transitions u (e # es) b =
     (if cbState (cb_apply u e b) \<noteq> cbState b then 1 else 0) + cb_transitions u es (cb_apply u e b)"

definition grants_probe :: "string \<Rightarrow> cb_event \<Rightarrow> breaker \<Rightarrow> bool" where
  "grants_probe u e b \<longleftrightarrow> (case e of Acquire now \<Rightarrow> tok_probe (fst (fst (CBTryAcquire u now b))) | _ \<Rightarrow> False)"

fun cb_grants :: "string \<Rightarrow> cb_event list \<Rightarrow> breaker \<Rightarrow> nat" where
  "cb_grants u [] b = 0"
| "cb_grants u (e # es) b =
     (if grants_probe u e b then 1 else 0) + cb_grants u es (cb_apply u e b)"

inductive cb_step :: "string \<Rightarrow> breaker \<Rightarrow> breaker \<Rightarrow> bool" for u where
  acquire: "CBTryAcquire u now b = (r, b') \<Longrightarrow> cb_step u b b'"
| settle: "settle now out t b = b' \<Longrightarrow> cb_step u b b'"
| evidence: "CBFailure now b = b' \<Longrightarrow> cb_step u b b'"

inductive cb_reachable :: "string \<Rightarrow> CircuitBreakerConfig \<Rightarrow> breaker \<Rightarrow> bool" for u cfg where
  start: "cb_reachable u cfg (newBreaker cfg)"
| step: "cb_reachable u cfg b \<Longrightarrow> cb_step u b b' \<Longrightarrow> cb_reachable u cfg b'"

text \<open>Requests served one after the other: each is admitted and settles its token at the same instant.\<close>

definition request :: "string \<Rightarrow> cbOutcome \<Rightarrow> time \<Rightarrow> breaker \<Rightarrow> breaker" where
  "request u out now b = (case CBTryAcquire u now b of ((t, ok), b') \<Rightarrow> settle now out t b')"

definition requests :: "string \<Rightarrow> cbOutcome \<Rightarrow> time list \<Rightarrow> breaker \<Rightarrow> breaker" where
  "requests u out ts b = fold (request u out) ts b"

text \<open>An event settles the probe of generation \<open>g\<close> if it presents a probe token of that generation.\<close>

fun settles_gen :: "u64 \<Rightarrow> cb_event \<Rightarrow> bool" where
  "settles_gen g (Settle now out t) = (tok_u t \<noteq> None \<and> tok_probe t \<and> tok_gen t = g)"
| "settles_gen g _ = False"


section \<open>The invariant\<close>

text \<open>
  A probe is in flight only while half-open; a closed breaker has counted fewer failures than its
  threshold; a half-open one fewer successes than its threshold; an open one none.
\<close>

definition cb_inv :: "breaker \<Rightarrow> bool" where
  "cb_inv b \<longleftrightarrow>
     (cbProbeInFlight b \<longrightarrow> cbState b = CBHalfOpen) \<and>
     0 \<le> cbFails b \<and> 0 \<le> cbSuccess b \<and>
     (cbState b = CBClosed \<longrightarrow> cbFails b < FailureThreshold (cbCfg b)) \<and>
     (cbState b = CBOpen \<longrightarrow> cbSuccess b = 0) \<and>
     (cbState b = CBHalfOpen \<longrightarrow> cbSuccess b < SuccessThreshold (cbCfg b))"

text \<open>The thresholds that configuration validation and defaulting leave: at least one each.\<close>

definition cb_cfg_ok :: "CircuitBreakerConfig \<Rightarrow> bool" where
  "cb_cfg_ok c \<longleftrightarrow> 1 \<le> FailureThreshold c \<and> 1 \<le> SuccessThreshold c"

inductive_simps cb_step_iff: "cb_step u b b'"

lemmas cb_unfold = cb_defs Let_def

lemma cbCfg_settle [simp]: "cbCfg (settle now out t b) = cbCfg b"
  by (auto simp: cb_unfold split: cbOutcome.splits)

lemma cbCfg_acquire [simp]: "cbCfg (snd (CBTryAcquire u now b)) = cbCfg b"
  by (auto simp: cb_unfold split: CBState.splits)

lemma cbCfg_CBFailure [simp]: "cbCfg (CBFailure now b) = cbCfg b"
  by (auto simp: cb_unfold split: CBState.splits)

lemma cb_inv_new: "cb_cfg_ok cfg \<Longrightarrow> cb_inv (newBreaker cfg)"
  by (simp add: cb_inv_def cb_cfg_ok_def newBreaker_def)

lemma cb_inv_acquire: "cb_inv b \<Longrightarrow> cb_cfg_ok (cbCfg b) \<Longrightarrow> cb_inv (snd (CBTryAcquire u now b))"
  by (cases "cbState b") (auto simp: cb_inv_def cb_cfg_ok_def cb_unfold)

lemma cb_inv_settle: "cb_inv b \<Longrightarrow> cb_cfg_ok (cbCfg b) \<Longrightarrow> cb_inv (settle now out t b)"
  by (cases "cbState b") (auto simp: cb_inv_def cb_cfg_ok_def cb_unfold split: cbOutcome.splits)

lemma cb_inv_CBFailure: "cb_inv b \<Longrightarrow> cb_inv (CBFailure now b)"
  by (cases "cbState b") (auto simp: cb_inv_def cb_unfold)

lemmas cb_inv_ops = cb_inv_acquire cb_inv_settle cb_inv_CBFailure

lemma cb_step_cfg: "cb_step u b b' \<Longrightarrow> cbCfg b' = cbCfg b"
  by (auto simp: cb_step_iff) (metis cbCfg_acquire snd_conv)

lemma cb_step_inv: "cb_step u b b' \<Longrightarrow> cb_inv b \<Longrightarrow> cb_cfg_ok (cbCfg b) \<Longrightarrow> cb_inv b'"
  by (auto simp: cb_step_iff intro: cb_inv_ops) (metis cb_inv_acquire snd_conv)

lemma cb_reachable_cfg: "cb_reachable u cfg b \<Longrightarrow> cbCfg b = cfg"
  by (induction rule: cb_reachable.induct) (auto simp: newBreaker_def dest: cb_step_cfg)

lemma cb_reachable_inv: "cb_reachable u cfg b \<Longrightarrow> cb_cfg_ok cfg \<Longrightarrow> cb_inv b"
  by (induction rule: cb_reachable.induct)
    (auto simp: cb_inv_new dest: cb_reachable_cfg intro: cb_step_inv)


section \<open>Admission as its clients see it\<close>

text \<open>
  What a dispatcher relies on: a refusal changes nothing and hands out a token whose settlement
  changes nothing, and once a token is settled, the release that the dispatcher defers changes
  nothing.  The client lemmas are about the shape every dispatch site of the program has: acquire,
  settle on the path taken, release on return.
\<close>

locale admission =
  fixes try_acquire :: "time \<Rightarrow> 'b \<Rightarrow> ('k \<times> bool) \<times> 'b"
    and settle_tok :: "time \<Rightarrow> 'o \<Rightarrow> 'k \<Rightarrow> 'b \<Rightarrow> 'b"
    and released :: 'o
  assumes refused: "try_acquire now b = ((k, False), b') \<Longrightarrow> b' = b"
    and refused_inert: "try_acquire now b = ((k, False), b') \<Longrightarrow> settle_tok t out k c = c"
    and settled_release: "settle_tok t' released k (settle_tok t out k b) = settle_tok t out k b"
begin

lemma refused_whole: "try_acquire now b = ((k, False), b') \<Longrightarrow> settle_tok t released k (settle_tok t' out k b') = b"
  by (simp add: refused refused_inert)

lemma release_any: "fold (\<lambda>t. settle_tok t released k) ts (settle_tok t' out k b) = settle_tok t' out k b"
  by (induction ts) (simp_all add: settled_release)

end

lemma refused_zero: "CBTryAcquire u now b = ((t, False), b') \<Longrightarrow> t = zeroToken \<and> b' = b"
  by (auto simp: cb_unfold split: CBState.splits if_splits)

lemma tok_u_zeroToken [simp]: "tok_u zeroToken = None"
  by (simp add: zeroToken_def)

lemma settle_zeroToken [simp]: "settle now out zeroToken b = b"
  by (simp add: settle_def zeroToken_def)

lemma probe_settled:
  "tok_probe t \<Longrightarrow> settle now' out' t (settle now out t b) = settle now out t b"
  by (auto simp: cb_unfold split: cbOutcome.splits)

lemma release_plain: "\<not> tok_probe t \<Longrightarrow> settle now cbSettleRelease t b = b"
  by (simp add: settle_def)

interpretation breaker_admission: admission "CBTryAcquire u" settle cbSettleRelease
proof
  show "CBTryAcquire u now b = ((k, False), b') \<Longrightarrow> b' = b" for now b k b'
    by (simp add: refused_zero)
  show "CBTryAcquire u now b = ((k, False), b') \<Longrightarrow> settle t out k c = c" for now b k b' t out c
    by (auto dest: refused_zero)
  show "settle t' cbSettleRelease k (settle t out k b) = settle t out k b" for t' k t out b
    by (cases "tok_probe k") (simp_all add: probe_settled release_plain)
qed


section \<open>Counting transitions and grants\<close>

lemma epoch_apply:
  "cbEpoch (cb_apply u e b) = cbEpoch b + (if cbState (cb_apply u e b) \<noteq> cbState b then 1 else 0)"
  by (cases e) (auto simp: cb_unfold split: CBState.splits cbOutcome.splits)

lemma gen_apply:
  "cbProbeGen (cb_apply u e b) = cbProbeGen b + (if grants_probe u e b then 1 else 0)"
  by (cases e) (auto simp: cb_unfold grants_probe_def zeroToken_def split: CBState.splits cbOutcome.splits)

lemma epoch_run: "cbEpoch (cb_run u es b) = cbEpoch b + of_nat (cb_transitions u es b)"
proof (induction es arbitrary: b)
  case (Cons e es)
  show ?case by (simp add: Cons epoch_apply)
qed simp

lemma gen_run: "cbProbeGen (cb_run u es b) = cbProbeGen b + of_nat (cb_grants u es b)"
proof (induction es arbitrary: b)
  case (Cons e es)
  show ?case by (simp add: Cons gen_apply)
qed simp

lemma state_run_no_transition: "cb_transitions u es b = 0 \<Longrightarrow> cbState (cb_run u es b) = cbState b"
  by (induction es arbitrary: b) (auto split: if_splits)

lemma of_nat_shift_ne: "0 < k \<Longrightarrow> k < 2 ^ 64 \<Longrightarrow> (e :: u64) + of_nat k \<noteq> e"
  using of_nat_ne_zero_u64 [of k] by simp


section \<open>The probe is exclusive\<close>

lemma in_flight_apply:
  assumes "cbState b = CBHalfOpen" "cbProbeInFlight b" "\<not> settles_gen (cbProbeGen b) e"
  shows "cb_apply u e b = b"
  using assms by (cases e) (auto simp: cb_unfold)

lemma in_flight_run:
  assumes "cbState b = CBHalfOpen" "cbProbeInFlight b" "\<forall>e\<in>set es. \<not> settles_gen (cbProbeGen b) e"
  shows "cb_run u es b = b"
  using assms by (induction es) (simp_all add: in_flight_apply)

lemma granted_probe:
  assumes "CBTryAcquire u now b = ((t, True), b')" "tok_probe t"
  shows "cbState b' = CBHalfOpen \<and> cbProbeInFlight b' \<and> cbProbeGen b' = tok_gen t \<and> tok_u t = Some u"
  using assms by (auto simp: cb_unfold split: CBState.splits if_splits)


section \<open>Thresholds\<close>

lemma request_failure_closed:
  "cbState b = CBClosed \<Longrightarrow> request u cbSettleFailure now b = cbRecordFailureLocked now b"
  by (simp add: request_def cb_unfold)

lemma request_failure_open:
  "cbState b = CBOpen \<Longrightarrow> cbState (request u cbSettleFailure now b) = CBOpen"
  by (auto simp: request_def cb_unfold)

lemma requests_failure_open:
  "cbState b = CBOpen \<Longrightarrow> cbState (requests u cbSettleFailure ts b) = CBOpen"
  unfolding requests_def by (induction ts arbitrary: b) (auto simp: request_failure_open)

lemma requests_failure_closed:
  assumes "cbState b = CBClosed" "cbFails b < FailureThreshold (cbCfg b)"
  shows "cbState (requests u cbSettleFailure ts b) =
    (if cbFails b + int (length ts) < FailureThreshold (cbCfg b) then CBClosed else CBOpen)"
  using assms
proof (induction ts arbitrary: b)
  case Nil
  then show ?case by (simp add: requests_def)
next
  case (Cons t ts)
  let ?b = "cbRecordFailureLocked t b"
  have step: "requests u cbSettleFailure (t # ts) b = requests u cbSettleFailure ts ?b"
    by (simp add: requests_def request_failure_closed Cons.prems)
  show ?case
  proof (cases "cbFails b + 1 < FailureThreshold (cbCfg b)")
    case True
    then have "?b = b\<lparr>cbFails := cbFails b + 1, cbLastErr := t\<rparr>" by (simp add: cb_unfold)
    then show ?thesis using Cons.IH [of ?b] Cons.prems True by (simp add: step add.commute add.left_commute)
  next
    case False
    then have "cbState ?b = CBOpen" by (simp add: cb_unfold)
    then show ?thesis using False by (simp add: step requests_failure_open)
  qed
qed

lemma request_success_half:
  assumes "cbState b = CBHalfOpen" "\<not> cbProbeInFlight b"
  shows "request u cbSettleSuccess now b =
    (let b2 = b\<lparr>cbProbeGen := cbProbeGen b + 1, cbSuccess := cbSuccess b + 1\<rparr>
     in if cbSuccess b2 \<ge> SuccessThreshold (cbCfg b) then
          b2\<lparr>cbState := CBClosed, cbEpoch := cbEpoch b + 1, cbFails := 0\<rparr> else b2)"
  using assms by (simp add: request_def cb_unfold)

lemma request_success_open:
  assumes "cbState b = CBOpen" "now - cbLastErr b \<ge> HalfOpenAfter (cbCfg b)" "\<not> cbProbeInFlight b"
  shows "request u cbSettleSuccess now b =
    request u cbSettleSuccess now (b\<lparr>cbState := CBHalfOpen, cbEpoch := cbEpoch b + 1, cbSuccess := 0\<rparr>)"
  using assms by (simp add: request_def cb_unfold)

lemma request_success_closed:
  "cbState b = CBClosed \<Longrightarrow> cbState (request u cbSettleSuccess now b) = CBClosed"
  by (simp add: request_def cb_unfold)

lemma requests_success_closed:
  "cbState b = CBClosed \<Longrightarrow> cbState (requests u cbSettleSuccess ts b) = CBClosed"
  unfolding requests_def by (induction ts arbitrary: b) (auto simp: request_success_closed)

lemma requests_success_half:
  assumes "cbState b = CBHalfOpen" "\<not> cbProbeInFlight b" "cbSuccess b < SuccessThreshold (cbCfg b)"
  shows "cbState (requests u cbSettleSuccess ts b) =
    (if cbSuccess b + int (length ts) < SuccessThreshold (cbCfg b) then CBHalfOpen else CBClosed)"
  using assms
proof (induction ts arbitrary: b)
  case Nil
  then show ?case by (simp add: requests_def)
next
  case (Cons t ts)
  let ?b = "request u cbSettleSuccess t b"
  have step: "requests u cbSettleSuccess (t # ts) b = requests u cbSettleSuccess ts ?b"
    by (simp add: requests_def)
  show ?case
  proof (cases "cbSuccess b + 1 < SuccessThreshold (cbCfg b)")
    case True
    then have "?b = b\<lparr>cbProbeGen := cbProbeGen b + 1, cbSuccess := cbSuccess b + 1\<rparr>"
      using Cons.prems by (simp add: request_success_half)
    then show ?thesis using Cons.IH [of ?b] Cons.prems True by (simp add: step add.commute add.left_commute)
  next
    case False
    then have "cbState ?b = CBClosed" using Cons.prems by (simp add: request_success_half Let_def)
    then show ?thesis using False by (simp add: step requests_success_closed)
  qed
qed


section \<open>Properties\<close>

text \<open>C15.  In every state a breaker reaches from its initial one, under any interleaving of
  acquisitions, settlements (late, duplicate or made up) and bare failure evidence, the invariant
  holds: a probe is in flight only while half-open, a closed breaker has counted fewer failures than
  the failure threshold, a half-open one fewer successes than the success threshold.\<close>

theorem breaker_invariant:
  assumes "cb_cfg_ok cfg" and "cb_reachable u cfg b"
  shows "cb_inv b"
  using assms by (rule cb_reachable_inv [rotated])

lemma breaker_invariant_witness:
  "cb_inv (snd (CBTryAcquire ''n1'' 5 (newBreaker (cbConfig 2 1 3))))"
proof (rule breaker_invariant)
  let ?cfg = "(cbConfig 2 1 3)"
  show "cb_cfg_ok ?cfg" by (simp add: cb_cfg_ok_def)
  show "cb_reachable ''n1'' ?cfg (snd (CBTryAcquire ''n1'' 5 (newBreaker ?cfg)))"
    by (rule cb_reachable.step [OF cb_reachable.start], rule cb_step.acquire, rule prod.collapse [symmetric])
qed

text \<open>C16.  The recovery probe is exclusive: once an acquisition grants it, then as long as nobody
  settles that probe's token, whatever else callers do leaves the breaker exactly as the grant left
  it, and every further acquisition is refused with the zero token.\<close>

theorem breaker_probe_exclusive:
  assumes "CBTryAcquire u now b = ((t, True), b')" and "tok_probe t"
    and "\<forall>e\<in>set es. \<not> settles_gen (tok_gen t) e"
  shows "cb_run u es b' = b' \<and> CBTryAcquire u now' (cb_run u es b') = ((zeroToken, False), b')"
proof -
  note g = granted_probe [OF assms(1,2)]
  have "cb_run u es b' = b'" using g assms(3) by (intro in_flight_run) auto
  moreover have "CBTryAcquire u now' b' = ((zeroToken, False), b')" using g by (simp add: CBTryAcquire_def)
  ultimately show ?thesis by simp
qed

lemma breaker_probe_exclusive_witness:
  "CBTryAcquire ''n1'' 20 (cb_run ''n1'' [Evidence 11, Acquire 12, Settle 13 cbSettleFailure zeroToken]
      (snd (CBTryAcquire ''n1'' 10 (CBFailure 5 (newBreaker (cbConfig 1 1 3))))))
    = ((zeroToken, False), snd (CBTryAcquire ''n1'' 10 (CBFailure 5 (newBreaker (cbConfig 1 1 3)))))"
proof -
  let ?b = "CBFailure 5 (newBreaker (cbConfig 1 1 3))"
  let ?t = "\<lparr>tok_u = Some ''n1'', tok_probe = True, tok_gen = 1, tok_epoch = 2\<rparr>"
  have "CBTryAcquire ''n1'' 10 ?b = ((?t, True), snd (CBTryAcquire ''n1'' 10 ?b))"
    by (simp add: newBreaker_def cb_unfold)
  then show ?thesis by (rule conjunct2 [OF breaker_probe_exclusive]) simp_all
qed

text \<open>A token that is not the live probe is inert once the breaker has moved on: a plain token
  whose breaker has since changed state between one and \<open>2^64 - 1\<close> times settles without any
  effect, and so does a probe token after between one and \<open>2^64 - 1\<close> further probes were granted.\<close>

theorem breaker_stale_inert:
  assumes "CBTryAcquire u now b = ((t, ok), b')"
    and "if tok_probe t then 0 < cb_grants u es b' \<and> cb_grants u es b' < 2 ^ 64
         else 0 < cb_transitions u es b' \<and> cb_transitions u es b' < 2 ^ 64"
  shows "settle now' out t (cb_run u es b') = cb_run u es b'"
proof (cases "tok_probe t")
  case True
  have "tok_gen t = cbProbeGen b'"
    using assms(1) True by (auto simp: cb_unfold zeroToken_def split: CBState.splits if_splits)
  with True assms(2) have "cbProbeGen (cb_run u es b') \<noteq> tok_gen t"
    using of_nat_shift_ne by (simp add: gen_run)
  with True show ?thesis by (simp add: settle_def)
next
  case False
  have "ok \<Longrightarrow> tok_epoch t = cbEpoch b'"
    using assms(1) False by (auto simp: cb_unfold zeroToken_def split: CBState.splits if_splits)
  with False assms(2) have "ok \<Longrightarrow> cbEpoch (cb_run u es b') \<noteq> tok_epoch t"
    using of_nat_shift_ne by (simp add: epoch_run)
  moreover have "\<not> ok \<Longrightarrow> t = zeroToken" using assms(1) refused_zero by (cases ok) auto
  ultimately show ?thesis using False by (cases ok) (simp_all add: settle_def [of now' out t])
qed

lemma breaker_stale_inert_witness:
  "Success 9 (plainToken ''n1'' 0) (cb_run ''n1'' [Evidence 4] (newBreaker (cbConfig 1 1 3)))
    = cb_run ''n1'' [Evidence 4] (newBreaker (cbConfig 1 1 3))"
proof (rule breaker_stale_inert)
  show "CBTryAcquire ''n1'' 1 (newBreaker (cbConfig 1 1 3)) = (((plainToken ''n1'' 0), True), (newBreaker (cbConfig 1 1 3)))"
    by (simp add: newBreaker_def cb_unfold)
  show "if tok_probe (plainToken ''n1'' 0)
    then 0 < cb_grants ''n1'' [Evidence 4] (newBreaker (cbConfig 1 1 3)) \<and> cb_grants ''n1'' [Evidence 4] (newBreaker (cbConfig 1 1 3)) < 2 ^ 64
    else 0 < cb_transitions ''n1'' [Evidence 4] (newBreaker (cbConfig 1 1 3)) \<and> cb_transitions ''n1'' [Evidence 4] (newBreaker (cbConfig 1 1 3)) < 2 ^ 64"
    by (simp add: newBreaker_def cb_unfold)
qed



text \<open>C18.  Recovery: an open breaker whose cooling-off period has passed when the first of a series
  of successful requests arrives is half-open until the configured number of probes has succeeded
  and closed from then on.\<close>

theorem breaker_recovers:
  assumes "cb_inv b" and "cb_cfg_ok (cbCfg b)" and "cbState b = CBOpen"
    and "t - cbLastErr b \<ge> HalfOpenAfter (cbCfg b)"
  shows "cbState (requests u cbSettleSuccess (t # ts) b) =
    (if int (length (t # ts)) < SuccessThreshold (cbCfg b) then CBHalfOpen else CBClosed)"
proof -
  let ?h = "b\<lparr>cbState := CBHalfOpen, cbEpoch := cbEpoch b + 1, cbSuccess := 0\<rparr>"
  have "\<not> cbProbeInFlight b" using assms(1,3) by (auto simp: cb_inv_def)
  then have "requests u cbSettleSuccess (t # ts) b = requests u cbSettleSuccess (t # ts) ?h"
    using assms(3,4) request_success_open by (simp add: requests_def)
  then show ?thesis
    using requests_success_half [of ?h u "t # ts"] assms \<open>\<not> cbProbeInFlight b\<close>
    by (simp add: cb_cfg_ok_def)
qed

lemma breaker_recovers_witness:
  "cbState (requests ''n1'' cbSettleSuccess [20, 21]
     (CBFailure 5 (newBreaker (cbConfig 1 2 3)))) = CBClosed"
  using breaker_recovers [of "CBFailure 5 (newBreaker (cbConfig 1 2 3))"
      20 "''n1''" "[21]"]
  by (simp add: newBreaker_def cb_unfold cb_inv_def cb_cfg_ok_def)

text \<open>The dispatch idiom, acquire, settle with some outcome, then any number of deferred
  releases, has exactly the effect of the one settlement; and when the acquisition is refused it
  leaves the breaker as it was.\<close>

theorem breaker_settles_once:
  assumes "CBTryAcquire u now b = ((t, ok), b')"
  shows "fold (\<lambda>r. Release r t) rs (settle now' out t b') = (if ok then settle now' out t b' else b)"
proof (cases ok)
  case True
  then show ?thesis by (simp add: breaker_admission.release_any)
next
  case False
  with assms have "t = zeroToken" "b' = b" using refused_zero by auto
  then show ?thesis using False breaker_admission.release_any [of zeroToken rs now' out b] by simp
qed

lemma breaker_settles_once_witness:
  "Release 3 (plainToken ''n1'' 0) (Failure 2 (plainToken ''n1'' 0) (newBreaker (cbConfig 2 2 3))) =
    (newBreaker (cbConfig 2 2 3))\<lparr>cbFails := 1, cbLastErr := 2\<rparr>"
proof -
  let ?b = "newBreaker (cbConfig 2 2 3)"
  have "CBTryAcquire ''n1'' 1 ?b = ((plainToken ''n1'' 0, True), ?b)"
    by (simp add: newBreaker_def cb_unfold)
  from breaker_settles_once [OF this, of "[3]" 2 cbSettleFailure] show ?thesis
    by (simp add: newBreaker_def cb_unfold)
qed

end
