(* ===== verification/Scoring.thy ===== *)
theory Scoring
  imports Config_Types
begin

text \<open>
  The rolling score window of upstream/scoring.go and the composite score.  The ring buffer is modelled
  as the code has it: two slices of the window's length, a write position and a count, with the cached
  snapshot and its validity flag.  Floating-point numbers are reals.

  The lemmas show that the buffer implements a sliding window over the history of recorded requests
  and that the snapshot, cached or not, is the one of the last \<open>windowSize\<close> requests.
\<close>

section \<open>Operations\<close>

record ScoreSnapshot =
  Samples :: int
  ErrorRate :: real
  P90Latency :: duration

definition zeroSnapshot :: ScoreSnapshot where
  "zeroSnapshot = \<lparr>Samples = 0, ErrorRate = 0, P90Latency = 0\<rparr>"

record ScoreTracker =
  windowSize :: nat
  latencies :: "duration list"
  errors :: "bool list"
  st_pos :: nat
  st_count :: nat
  snapshot :: ScoreSnapshot
  snapshotValid :: bool

definition NewScoreTracker :: "int \<Rightarrow> ScoreTracker" where
  "NewScoreTracker w =
     (let ws = (if w \<le> 0 then 100 else nat w)
      in \<lparr>windowSize = ws, latencies = replicate ws 0, errors = replicate ws False, st_pos = 0, st_count = 0,
          snapshot = zeroSnapshot, snapshotValid = False\<rparr>)"

definition record_sample :: "duration \<Rightarrow> bool \<Rightarrow> ScoreTracker \<Rightarrow> ScoreTracker" where
  "record_sample d isErr s =
     (let idx = st_pos s mod windowSize s
      in s\<lparr>latencies := (latencies s)[idx := d], errors := (errors s)[idx := isErr], snapshotValid := False,
           st_pos := st_pos s + 1,
           st_count := (if st_count s < windowSize s then st_count s + 1 else st_count s)\<rparr>)"

definition RecordSuccess :: "duration \<Rightarrow> ScoreTracker \<Rightarrow> ScoreTracker" where
  "RecordSuccess d = record_sample d False"

definition RecordError :: "ScoreTracker \<Rightarrow> ScoreTracker" where
  "RecordError = record_sample 0 True"

text \<open>The index of the 90th percentile, clamped as the code clamps it.\<close>

definition p90_index :: "nat \<Rightarrow> nat" where
  "p90_index n =
     (let idx = \<lceil>real n * (9 / 10)\<rceil> - 1;
          idx = (if idx < 0 then 0 else idx);
          idx = (if idx \<ge> int n then int n - 1 else idx)
      in nat idx)"

definition computeSnapshot :: "ScoreTracker \<Rightarrow> ScoreSnapshot" where
  "computeSnapshot s =
     (if st_count s = 0 then zeroSnapshot
      else let errCount = length (filter (\<lambda>i. errors s ! i) [0..<st_count s]);
               successful = map (\<lambda>i. latencies s ! i)
                 (filter (\<lambda>i. \<not> errors s ! i \<and> latencies s ! i > 0) [0..<st_count s]);
               snap = \<lparr>Samples = int (st_count s), ErrorRate = real errCount / real (st_count s), P90Latency = 0\<rparr>
           in if successful = [] then snap
              else snap\<lparr>P90Latency := sort successful ! p90_index (length successful)\<rparr>)"

definition Snapshot :: "ScoreTracker \<Rightarrow> ScoreSnapshot \<times> ScoreTracker" where
  "Snapshot s =
     (let s1 = (if \<not> snapshotValid s then s\<lparr>snapshot := computeSnapshot s, snapshotValid := True\<rparr> else s)
      in (snapshot s1, s1))"

definition calculateScore :: "real \<Rightarrow> real \<Rightarrow> real \<Rightarrow> real \<Rightarrow> real \<Rightarrow> duration \<Rightarrow> u64 \<Rightarrow> u64 \<Rightarrow> real" where
  "calculateScore errorWeight latencyWeight headLagWeight syncDistWeight errRate p90Latency headLag syncDist =
     (let errorScore = (1 - errRate) * errorWeight;
          p90 = real_of_int p90Latency / real_of_int second;
          latencyScore = (if p90 > 0 then (1 / (1 + p90)) * latencyWeight else latencyWeight);
          headLagScore = (1 / (1 + real (unat headLag))) * headLagWeight;
          syncDistScore = (1 / (1 + real (unat syncDist))) * syncDistWeight
      in errorScore + latencyScore + headLagScore + syncDistScore)"


section \<open>The sliding window over the history\<close>

type_synonym sample = "duration \<times> bool"

text \<open>Records and reads of the snapshot in any order.\<close>

datatype score_op = Rec duration bool | Read

fun score_exec :: "score_op \<Rightarrow> ScoreTracker \<Rightarrow> ScoreTracker" where
  "score_exec (Rec d e) s = record_sample d e s"
| "score_exec Read s = snd (Snapshot s)"

fun recorded :: "score_op list \<Rightarrow> sample list" where
  "recorded [] = []"
| "recorded (Rec d e # ops) = (d, e) # recorded ops"
| "recorded (Read # ops) = recorded ops"

definition last_n :: "nat \<Rightarrow> 'a list \<Rightarrow> 'a list" where
  "last_n n xs = drop (length xs - n) xs"

text \<open>The snapshot of a list of samples, whatever their order.\<close>

definition snapshot_of :: "sample list \<Rightarrow> ScoreSnapshot" where
  "snapshot_of hs =
     (if hs = [] then zeroSnapshot
      else let ok = map fst (filter (\<lambda>(d, e). \<not> e \<and> d > 0) hs)
           in \<lparr>Samples = int (length hs), ErrorRate = real (length (filter snd hs)) / real (length hs),
               P90Latency = (if ok = [] then 0 else sort ok ! p90_index (length ok))\<rparr>)"

definition ring :: "ScoreTracker \<Rightarrow> sample list" where
  "ring s = zip (latencies s) (errors s)"

text \<open>The buffer holds the history \<open>hs\<close>: position and count are its length and the number of live
  entries, and from the write position on, the buffer is the end of the history.\<close>

definition holds_history :: "nat \<Rightarrow> sample list \<Rightarrow> ScoreTracker \<Rightarrow> bool" where
  "holds_history W hs s \<longleftrightarrow>
     0 < W \<and> windowSize s = W \<and> length (latencies s) = W \<and> length (errors s) = W \<and>
     st_pos s = length hs \<and> st_count s = min (length hs) W \<and>
     (\<forall>j < length hs. length hs \<le> j + W \<longrightarrow> ring s ! (j mod W) = hs ! j) \<and>
     (snapshotValid s \<longrightarrow> snapshot s = computeSnapshot s)"

lemma length_ring [simp]: "length (ring s) = min (length (latencies s)) (length (errors s))"
  by (simp add: ring_def)

lemma ring_record:
  "length (latencies s) = length (errors s) \<Longrightarrow>
   ring (record_sample d e s) = (ring s)[st_pos s mod windowSize s := (d, e)]"
  by (simp add: ring_def record_sample_def Let_def update_zip)

lemma holds_history_new: "holds_history (if w \<le> 0 then 100 else nat w) [] (NewScoreTracker w)"
  by (simp add: holds_history_def NewScoreTracker_def Let_def)

lemma mod_ne_in_window:
  assumes "j < (n::nat)" "n < j + W"
  shows "j mod W \<noteq> n mod W"
proof
  assume "j mod W = n mod W"
  then have "W dvd n - j" using assms(1) mod_eq_dvd_iff_nat [of j n W] by simp
  moreover have "0 < n - j" "n - j < W" using assms by auto
  ultimately show False by (auto dest: dvd_imp_le)
qed

lemma holds_history_record:
  assumes "holds_history W hs s"
  shows "holds_history W (hs @ [(d, e)]) (record_sample d e s)"
proof -
  have s: "0 < W" "windowSize s = W" "length (latencies s) = W" "length (errors s) = W" "st_pos s = length hs"
    "st_count s = min (length hs) W"
    and r: "\<And>j. j < length hs \<Longrightarrow> length hs \<le> j + W \<Longrightarrow> ring s ! (j mod W) = hs ! j"
    using assms by (auto simp: holds_history_def)
  have "ring (record_sample d e s) ! (j mod W) = (hs @ [(d, e)]) ! j"
    if "j < length (hs @ [(d, e)])" "length (hs @ [(d, e)]) \<le> j + W" for j
  proof (cases "j = length hs")
    case True
    then show ?thesis using s by (simp add: ring_record)
  next
    case False
    then have "j < length hs" "length hs < j + W" using that by auto
    with mod_ne_in_window [OF this] r [of j] s show ?thesis by (simp add: ring_record nth_append)
  qed
  with s show ?thesis by (auto simp: holds_history_def record_sample_def Let_def)
qed

lemma computeSnapshot_cache [simp]:
  "computeSnapshot (s\<lparr>snapshot := x, snapshotValid := b\<rparr>) = computeSnapshot s"
  by (simp add: computeSnapshot_def Let_def)

lemma holds_history_Snapshot: "holds_history W hs s \<Longrightarrow> holds_history W hs (snd (Snapshot s))"
  by (auto simp: holds_history_def Snapshot_def Let_def ring_def)

lemma holds_history_run:
  "holds_history W hs s \<Longrightarrow> holds_history W (hs @ recorded ops) (fold score_exec ops s)"
proof (induction ops arbitrary: hs s)
  case (Cons op ops)
  show ?case
  proof (cases op)
    case (Rec d e)
    with Cons.IH [OF holds_history_record [OF Cons.prems, of d e]] show ?thesis by simp
  next
    case Read
    with Cons.IH [OF holds_history_Snapshot [OF Cons.prems]] show ?thesis by simp
  qed
qed simp

lemma mset_rotate: "mset (rotate n xs) = mset xs"
proof (induction n)
  case (Suc n)
  have "mset (rotate1 ys) = mset ys" for ys :: "'a list" by (cases ys) auto
  with Suc show ?case by simp
qed simp

lemma ring_mset:
  assumes "holds_history W hs s"
  shows "mset (take (st_count s) (ring s)) = mset (last_n W hs)"
proof (cases "length hs < W")
  case True
  have "take (length hs) (ring s) = hs"
    using assms True by (intro nth_equalityI) (auto simp: holds_history_def)
  with True assms show ?thesis by (simp add: holds_history_def last_n_def)
next
  case False
  have "rotate (length hs) (ring s) = drop (length hs - W) hs"
  proof (rule nth_equalityI)
    show "length (rotate (length hs) (ring s)) = length (drop (length hs - W) hs)"
      using assms False by (simp add: holds_history_def)
  next
    fix k assume "k < length (rotate (length hs) (ring s))"
    then have k: "k < W" using assms by (simp add: holds_history_def)
    let ?j = "length hs - W + k"
    have "length hs + k = W + ?j" using False by simp
    then have "(length hs + k) mod W = ?j mod W" by (simp only: mod_add_self1)
    moreover have "ring s ! (?j mod W) = hs ! ?j" using assms k False by (auto simp: holds_history_def)
    ultimately show "rotate (length hs) (ring s) ! k = drop (length hs - W) hs ! k"
      using k assms False by (simp add: nth_rotate holds_history_def)
  qed
  then have "mset (ring s) = mset (last_n W hs)" by (metis last_n_def mset_rotate)
  with assms False show ?thesis by (simp add: holds_history_def)
qed


lemma snapshot_of_mset:
  assumes "mset xs = mset ys"
  shows "snapshot_of xs = snapshot_of ys"
proof -
  let ?ok = "\<lambda>hs. map fst (filter (\<lambda>(d, e). \<not> e \<and> d > 0) hs) :: duration list"
  have "mset (?ok xs) = mset (?ok ys)" by (simp add: assms mset_filter)
  then have "sort (?ok xs) = sort (?ok ys)" "length (?ok xs) = length (?ok ys)"
    by (metis properties_for_sort mset_sort sorted_sort, metis size_mset)
  moreover have "length (filter snd xs) = length (filter snd ys)" using assms by (metis mset_filter size_mset)
  moreover have "length xs = length ys" using assms by (metis size_mset)
  moreover have "xs = [] \<longleftrightarrow> ys = []" using assms by auto
  moreover have "?ok xs = [] \<longleftrightarrow> ?ok ys = []" using calculation(2) by (metis length_0_conv)
  ultimately show ?thesis unfolding snapshot_of_def Let_def by presburger
qed

lemma computeSnapshot_ring:
  assumes "holds_history W hs s"
  shows "computeSnapshot s = snapshot_of (take (st_count s) (ring s))"
proof -
  have len: "st_count s \<le> length (latencies s)" "st_count s \<le> length (errors s)"
    using assms by (auto simp: holds_history_def)
  let ?n = "st_count s"
  have tk: "take ?n (ring s) = map (\<lambda>i. (latencies s ! i, errors s ! i)) [0..<?n]"
    using len by (intro nth_equalityI) (auto simp: ring_def)
  show ?thesis
    by (auto simp: tk computeSnapshot_def snapshot_of_def Let_def filter_map comp_def)
qed


lemma Snapshot_history:
  assumes "holds_history W hs s"
  shows "fst (Snapshot s) = snapshot_of (last_n W hs)"
proof -
  have "fst (Snapshot s) = computeSnapshot s"
    using assms by (auto simp: Snapshot_def Let_def holds_history_def)
  also have "\<dots> = snapshot_of (take (st_count s) (ring s))" by (rule computeSnapshot_ring [OF assms])
  also have "\<dots> = snapshot_of (last_n W hs)" by (rule snapshot_of_mset [OF ring_mset [OF assms]])
  finally show ?thesis .
qed

lemma p90_index_eq: "0 < n \<Longrightarrow> p90_index n = (9 * n + 9) div 10 - 1"
proof -
  assume n: "0 < n"
  have "\<lceil>real n * (9 / 10)\<rceil> = int ((9 * n + 9) div 10)"
  proof (rule ceiling_unique)
    have "10 * ((9 * n + 9) div 10) \<le> 9 * n + 9" "9 * n < 10 * ((9 * n + 9) div 10) + 1" by linarith+
    then have "10 * real ((9 * n + 9) div 10) \<le> 9 * real n + 9" "9 * real n < 10 * real ((9 * n + 9) div 10) + 1"
      by linarith+
    then show "real_of_int (int ((9 * n + 9) div 10)) - 1 < real n * (9 / 10)"
      "real n * (9 / 10) \<le> real_of_int (int ((9 * n + 9) div 10))" by linarith+
  qed
  moreover have "1 \<le> (9 * n + 9) div 10" "(9 * n + 9) div 10 \<le> n" using n by linarith+
  ultimately show ?thesis by (simp add: p90_index_def Let_def)
qed

text \<open>The reported latency is one of the samples and at least nine tenths of them are no larger.\<close>

lemma p90_rank:
  assumes "xs \<noteq> []"
  shows "sort xs ! p90_index (length xs) \<in> set xs"
    and "9 * length xs \<le> 10 * length (filter (\<lambda>x. x \<le> sort xs ! p90_index (length xs)) xs)"
proof -
  let ?n = "length xs" and ?i = "p90_index (length xs)"
  have i: "?i = (9 * ?n + 9) div 10 - 1" "?i < ?n" "9 * ?n \<le> 10 * (?i + 1)"
  proof -
    have n: "0 < ?n" using assms by simp
    define m where "m = (9 * ?n + 9) div 10"
    have m: "1 \<le> m" "9 * ?n \<le> 10 * m" "m \<le> ?n" unfolding m_def using n by linarith+
    have i: "?i = m - 1" unfolding m_def by (rule p90_index_eq [OF n])
    then show "?i = (9 * ?n + 9) div 10 - 1" by (simp add: m_def)
    from i m show "?i < ?n" "9 * ?n \<le> 10 * (?i + 1)" by simp_all
  qed
  then show "sort xs ! ?i \<in> set xs" by (metis length_sort nth_mem set_sort)
  let ?P = "\<lambda>x. x \<le> sort xs ! ?i"
  have "length (filter ?P xs) = length (filter ?P (sort xs))" by (metis mset_filter mset_sort size_mset)
  also have "\<dots> \<ge> length (filter ?P (take (?i + 1) (sort xs)))"
    by (metis append_take_drop_id filter_append length_append le_add1)
  also have "filter ?P (take (?i + 1) (sort xs)) = take (?i + 1) (sort xs)"
  proof (rule filter_True, rule ballI)
    fix x assume "x \<in> set (take (?i + 1) (sort xs))"
    then obtain k where "k < ?i + 1" "k < ?n" "x = sort xs ! k" by (auto simp: in_set_conv_nth)
    then show "x \<le> sort xs ! ?i" using i(2) sorted_nth_mono [of "sort xs" k ?i] by simp
  qed
  finally show "9 * ?n \<le> 10 * length (filter ?P xs)" using i by simp
qed

lemma recip_antimono: "0 \<le> a \<Longrightarrow> a \<le> b \<Longrightarrow> 0 \<le> w \<Longrightarrow> (1 / (1 + b)) * w \<le> (1 / (1 + a)) * (w::real)"
  by (intro mult_right_mono frac_le) auto

lemma recip_le: "0 \<le> a \<Longrightarrow> 0 \<le> w \<Longrightarrow> (1 / (1 + a)) * w \<le> (w::real)"
  using recip_antimono [of 0 a w] by simp

lemma latency_score_antimono:
  assumes "d \<le> d'" "0 \<le> (w::real)"
  shows "(if real_of_int d' / real_of_int second > 0 then (1 / (1 + real_of_int d' / real_of_int second)) * w else w) \<le>
         (if real_of_int d / real_of_int second > 0 then (1 / (1 + real_of_int d / real_of_int second)) * w else w)"
  using assms recip_antimono [of "real_of_int d / real_of_int second" "real_of_int d' / real_of_int second" w]
    recip_le [of "real_of_int d' / real_of_int second" w]
  by (auto simp: divide_right_mono)


section \<open>Properties\<close>

text \<open>C21.  The ring buffer is a sliding window: after any sequence of recorded requests and snapshot
  reads the snapshot (cached or recomputed) is the one of exactly the last \<open>windowSize\<close> recorded
  requests, with the window defaulting to 100 when it is not positive.\<close>

theorem score_window_exact:
  "fst (Snapshot (fold score_exec ops (NewScoreTracker w))) =
     snapshot_of (last_n (if w \<le> 0 then 100 else nat w) (recorded ops))"
  using Snapshot_history [OF holds_history_run [OF holds_history_new]] by simp

text \<open>With non-negative weights an upstream that is no worse in each measured quantity (error
  rate, latency, head lag, sync distance) scores at least as high.\<close>

theorem score_antitone:
  assumes "0 \<le> we" "0 \<le> wl" "0 \<le> wh" "0 \<le> ws"
    and "er \<le> er'" "p \<le> p'" "hl \<le> hl'" "sd \<le> sd'"
  shows "calculateScore we wl wh ws er' p' hl' sd' \<le> calculateScore we wl wh ws er p hl sd"
proof -
  have "(1 - er') * we \<le> (1 - er) * we" using assms by (intro mult_right_mono) auto
  moreover have "(1 / (1 + real (unat hl'))) * wh \<le> (1 / (1 + real (unat hl))) * wh"
    "(1 / (1 + real (unat sd'))) * ws \<le> (1 / (1 + real (unat sd))) * ws"
    using recip_antimono [OF _ of_nat_mono, of "unat hl" "unat hl'" wh] recip_antimono [OF _ of_nat_mono, of "unat sd" "unat sd'" ws] assms
    unfolding word_le_nat_alt by (simp_all only: of_nat_0_le_iff simp_thms)
  moreover note latency_score_antimono [OF assms(6,2)]
  ultimately show ?thesis unfolding calculateScore_def Let_def by linarith
qed

lemma score_antitone_witness:
  "calculateScore 4 8 2 1 (1/2) (3 * second) 5 1 \<le> calculateScore 4 8 2 1 (1/4) second 2 1"
  by (rule score_antitone) simp_all

end
