(* ===== verification/Rate_Tuner.thy ===== *)
theory Rate_Tuner
  imports Config_Types
begin

text \<open>
  The send-rate tuner of upstream/ratelimit.go.  The token bucket it drives (golang.org/x/time/rate)
  is code outside the repository: a limiter is the history of the calls made on it, and what it
  answers, the number of tokens at an instant, is a parameter of the definitions that ask.

  The lemmas show that the rate stays inside the configured bounds once it is, and that the bucket
  is always told the current rate.
\<close>

section \<open>Operations\<close>

datatype limiter_call = NewLimiter real int | SetLimit real | SetBurst int | Allow time

type_synonym limiter = "limiter_call list"

record AutoTuner =
  limiter :: limiter
  totalCount :: int
  throttleCount :: int
  lastAdjust :: time
  adjustmentPeriod :: duration
  errorRateThreshold :: real
  increaseFactor :: real
  decreaseFactor :: real
  minRate :: real
  maxRate :: real
  currentRate :: real

text \<open>\<open>max(int(r), 1)\<close>: the conversion of a positive rate truncates.\<close>

definition burst_for :: "real \<Rightarrow> int" where
  "burst_for r = max (if 0 \<le> r then \<lfloor>r\<rfloor> else \<lceil>r\<rceil>) 1"

definition NewAutoTuner :: "time \<Rightarrow> real \<Rightarrow> real \<Rightarrow> real \<Rightarrow> duration \<Rightarrow> real \<Rightarrow> AutoTuner" where
  "NewAutoTuner now initialRate minR maxR period threshold =
     (let initialRate = (if initialRate \<le> 0 then 100 else initialRate);
          minR = (if minR \<le> 0 then 1 else minR);
          maxR = (if maxR \<le> 0 then 10000 else maxR);
          period = (if period \<le> 0 then minute else period);
          threshold = (if threshold \<le> 0 then 1/10 else threshold)
      in \<lparr>limiter = [NewLimiter initialRate (burst_for initialRate)], totalCount = 0, throttleCount = 0,
          lastAdjust = now, adjustmentPeriod = period, errorRateThreshold = threshold,
          increaseFactor = 105/100, decreaseFactor = 9/10, minRate = minR, maxRate = maxR, currentRate = initialRate\<rparr>)"

definition HasCapacity :: "(limiter \<Rightarrow> time \<Rightarrow> real) \<Rightarrow> time \<Rightarrow> AutoTuner \<Rightarrow> bool" where
  "HasCapacity tokens now tn \<longleftrightarrow> tokens (limiter tn) now \<ge> 1"

definition Consume :: "time \<Rightarrow> AutoTuner \<Rightarrow> AutoTuner" where
  "Consume now tn = tn\<lparr>limiter := limiter tn @ [Allow now]\<rparr>"

definition adjust :: "time \<Rightarrow> AutoTuner \<Rightarrow> AutoTuner" where
  "adjust now tn =
     (if totalCount tn = 0 then tn\<lparr>lastAdjust := now\<rparr>
      else let errRate = real_of_int (throttleCount tn) / real_of_int (totalCount tn);
               rate = (if errRate > errorRateThreshold tn then
                         let r = currentRate tn * decreaseFactor tn in if r < minRate tn then minRate tn else r
                       else let r = currentRate tn * increaseFactor tn in if r > maxRate tn then maxRate tn else r)
           in tn\<lparr>currentRate := rate, limiter := limiter tn @ [SetLimit rate, SetBurst (burst_for rate)],
                 totalCount := 0, throttleCount := 0, lastAdjust := now\<rparr>)"

definition RecordResponse :: "time \<Rightarrow> int \<Rightarrow> AutoTuner \<Rightarrow> AutoTuner" where
  "RecordResponse now statusCode tn =
     (let tn1 = tn\<lparr>totalCount := totalCount tn + 1,
                   throttleCount := (if statusCode = 429 then throttleCount tn + 1 else throttleCount tn)\<rparr>
      in if now - lastAdjust tn1 \<ge> adjustmentPeriod tn1 then adjust now tn1 else tn1)"


section \<open>Invariant\<close>

datatype tuner_op = Response time int | Send time

fun tuner_exec :: "tuner_op \<Rightarrow> AutoTuner \<Rightarrow> AutoTuner" where
  "tuner_exec (Response now code) tn = RecordResponse now code tn"
| "tuner_exec (Send now) tn = Consume now tn"

text \<open>The rate and burst the bucket was last told.\<close>

fun told :: "limiter \<Rightarrow> real \<times> int \<Rightarrow> real \<times> int" where
  "told [] rb = rb"
| "told (NewLimiter r b # cs) rb = told cs (r, b)"
| "told (SetLimit r # cs) rb = told cs (r, snd rb)"
| "told (SetBurst b # cs) rb = told cs (fst rb, b)"
| "told (Allow t # cs) rb = told cs rb"

definition tuner_inv :: "AutoTuner \<Rightarrow> bool" where
  "tuner_inv tn \<longleftrightarrow>
     0 < minRate tn \<and> minRate tn \<le> currentRate tn \<and> currentRate tn \<le> maxRate tn \<and>
     1 \<le> increaseFactor tn \<and> decreaseFactor tn \<le> 1 \<and>
     0 \<le> throttleCount tn \<and> throttleCount tn \<le> totalCount tn \<and>
     told (limiter tn) (0, 0) = (currentRate tn, burst_for (currentRate tn))"

lemma told_append: "told (xs @ ys) rb = told ys (told xs rb)"
  by (induction xs rb rule: told.induct) auto

lemma tuner_inv_adjust:
  assumes "tuner_inv tn"
  shows "tuner_inv (adjust now tn)"
proof -
  have "0 \<le> currentRate tn" "1 \<le> increaseFactor tn" "decreaseFactor tn \<le> 1"
    using assms by (auto simp: tuner_inv_def)
  then have "currentRate tn \<le> currentRate tn * increaseFactor tn" "currentRate tn * decreaseFactor tn \<le> currentRate tn"
    by (simp_all add: mult_left_le mult_le_cancel_left1)
  then have "minRate tn \<le> currentRate tn * increaseFactor tn" "currentRate tn * decreaseFactor tn \<le> maxRate tn"
    using assms unfolding tuner_inv_def by linarith+
  with assms show ?thesis by (auto simp: tuner_inv_def adjust_def Let_def told_append)
qed

lemma tuner_inv_RecordResponse:
  assumes "tuner_inv tn"
  shows "tuner_inv (RecordResponse now code tn)"
proof -
  have "tuner_inv (tn\<lparr>totalCount := totalCount tn + 1, throttleCount := (if code = 429 then throttleCount tn + 1 else throttleCount tn)\<rparr>)"
    using assms by (auto simp: tuner_inv_def)
  then show ?thesis by (simp add: RecordResponse_def Let_def tuner_inv_adjust)
qed

lemma tuner_inv_exec: "tuner_inv tn \<Longrightarrow> tuner_inv (tuner_exec op tn)"
  by (cases op) (auto simp: tuner_inv_RecordResponse, auto simp: tuner_inv_def Consume_def told_append)

lemma tuner_inv_fold: "tuner_inv tn \<Longrightarrow> tuner_inv (fold tuner_exec ops tn)"
  by (induction ops arbitrary: tn) (auto intro: tuner_inv_exec)

lemma tuner_bounds_const:
  "minRate (fold tuner_exec ops tn) = minRate tn \<and> maxRate (fold tuner_exec ops tn) = maxRate tn"
proof (induction ops arbitrary: tn)
  case (Cons op ops)
  have "minRate (tuner_exec op tn) = minRate tn \<and> maxRate (tuner_exec op tn) = maxRate tn"
    by (cases op) (simp_all add: RecordResponse_def adjust_def Consume_def Let_def)
  with Cons show ?case by simp
qed simp


section \<open>Properties\<close>

text \<open>C22.  A tuner whose configured rates are positive and ordered, minimum, initial, maximum, keeps
  its rate between the minimum and the maximum through every sequence of sends and responses, and
  the token bucket always runs at exactly that rate with the burst that belongs to it.\<close>

theorem tuner_rate_bounded:
  assumes "0 < lo" "lo \<le> r0" "r0 \<le> hi"
  shows "let tn = fold tuner_exec ops (NewAutoTuner now r0 lo hi period thr) in
    lo \<le> currentRate tn \<and> currentRate tn \<le> hi \<and> told (limiter tn) (0, 0) = (currentRate tn, burst_for (currentRate tn))"
proof -
  let ?a = "NewAutoTuner now r0 lo hi period thr"
  have "tuner_inv ?a" "minRate ?a = lo" "maxRate ?a = hi"
    using assms by (auto simp: tuner_inv_def NewAutoTuner_def Let_def)
  with tuner_inv_fold [of ?a ops] tuner_bounds_const [of ops ?a] show ?thesis
    by (simp add: tuner_inv_def Let_def)
qed

lemma tuner_rate_bounded_witness:
  "let tn = fold tuner_exec [Send 1, Response 2 429, Response 99 200] (NewAutoTuner 0 50 10 60 30 (1/10)) in
    10 \<le> currentRate tn \<and> currentRate tn \<le> 60 \<and> told (limiter tn) (0, 0) = (currentRate tn, burst_for (currentRate tn))"
  by (rule tuner_rate_bounded) simp_all

text \<open>The constructor does not clamp the initial rate, and a decrease is checked against the
  minimum only: a tuner configured with a maximum of 100 and an initial rate of 500 sends at 450
  after its first throttled period.\<close>

theorem tuner_exceeds_maximum:
  "currentRate (RecordResponse minute 429 (NewAutoTuner 0 500 1 100 minute (1/10))) = 450 \<and>
   maxRate (RecordResponse minute 429 (NewAutoTuner 0 500 1 100 minute (1/10))) = 100"
  by (simp add: RecordResponse_def adjust_def NewAutoTuner_def Let_def)

end
