(* ===== verification/Selector.thy ===== *)
theory Selector
  imports Go_Prelude
begin

text \<open>
  Upstream selectors (upstream/selector.go) and the shell-pattern matcher \<open>path.Match\<close> of the
  standard library they use.  A pattern is first read into a list of tokens, failing where the library
  reports \<open>ErrBadPattern\<close>; the code discards that error, so a malformed pattern matches nothing.
  Names are byte strings: \<open>?\<close> and a class consume one byte, which is one character for the ASCII
  names that upstream ids are restricted to.
\<close>

section \<open>Package path: Match\<close>

datatype glob_tok = GStar | GAny | GChar char | GClass bool "(char \<times> char) list"

text \<open>\<open>getEsc\<close>: one possibly escaped character of a class, after which more pattern must follow.\<close>

fun getEsc :: "string \<Rightarrow> (char \<times> string) option" where
  "getEsc [] = None"
| "getEsc (c # cs) =
     (if c = CHR ''-'' \<or> c = CHR '']'' then None
      else if c = CHR 0x5C then
        (case cs of [] \<Rightarrow> None | d # ds \<Rightarrow> if ds = [] then None else Some (d, ds))
      else if cs = [] then None else Some (c, cs))"

lemma getEsc_shorter: "getEsc cs = Some (c, ds) \<Longrightarrow> length ds < length cs"
  by (cases cs rule: getEsc.cases) (auto split: if_splits list.splits)

declare getEsc.simps [simp del]

text \<open>The ranges of a class up to its closing bracket; at least one is required.\<close>

function class_ranges :: "string \<Rightarrow> (char \<times> char) list \<Rightarrow> ((char \<times> char) list \<times> string) option" where
  "class_ranges cs acc =
     (case cs of
        c # ds \<Rightarrow>
          if c = CHR '']'' \<and> acc \<noteq> [] then Some (rev acc, ds)
          else (case getEsc cs of
                  None \<Rightarrow> None
                | Some (lo, rest) \<Rightarrow>
                    (case rest of
                       d # rest' \<Rightarrow>
                         if d = CHR ''-'' then
                           (case getEsc rest' of
                              None \<Rightarrow> None
                            | Some (hi, rest'') \<Rightarrow> class_ranges rest'' ((lo, hi) # acc))
                         else class_ranges rest ((lo, lo) # acc)
                     | [] \<Rightarrow> None))
      | [] \<Rightarrow> None)"
  by pat_completeness auto

termination class_ranges
  by (relation "measure (\<lambda>(cs, acc). length cs)") (auto dest!: getEsc_shorter)

declare class_ranges.simps [simp del]

lemma class_ranges_cases:
  assumes "class_ranges cs acc = Some (rs, rest)"
  obtains (close) c where "cs = c # rest"
  | (range) lo r' hi r'' where "getEsc cs = Some (lo, CHR ''-'' # r')" "getEsc r' = Some (hi, r'')"
      "class_ranges r'' ((lo, hi) # acc) = Some (rs, rest)"
  | (single) lo r' where "getEsc cs = Some (lo, r')" "class_ranges r' ((lo, lo) # acc) = Some (rs, rest)"
  using assms
  by (subst (asm) class_ranges.simps) (auto split: list.splits if_splits option.splits)

lemma class_ranges_shorter: "class_ranges cs acc = Some (rs, rest) \<Longrightarrow> length rest < length cs"
proof (induction "length cs" arbitrary: cs acc rule: less_induct)
  case less
  from less.prems show ?case
  proof (cases rule: class_ranges_cases)
    case (range lo r' hi r'')
    then have "length r'' < length cs" using getEsc_shorter [of cs] getEsc_shorter [of r'] by fastforce
    with less.hyps range show ?thesis by fastforce
  next
    case (single lo r')
    then have "length r' < length cs" using getEsc_shorter by blast
    with less.hyps single show ?thesis by fastforce
  qed simp
qed

text \<open>The tokens of a pattern, \<^const>\<open>None\<close> for a malformed one.\<close>

function glob_tokens :: "string \<Rightarrow> glob_tok list option" where
  "glob_tokens [] = Some []"
| "glob_tokens (c # cs) =
     (if c = CHR ''*'' then map_option ((#) GStar) (glob_tokens cs)
      else if c = CHR ''?'' then map_option ((#) GAny) (glob_tokens cs)
      else if c = CHR 0x5C then
        (case cs of [] \<Rightarrow> None | d # ds \<Rightarrow> map_option ((#) (GChar d)) (glob_tokens ds))
      else if c = CHR ''['' then
        (let (neg, body) = (case cs of d # ds \<Rightarrow> if d = CHR ''^'' then (True, ds) else (False, cs) | [] \<Rightarrow> (False, cs))
         in case class_ranges body [] of
              None \<Rightarrow> None
            | Some (rs, rest) \<Rightarrow> map_option ((#) (GClass neg rs)) (glob_tokens rest))
      else map_option ((#) (GChar c)) (glob_tokens cs))"
  by pat_completeness auto

termination glob_tokens
  by (relation "measure length") (auto dest!: class_ranges_shorter split: list.splits if_splits)

fun tok_matches :: "glob_tok \<Rightarrow> char \<Rightarrow> bool" where
  "tok_matches GStar c = False"
| "tok_matches GAny c = (c \<noteq> CHR ''/'')"
| "tok_matches (GChar d) c = (c = d)"
| "tok_matches (GClass neg rs) c = ((\<exists>(lo, hi)\<in>set rs. lo \<le> c \<and> c \<le> hi) \<noteq> neg)"

fun toks_match :: "glob_tok list \<Rightarrow> string \<Rightarrow> bool" where
  "toks_match [] s = (s = [])"
| "toks_match (GStar # ts) [] = toks_match ts []"
| "toks_match (GStar # ts) (c # s) = (toks_match ts (c # s) \<or> c \<noteq> CHR ''/'' \<and> toks_match (GStar # ts) s)"
| "toks_match (t # ts) [] = False"
| "toks_match (t # ts) (c # s) = (tok_matches t c \<and> toks_match ts s)"

definition path_Match :: "string \<Rightarrow> string \<Rightarrow> bool" where
  "path_Match pattern name = (case glob_tokens pattern of None \<Rightarrow> False | Some ts \<Rightarrow> toks_match ts name)"


section \<open>Selectors\<close>

record Selector =
  sel_ID :: string
  sel_ClientType :: string
  sel_Glob :: string

definition ParseSelector :: "string \<Rightarrow> Selector" where
  "ParseSelector s =
     (if HasPrefix s ''client:'' then \<lparr>sel_ID = [], sel_ClientType = TrimPrefix s ''client:'', sel_Glob = []\<rparr>
      else if HasPrefix s ''glob:'' then \<lparr>sel_ID = [], sel_ClientType = [], sel_Glob = TrimPrefix s ''glob:''\<rparr>
      else if ContainsAny s ''*?['' then \<lparr>sel_ID = [], sel_ClientType = [], sel_Glob = s\<rparr>
      else \<lparr>sel_ID = s, sel_ClientType = [], sel_Glob = []\<rparr>)"

definition Enabled :: "Selector \<Rightarrow> bool" where
  "Enabled s \<longleftrightarrow> sel_ID s \<noteq> [] \<or> sel_ClientType s \<noteq> [] \<or> sel_Glob s \<noteq> []"

definition String :: "Selector \<Rightarrow> string" where
  "String s =
     (if sel_ClientType s \<noteq> [] then ''client:'' @ sel_ClientType s
      else if sel_Glob s \<noteq> [] then ''glob:'' @ sel_Glob s
      else sel_ID s)"

text \<open>\<open>Match\<close> reads of the upstream its client type and its id.\<close>

definition Match :: "Selector \<Rightarrow> string \<Rightarrow> string \<Rightarrow> bool" where
  "Match s clientType upstreamID =
     (if sel_ClientType s \<noteq> [] then clientType = sel_ClientType s
      else if sel_Glob s \<noteq> [] then path_Match (sel_Glob s) upstreamID
      else if sel_ID s \<noteq> [] then upstreamID = sel_ID s
      else True)"


section \<open>Lemmas\<close>

text \<open>A pattern without meta characters matches exactly itself.\<close>

lemma glob_tokens_literal:
  "\<not> ContainsAny s ''*?['' \<Longrightarrow> CHR 0x5C \<notin> set s \<Longrightarrow> glob_tokens s = Some (map GChar s)"
  by (induction s) (auto simp: ContainsAny_def)

lemma toks_match_literal: "toks_match (map GChar s) t \<longleftrightarrow> t = s"
proof (induction s arbitrary: t)
  case (Cons c s)
  then show ?case by (cases t) auto
qed simp

lemma path_Match_literal:
  "\<not> ContainsAny s ''*?['' \<Longrightarrow> CHR 0x5C \<notin> set s \<Longrightarrow> path_Match s t \<longleftrightarrow> t = s"
  by (simp add: path_Match_def glob_tokens_literal toks_match_literal)

lemma toks_match_star: "toks_match [GStar] s \<longleftrightarrow> CHR ''/'' \<notin> set s"
  by (induction s) auto

lemma toks_match_literal_append:
  "toks_match (map GChar p @ ts) s \<longleftrightarrow> (\<exists>t. s = p @ t \<and> toks_match ts t)"
proof (induction p arbitrary: s)
  case (Cons c p)
  then show ?case by (cases s) auto
qed simp

text \<open>The usual pattern, a literal prefix and a star.\<close>

lemma glob_tokens_literal_append:
  "\<not> ContainsAny p ''*?['' \<Longrightarrow> CHR 0x5C \<notin> set p \<Longrightarrow>
   glob_tokens (p @ q) = map_option ((@) (map GChar p)) (glob_tokens q)"
proof (induction p)
  case Nil
  then show ?case by (cases "glob_tokens q") auto
next
  case (Cons c p)
  then have "glob_tokens (p @ q) = map_option ((@) (map GChar p)) (glob_tokens q)"
    by (auto simp: ContainsAny_def)
  with Cons.prems show ?case by (cases "glob_tokens q") (auto simp: ContainsAny_def)
qed

lemma path_Match_prefix_star:
  assumes "\<not> ContainsAny p ''*?[''" "CHR 0x5C \<notin> set p"
  shows "path_Match (p @ ''*'') s \<longleftrightarrow> (\<exists>t. s = p @ t \<and> CHR ''/'' \<notin> set t)"
  using assms by (simp add: path_Match_def glob_tokens_literal_append toks_match_literal_append toks_match_star)

text \<open>A selector in the form the parser produces: one kind only, ids free of selector syntax.\<close>

definition canonical_selector :: "Selector \<Rightarrow> bool" where
  "canonical_selector s \<longleftrightarrow>
     (sel_ClientType s \<noteq> [] \<longrightarrow> sel_Glob s = [] \<and> sel_ID s = []) \<and>
     (sel_Glob s \<noteq> [] \<longrightarrow> sel_ID s = []) \<and>
     \<not> ContainsAny (sel_ID s) ''*?['' \<and> \<not> HasPrefix (sel_ID s) ''client:'' \<and> \<not> HasPrefix (sel_ID s) ''glob:''"

lemma canonical_ParseSelector: "canonical_selector (ParseSelector s)"
  by (auto simp: canonical_selector_def ParseSelector_def ContainsAny_def)


section \<open>Properties\<close>

text \<open>C23.  Printing a selector and parsing it back gives the same selector, for every selector the
  parser can produce: parsing is a retraction onto the canonical selectors.\<close>

theorem selector_roundtrip:
  "ParseSelector (String (ParseSelector s)) = ParseSelector s \<and>
   (canonical_selector x \<longrightarrow> ParseSelector (String x) = x)"
proof -
  have rt: "ParseSelector (String y) = y" if "canonical_selector y" for y
    using that by (cases y)
      (auto simp: canonical_selector_def ParseSelector_def String_def HasPrefix_def TrimPrefix_def)
  then show ?thesis using canonical_ParseSelector by blast
qed

lemma selector_roundtrip_witness:
  "ParseSelector (String \<lparr>sel_ID = [], sel_ClientType = [], sel_Glob = ''lh-*''\<rparr>) =
     \<lparr>sel_ID = [], sel_ClientType = [], sel_Glob = ''lh-*''\<rparr>"
  using selector_roundtrip [of "[]" "\<lparr>sel_ID = [], sel_ClientType = [], sel_Glob = ''lh-*''\<rparr>"]
  by (simp add: canonical_selector_def ContainsAny_def)

end
