(* ===== verification/Block_Cache.thy ===== *)
theory Block_Cache
  imports Config_Types
begin

text \<open>
  The fork detector of upstream/blockcache.go.  The slot map and the root map of the code share
  \<open>*Block\<close> pointers, and a vote recorded through the root map must be seen through the slot map, so
  the model has an explicit store: \<open>heap\<close> holds the blocks ever allocated and both maps hold
  addresses into it.  The set \<open>SeenBy\<close> (a map to bool whose entries are all true) is a list without
  duplicates.  A method's reading of the clock is its argument \<open>now\<close>.

  The lemmas show the representation invariant, that the two maps implement one abstract table of
  votes (\<open>votes_of\<close>), and that the canonical head is determined by that table: newest voted slot
  of the window, most votes, then smallest root.
\<close>

section \<open>State\<close>

record Block =
  b_Slot :: u64
  b_Root :: string
  b_ParentRoot :: string
  b_SeenBy :: "string list"
  b_FirstSeen :: time

definition remoteVoter :: string where "remoteVoter = ''@remote''"

record BlockCache =
  heap :: "Block list"
  slotMap :: "(u64 \<times> nat list) list"
  rootMap :: "(string \<times> nat) list"
  maxSlot :: u64
  followDistance :: u64
  maxHeadDistance :: u64
  genesisTime :: int
  secondsPerSlot :: int
  canonSlot :: u64
  canonRoot :: string

definition NewBlockCache :: "u64 \<Rightarrow> u64 \<Rightarrow> BlockCache" where
  "NewBlockCache fd mhd = \<lparr>heap = [], slotMap = [], rootMap = [], maxSlot = 0, followDistance = fd,
     maxHeadDistance = mhd, genesisTime = 0, secondsPerSlot = 0, canonSlot = 0, canonRoot = []\<rparr>"

definition SetSlotTiming :: "int \<Rightarrow> int \<Rightarrow> BlockCache \<Rightarrow> BlockCache" where
  "SetSlotTiming g s bc = bc\<lparr>genesisTime := g, secondsPerSlot := s\<rparr>"


section \<open>Operations\<close>

text \<open>The blocks at a slot, in the order they were appended; an absent key reads as nil.\<close>

definition slot_addrs :: "BlockCache \<Rightarrow> u64 \<Rightarrow> nat list" where
  "slot_addrs bc s = (case map_of (slotMap bc) s of None \<Rightarrow> [] | Some as \<Rightarrow> as)"

definition slot_blocks :: "BlockCache \<Rightarrow> u64 \<Rightarrow> Block list" where
  "slot_blocks bc s = map (\<lambda>a. heap bc ! a) (slot_addrs bc s)"

text \<open>The tolerated clock skew is ten minutes, here in seconds.\<close>

definition currentWallClockSlotLocked :: "time \<Rightarrow> BlockCache \<Rightarrow> u64 option" where
  "currentWallClockSlotLocked now bc =
     (if genesisTime bc \<le> 0 then None
      else let unix = now div second in
        if unix \<le> genesisTime bc then None
        else let slotSeconds = (if secondsPerSlot bc \<le> 0 then DefaultSecondsPerSlot else secondsPerSlot bc);
                 elapsed = unix - genesisTime bc + 600
             in Some (of_int elapsed div of_int slotSeconds))"

text \<open>
  One round of the vote count at a slot.  The comparison with \<open>best.Root\<close> on a tie reads a nil
  pointer only when the count is 0, and those blocks are skipped before.
\<close>

definition vote_count :: "bool \<Rightarrow> Block \<Rightarrow> int" where
  "vote_count countRemote b =
     (if \<not> countRemote \<and> remoteVoter \<in> set (b_SeenBy b) then int (length (b_SeenBy b)) - 1
      else int (length (b_SeenBy b)))"

definition consider_block :: "bool \<Rightarrow> Block \<Rightarrow> Block option \<times> int \<Rightarrow> Block option \<times> int" where
  "consider_block countRemote b acc =
     (case acc of (best, bestCount) \<Rightarrow>
        let count = vote_count countRemote b in
        if count = 0 then acc
        else if count > bestCount \<or>
                count = bestCount \<and> (case best of None \<Rightarrow> False | Some x \<Rightarrow> b_Root b < b_Root x)
             then (Some b, count)
        else acc)"

definition best_block :: "bool \<Rightarrow> Block list \<Rightarrow> Block option" where
  "best_block countRemote bs = fst (fold (consider_block countRemote) bs (None, 0))"

text \<open>The downward walk from the newest slot; the lower bound is computed in wrapping arithmetic.\<close>

function head_walk :: "bool \<Rightarrow> BlockCache \<Rightarrow> u64 \<Rightarrow> u64 \<times> string" where
  "head_walk countRemote bc s =
     (if s > 0 \<and> s > maxSlot bc - maxHeadDistance bc - 1 then
        case best_block countRemote (slot_blocks bc s) of
          Some b \<Rightarrow> (b_Slot b, b_Root b)
        | None \<Rightarrow> head_walk countRemote bc (s - 1)
      else (0, []))"
  by pat_completeness auto

termination head_walk
  by (relation "measure (\<lambda>(c, bc, s). unat s)") (auto intro: unat_minus_one_less)

definition canonicalHead :: "bool \<Rightarrow> BlockCache \<Rightarrow> u64 \<times> string" where
  "canonicalHead countRemote bc =
     (if maxSlot bc = 0 then (0, []) else head_walk countRemote bc (maxSlot bc))"

definition refreshCanonicalHeadLocked :: "BlockCache \<Rightarrow> BlockCache" where
  "refreshCanonicalHeadLocked bc =
     (let h = canonicalHead True bc in bc\<lparr>canonSlot := fst h, canonRoot := snd h\<rparr>)"

text \<open>\<open>AddBlock\<close> without its deferred refresh, and with it.\<close>

definition record_block :: "time \<Rightarrow> string \<Rightarrow> u64 \<Rightarrow> string \<Rightarrow> string \<Rightarrow> BlockCache \<Rightarrow> BlockCache" where
  "record_block now upstreamID slot rt parentRoot bc =
     (case map_of (rootMap bc) rt of
        Some a \<Rightarrow> bc\<lparr>heap := (heap bc)[a := (heap bc ! a)\<lparr>b_SeenBy := List.insert upstreamID (b_SeenBy (heap bc ! a))\<rparr>]\<rparr>
      | None \<Rightarrow>
          let a = length (heap bc);
              b = \<lparr>b_Slot = slot, b_Root = rt, b_ParentRoot = parentRoot, b_SeenBy = [upstreamID], b_FirstSeen = now\<rparr>
          in bc\<lparr>heap := heap bc @ [b],
                rootMap := AList.update rt a (rootMap bc),
                slotMap := AList.update slot (slot_addrs bc slot @ [a]) (slotMap bc)\<rparr>)"

definition AddBlock :: "time \<Rightarrow> string \<Rightarrow> u64 \<Rightarrow> string \<Rightarrow> string \<Rightarrow> BlockCache \<Rightarrow> BlockCache" where
  "AddBlock now upstreamID slot rt parentRoot bc =
     (if (case currentWallClockSlotLocked now bc of None \<Rightarrow> False | Some currentSlot \<Rightarrow> slot > currentSlot) then bc
      else let bc1 = (if slot > maxSlot bc then bc\<lparr>maxSlot := slot\<rparr> else bc)
           in refreshCanonicalHeadLocked (record_block now upstreamID slot rt parentRoot bc1))"

definition CanonicalHead :: "BlockCache \<Rightarrow> u64 \<times> string" where
  "CanonicalHead bc = (canonSlot bc, canonRoot bc)"

definition LocalCanonicalHead :: "BlockCache \<Rightarrow> u64 \<times> string" where
  "LocalCanonicalHead bc = canonicalHead False bc"

text \<open>A nil result is \<^const>\<open>None\<close>.\<close>

definition CanonicalHeadSeenBy :: "BlockCache \<Rightarrow> string list option" where
  "CanonicalHeadSeenBy bc =
     (if canonRoot bc = [] then None
      else case map_of (rootMap bc) (canonRoot bc) of
        None \<Rightarrow> None
      | Some a \<Rightarrow>
          if b_SeenBy (heap bc ! a) = [] then None
          else let out = filter (\<lambda>i. i \<noteq> remoteVoter) (b_SeenBy (heap bc ! a))
               in if out = [] then None else Some out)"

datatype fork_status = Fork_canonical | Fork_forked | Fork_lagging

function near_walk :: "BlockCache \<Rightarrow> string \<Rightarrow> u64 \<Rightarrow> fork_status" where
  "near_walk bc upstreamID s =
     (if s > 0 \<and> canonSlot bc - s \<le> maxHeadDistance bc then
        if \<exists>b\<in>set (slot_blocks bc s). upstreamID \<in> set (b_SeenBy b) then Fork_canonical
        else near_walk bc upstreamID (s - 1)
      else Fork_lagging)"
  by pat_completeness auto

termination near_walk
  by (relation "measure (\<lambda>(bc, u, s). unat s)") (auto intro: unat_minus_one_less)

definition seen_head :: "BlockCache \<Rightarrow> string \<Rightarrow> bool" where
  "seen_head bc upstreamID =
     (case map_of (rootMap bc) (canonRoot bc) of None \<Rightarrow> False | Some a \<Rightarrow> upstreamID \<in> set (b_SeenBy (heap bc ! a)))"

definition ForkStatus :: "BlockCache \<Rightarrow> string \<Rightarrow> fork_status" where
  "ForkStatus bc upstreamID =
     (if canonSlot bc = 0 then Fork_canonical
      else if seen_head bc upstreamID then Fork_canonical
      else if \<exists>b\<in>set (slot_blocks bc (canonSlot bc)). upstreamID \<in> set (b_SeenBy b) then Fork_forked
      else near_walk bc upstreamID (canonSlot bc - 1))"

definition IsOnCanonicalFork :: "BlockCache \<Rightarrow> string \<Rightarrow> bool" where
  "IsOnCanonicalFork bc upstreamID \<longleftrightarrow> ForkStatus bc upstreamID = Fork_canonical"

definition IsForked :: "BlockCache \<Rightarrow> string \<Rightarrow> bool" where
  "IsForked bc upstreamID \<longleftrightarrow> ForkStatus bc upstreamID = Fork_forked"

text \<open>One iteration of \<open>Cleanup\<close>'s range over the slot map, on the two maps.\<close>

definition drop_slot :: "Block list \<Rightarrow> u64 \<Rightarrow> u64 \<times> nat list \<Rightarrow> (u64 \<times> nat list) list \<times> (string \<times> nat) list
    \<Rightarrow> (u64 \<times> nat list) list \<times> (string \<times> nat) list" where
  "drop_slot h cutoff e maps =
     (case e of (slot, as) \<Rightarrow> case maps of (sm, rm) \<Rightarrow>
        if slot < cutoff then (AList.delete slot sm, fold (\<lambda>a. AList.delete (b_Root (h ! a))) as rm)
        else (sm, rm))"

definition drop_below :: "u64 \<Rightarrow> BlockCache \<Rightarrow> BlockCache" where
  "drop_below cutoff bc =
     (let (sm, rm) = fold (drop_slot (heap bc) cutoff) (slotMap bc) (slotMap bc, rootMap bc)
      in bc\<lparr>slotMap := sm, rootMap := rm\<rparr>)"

definition Cleanup :: "BlockCache \<Rightarrow> BlockCache" where
  "Cleanup bc =
     (if maxSlot bc \<le> followDistance bc then bc
      else refreshCanonicalHeadLocked (drop_below (maxSlot bc - followDistance bc) bc))"

definition MaxSlot :: "BlockCache \<Rightarrow> u64" where
  "MaxSlot bc = maxSlot bc"


section \<open>The abstract table of votes\<close>

text \<open>
  What the cache promises: a table from a block root to its slot and the set of voters, and the head
  that a window of slots and that table determine.
\<close>

type_synonym votes = "string \<Rightarrow> (u64 \<times> string set) option"

definition votes_of :: "BlockCache \<Rightarrow> votes" where
  "votes_of bc r = map_option (\<lambda>a. (b_Slot (heap bc ! a), set (b_SeenBy (heap bc ! a)))) (map_of (rootMap bc) r)"

definition add_vote :: "string \<Rightarrow> u64 \<Rightarrow> string \<Rightarrow> votes \<Rightarrow> votes" where
  "add_vote u slot r m = m(r \<mapsto> (case m r of None \<Rightarrow> (slot, {u}) | Some (s, V) \<Rightarrow> (s, insert u V)))"

definition drop_votes :: "u64 \<Rightarrow> votes \<Rightarrow> votes" where
  "drop_votes cutoff m r = (case m r of None \<Rightarrow> None | Some (s, V) \<Rightarrow> if s < cutoff then None else Some (s, V))"

definition tally :: "bool \<Rightarrow> string set \<Rightarrow> nat" where
  "tally countRemote V = card (if countRemote then V else V - {remoteVoter})"

definition candidate :: "votes \<Rightarrow> bool \<Rightarrow> (u64 \<Rightarrow> bool) \<Rightarrow> string \<Rightarrow> u64 \<Rightarrow> string set \<Rightarrow> bool" where
  "candidate m countRemote W r s V \<longleftrightarrow> m r = Some (s, V) \<and> W s \<and> tally countRemote V > 0"

text \<open>Candidate 1 loses to candidate 2: older slot, or fewer votes there, or the larger root on a tie.\<close>

definition at_most :: "bool \<Rightarrow> string \<times> u64 \<times> string set \<Rightarrow> string \<times> u64 \<times> string set \<Rightarrow> bool" where
  "at_most countRemote x y =
     (case x of (r', s', V') \<Rightarrow> case y of (r, s, V) \<Rightarrow>
        s' < s \<or> s' = s \<and> (tally countRemote V' < tally countRemote V \<or>
                              tally countRemote V' = tally countRemote V \<and> r \<le> r'))"

definition is_head :: "votes \<Rightarrow> bool \<Rightarrow> (u64 \<Rightarrow> bool) \<Rightarrow> u64 \<times> string \<Rightarrow> bool" where
  "is_head m countRemote W h \<longleftrightarrow>
     (if \<exists>r s V. candidate m countRemote W r s V
      then \<exists>V. candidate m countRemote W (snd h) (fst h) V \<and>
           (\<forall>r' s' V'. candidate m countRemote W r' s' V' \<longrightarrow> at_most countRemote (r', s', V') (snd h, fst h, V))
      else h = (0, []))"

text \<open>The window of slots a head is looked for in, in the code's arithmetic.\<close>

definition in_window :: "BlockCache \<Rightarrow> u64 \<Rightarrow> bool" where
  "in_window bc t \<longleftrightarrow> 0 < t \<and> t \<le> maxSlot bc \<and> maxSlot bc - maxHeadDistance bc - 1 < t"


text \<open>An upstream has a vote for some block of the slot.\<close>

definition voted :: "BlockCache \<Rightarrow> string \<Rightarrow> u64 \<Rightarrow> bool" where
  "voted bc u s \<longleftrightarrow> (\<exists>r V. votes_of bc r = Some (s, V) \<and> u \<in> V)"

text \<open>A slot beyond the wall clock, when the clock is known.\<close>

definition too_new :: "time \<Rightarrow> u64 \<Rightarrow> BlockCache \<Rightarrow> bool" where
  "too_new now slot bc \<longleftrightarrow> (case currentWallClockSlotLocked now bc of None \<Rightarrow> False | Some c \<Rightarrow> slot > c)"

text \<open>
  A history of reports and clean-ups, on the cache and on the abstract state: the newest slot and
  the table of votes.  The wall clock and the two distances are fixed for a cache.
\<close>

datatype bc_op = Report time string u64 string string | Tidy

fun bc_exec :: "bc_op \<Rightarrow> BlockCache \<Rightarrow> BlockCache" where
  "bc_exec (Report now u slot r p) bc = AddBlock now u slot r p bc"
| "bc_exec Tidy bc = Cleanup bc"

fun abs_exec :: "BlockCache \<Rightarrow> bc_op \<Rightarrow> u64 \<times> votes \<Rightarrow> u64 \<times> votes" where
  "abs_exec cfg (Report now u slot r p) (ms, m) =
     (if too_new now slot cfg then (ms, m) else (max ms slot, add_vote u slot r m))"
| "abs_exec cfg Tidy (ms, m) =
     (if ms \<le> followDistance cfg then (ms, m) else (ms, drop_votes (ms - followDistance cfg) m))"

text \<open>The fields no operation writes.\<close>

definition same_setup :: "BlockCache \<Rightarrow> BlockCache \<Rightarrow> bool" where
  "same_setup bc bc' \<longleftrightarrow> followDistance bc' = followDistance bc \<and> maxHeadDistance bc' = maxHeadDistance bc \<and>
     genesisTime bc' = genesisTime bc \<and> secondsPerSlot bc' = secondsPerSlot bc"


section \<open>The representation invariant\<close>

definition bc_rep :: "BlockCache \<Rightarrow> bool" where
  "bc_rep bc \<longleftrightarrow>
     distinct (map fst (slotMap bc)) \<and> distinct (map fst (rootMap bc)) \<and>
     (\<forall>r a. map_of (rootMap bc) r = Some a \<longrightarrow>
        a < length (heap bc) \<and> b_Root (heap bc ! a) = r \<and> a \<in> set (slot_addrs bc (b_Slot (heap bc ! a))) \<and>
        b_SeenBy (heap bc ! a) \<noteq> [] \<and> distinct (b_SeenBy (heap bc ! a)) \<and> b_Slot (heap bc ! a) \<le> maxSlot bc) \<and>
     (\<forall>s a. a \<in> set (slot_addrs bc s) \<longrightarrow>
        a < length (heap bc) \<and> b_Slot (heap bc ! a) = s \<and> map_of (rootMap bc) (b_Root (heap bc ! a)) = Some a)"

text \<open>And the cached head is the one a fresh walk computes.\<close>

definition bc_inv :: "BlockCache \<Rightarrow> bool" where
  "bc_inv bc \<longleftrightarrow> bc_rep bc \<and> CanonicalHead bc = canonicalHead True bc"

declare head_walk.simps [simp del] near_walk.simps [simp del]

lemma bc_rep_root:
  assumes "bc_rep bc" "map_of (rootMap bc) r = Some a"
  shows "a < length (heap bc)" "b_Root (heap bc ! a) = r" "a \<in> set (slot_addrs bc (b_Slot (heap bc ! a)))"
    "b_SeenBy (heap bc ! a) \<noteq> []" "distinct (b_SeenBy (heap bc ! a))" "b_Slot (heap bc ! a) \<le> maxSlot bc"
  using assms unfolding bc_rep_def by blast+

lemma bc_rep_slot:
  assumes "bc_rep bc" "a \<in> set (slot_addrs bc s)"
  shows "a < length (heap bc)" "b_Slot (heap bc ! a) = s" "map_of (rootMap bc) (b_Root (heap bc ! a)) = Some a"
  using assms unfolding bc_rep_def by blast+

lemma bc_rep_distinct:
  assumes "bc_rep bc"
  shows "distinct (map fst (slotMap bc))" "distinct (map fst (rootMap bc))"
  using assms by (simp_all add: bc_rep_def)

lemma bc_repI:
  assumes "distinct (map fst (slotMap bc))" "distinct (map fst (rootMap bc))"
    and "\<And>r a. map_of (rootMap bc) r = Some a \<Longrightarrow>
        a < length (heap bc) \<and> b_Root (heap bc ! a) = r \<and> a \<in> set (slot_addrs bc (b_Slot (heap bc ! a))) \<and>
        b_SeenBy (heap bc ! a) \<noteq> [] \<and> distinct (b_SeenBy (heap bc ! a)) \<and> b_Slot (heap bc ! a) \<le> maxSlot bc"
    and "\<And>s a. a \<in> set (slot_addrs bc s) \<Longrightarrow>
        a < length (heap bc) \<and> b_Slot (heap bc ! a) = s \<and> map_of (rootMap bc) (b_Root (heap bc ! a)) = Some a"
  shows "bc_rep bc"
  using assms unfolding bc_rep_def by blast

declare map_of_eq_Some_iff [simp del]

lemma insert_not_Nil [simp]: "List.insert x xs \<noteq> []"
  by (auto simp: List.insert_def)

lemma slot_blocks_iff:
  assumes "bc_rep bc"
  shows "b \<in> set (slot_blocks bc s) \<longleftrightarrow>
    (\<exists>a. map_of (rootMap bc) (b_Root b) = Some a \<and> heap bc ! a = b \<and> b_Slot b = s)"
proof
  assume "b \<in> set (slot_blocks bc s)"
  then obtain a where a: "a \<in> set (slot_addrs bc s)" "b = heap bc ! a" by (auto simp: slot_blocks_def)
  with bc_rep_slot [OF assms a(1)] show "\<exists>a. map_of (rootMap bc) (b_Root b) = Some a \<and> heap bc ! a = b \<and> b_Slot b = s"
    by blast
next
  assume "\<exists>a. map_of (rootMap bc) (b_Root b) = Some a \<and> heap bc ! a = b \<and> b_Slot b = s"
  then obtain a where a: "map_of (rootMap bc) (b_Root b) = Some a" "heap bc ! a = b" "b_Slot b = s" by blast
  with bc_rep_root(3) [OF assms a(1)] show "b \<in> set (slot_blocks bc s)" by (auto simp: slot_blocks_def)
qed


section \<open>Counting votes\<close>

lemma vote_count_tally:
  "distinct (b_SeenBy b) \<Longrightarrow> vote_count cr b = int (tally cr (set (b_SeenBy b)))"
  by (cases "b_SeenBy b") (auto simp: vote_count_def tally_def distinct_card card_Diff_singleton)

lemma vote_count_nonneg: "0 \<le> vote_count cr b"
  by (cases "b_SeenBy b") (auto simp: vote_count_def)

lemma fold_consider:
  "case fold (consider_block cr) bs (None, 0) of
     (None, n) \<Rightarrow> n = 0 \<and> (\<forall>b\<in>set bs. vote_count cr b = 0)
   | (Some x, n) \<Rightarrow> x \<in> set bs \<and> n = vote_count cr x \<and> 0 < n \<and>
       (\<forall>b\<in>set bs. vote_count cr b < n \<or> vote_count cr b = n \<and> b_Root x \<le> b_Root b)"
proof (induction bs rule: rev_induct)
  case Nil
  show ?case by simp
next
  case (snoc b bs)
  obtain best n where acc: "fold (consider_block cr) bs (None, 0) = (best, n)" by fastforce
  have step: "fold (consider_block cr) (bs @ [b]) (None, 0) = consider_block cr b (best, n)"
    by (simp add: acc)
  show ?case
    using snoc vote_count_nonneg [of cr b] unfolding acc step
    by (cases best) (auto simp: consider_block_def Let_def)
qed

lemma best_block_None: "best_block cr bs = None \<longleftrightarrow> (\<forall>b\<in>set bs. vote_count cr b = 0)"
  using fold_consider [where cr = cr and bs = bs]
  by (cases "fold (consider_block cr) bs (None, 0)") (force simp: best_block_def split: option.splits)

lemma best_block_Some:
  assumes "best_block cr bs = Some x"
  shows "x \<in> set bs" "0 < vote_count cr x"
    "b \<in> set bs \<Longrightarrow> vote_count cr b < vote_count cr x \<or> vote_count cr b = vote_count cr x \<and> b_Root x \<le> b_Root b"
  using assms fold_consider [where cr = cr and bs = bs] by (auto simp: best_block_def split: prod.splits option.splits)


section \<open>The head is determined by the votes\<close>

lemma is_head_cong:
  assumes "\<And>r s V. m r = Some (s, V) \<Longrightarrow> tally cr V > 0 \<Longrightarrow> W s = W' s"
  shows "is_head m cr W h = is_head m cr W' h"
proof -
  have "candidate m cr W = candidate m cr W'"
    using assms by (auto simp: candidate_def fun_eq_iff)
  then show ?thesis by (simp add: is_head_def)
qed

lemma is_head_unique: "is_head m cr W h \<Longrightarrow> is_head m cr W h' \<Longrightarrow> h = h'"
proof (cases "\<exists>r s V. candidate m cr W r s V")
  case True
  assume "is_head m cr W h" "is_head m cr W h'"
  with True obtain V V' where "candidate m cr W (snd h) (fst h) V" "candidate m cr W (snd h') (fst h') V'"
    and "at_most cr (snd h', fst h', V') (snd h, fst h, V)" "at_most cr (snd h, fst h, V) (snd h', fst h', V')"
    unfolding is_head_def by (metis (no_types, lifting))
  then show "h = h'"
    by (cases h; cases h') (simp add: at_most_def, metis order_antisym order_less_asym order_less_irrefl)
qed (simp add: is_head_def)

lemma votes_of_slot_block:
  assumes "bc_rep bc" "b \<in> set (slot_blocks bc s)"
  shows "votes_of bc (b_Root b) = Some (s, set (b_SeenBy b))" "distinct (b_SeenBy b)" "b_Slot b = s"
proof -
  from assms obtain a where a: "map_of (rootMap bc) (b_Root b) = Some a" "heap bc ! a = b" "b_Slot b = s"
    by (auto simp: slot_blocks_iff)
  with bc_rep_root(5) [OF assms(1) a(1)]
  show "votes_of bc (b_Root b) = Some (s, set (b_SeenBy b))" "distinct (b_SeenBy b)" "b_Slot b = s"
    by (simp_all add: votes_of_def)
qed

lemma votes_of_Some:
  assumes "bc_rep bc" "votes_of bc r = Some (s, V)"
  obtains b where "b \<in> set (slot_blocks bc s)" "b_Root b = r" "V = set (b_SeenBy b)" "distinct (b_SeenBy b)"
    "s \<le> maxSlot bc" "V \<noteq> {}"
proof -
  from assms(2) obtain a where a: "map_of (rootMap bc) r = Some a" "b_Slot (heap bc ! a) = s" "V = set (b_SeenBy (heap bc ! a))"
    by (auto simp: votes_of_def)
  note root = bc_rep_root [OF assms(1) a(1)]
  from root a show thesis by (intro that [of "heap bc ! a"]) (auto simp: slot_blocks_iff [OF assms(1)])
qed

lemma le_minus_one: "0 < (s::u64) \<Longrightarrow> t \<le> s - 1 \<longleftrightarrow> t \<le> s \<and> t \<noteq> s"
proof -
  assume s: "0 < s"
  then have "0 < unat s" by (simp add: word_less_nat_alt)
  then have "t \<le> s - 1 \<longleftrightarrow> unat t < unat s"
    unfolding word_le_nat_alt unat_minus_one_u64 [OF s] by linarith
  also have "\<dots> \<longleftrightarrow> t < s" by (simp add: word_less_nat_alt)
  finally show ?thesis by (simp add: order_less_le)
qed

lemma head_walk_best:
  assumes rep: "bc_rep bc" and best: "best_block cr (slot_blocks bc s) = Some b" and W: "W s"
    and below: "\<And>t. W t \<Longrightarrow> t \<le> s"
  shows "is_head (votes_of bc) cr W (b_Slot b, b_Root b)"
proof -
  note bb = best_block_Some [OF best]
  note vb = votes_of_slot_block [OF rep bb(1)]
  have c: "candidate (votes_of bc) cr W (b_Root b) s (set (b_SeenBy b))"
    using bb(2) vb W by (simp add: candidate_def vote_count_tally)
  have top: "at_most cr (r', s', V') (b_Root b, s, set (b_SeenBy b))"
    if cand: "candidate (votes_of bc) cr W r' s' V'" for r' s' V'
  proof (cases "s' = s")
    case True
    with cand have "votes_of bc r' = Some (s, V')" by (simp add: candidate_def)
    from votes_of_Some [OF rep this] obtain b' where b': "b' \<in> set (slot_blocks bc s)" "b_Root b' = r'"
        "V' = set (b_SeenBy b')" "distinct (b_SeenBy b')" by blast
    from bb(3) [OF b'(1)] vb(2) b' show ?thesis
      by (simp add: at_most_def True vote_count_tally)
  next
    case False
    with cand below [of s'] have "s' < s" by (auto simp: candidate_def)
    then show ?thesis by (simp add: at_most_def)
  qed
  have "\<exists>r s V. candidate (votes_of bc) cr W r s V" using c by blast
  moreover have "\<exists>V. candidate (votes_of bc) cr W (b_Root b) s V \<and>
      (\<forall>r' s' V'. candidate (votes_of bc) cr W r' s' V' \<longrightarrow> at_most cr (r', s', V') (b_Root b, s, V))"
    using c top by blast
  ultimately show ?thesis by (simp add: is_head_def vb(3))
qed

lemma head_walk_is_head:
  assumes "bc_rep bc"
  shows "is_head (votes_of bc) cr (\<lambda>t. 0 < t \<and> maxSlot bc - maxHeadDistance bc - 1 < t \<and> t \<le> s) (head_walk cr bc s)"
  using assms
proof (induction cr bc s rule: head_walk.induct)
  case (1 cr bc s)
  let ?W = "\<lambda>s t. 0 < t \<and> maxSlot bc - maxHeadDistance bc - 1 < t \<and> t \<le> s"
  show ?case
  proof (cases "s > 0 \<and> s > maxSlot bc - maxHeadDistance bc - 1")
    case False
    then have "\<not> candidate (votes_of bc) cr (?W s) r t V" for r t V by (auto simp: candidate_def)
    with False show ?thesis by (auto simp: is_head_def head_walk.simps [of cr bc s])
  next
    case True
    show ?thesis
    proof (cases "best_block cr (slot_blocks bc s)")
      case (Some b)
      with True show ?thesis
        using head_walk_best [OF 1(2) Some, of "?W s"] by (simp add: head_walk.simps [of cr bc s])
    next
      case None
      have "is_head (votes_of bc) cr (?W (s - 1)) h = is_head (votes_of bc) cr (?W s) h" for h
      proof (rule is_head_cong)
        fix r t V assume v: "votes_of bc r = Some (t, V)" "tally cr V > 0"
        have "t \<noteq> s"
        proof
          assume "t = s"
          with votes_of_Some [OF 1(2) v(1)] obtain b
            where "b \<in> set (slot_blocks bc s)" "V = set (b_SeenBy b)" "distinct (b_SeenBy b)" by blast
          with None v(2) show False by (auto simp: best_block_None vote_count_tally)
        qed
        with True show "?W (s - 1) t = ?W s t" by (auto simp: le_minus_one)
      qed
      with 1(1) [OF True None 1(2)] True None show ?thesis by (simp add: head_walk.simps [of cr bc s])
    qed
  qed
qed

lemma canonicalHead_is_head:
  assumes "bc_rep bc"
  shows "is_head (votes_of bc) cr (in_window bc) (canonicalHead cr bc)"
proof (cases "maxSlot bc = 0")
  case True
  then show ?thesis by (auto simp: canonicalHead_def is_head_def candidate_def in_window_def)
next
  case False
  have "in_window bc = (\<lambda>t. 0 < t \<and> maxSlot bc - maxHeadDistance bc - 1 < t \<and> t \<le> maxSlot bc)"
    by (auto simp: in_window_def)
  with False head_walk_is_head [OF assms, of cr "maxSlot bc"] show ?thesis by (simp add: canonicalHead_def)
qed

lemma canonicalHead_iff:
  "bc_rep bc \<Longrightarrow> canonicalHead cr bc = h \<longleftrightarrow> is_head (votes_of bc) cr (in_window bc) h"
  using canonicalHead_is_head is_head_unique by metis


section \<open>Every operation keeps the invariant and acts on the votes\<close>

lemma votes_of_simps [simp]:
  "votes_of (bc\<lparr>maxSlot := m\<rparr>) = votes_of bc"
  "votes_of (bc\<lparr>canonSlot := c, canonRoot := r\<rparr>) = votes_of bc"
  "slot_addrs (bc\<lparr>maxSlot := m\<rparr>) = slot_addrs bc"
  "slot_addrs (bc\<lparr>canonSlot := c, canonRoot := r\<rparr>) = slot_addrs bc"
  "slot_addrs (bc\<lparr>heap := h\<rparr>) = slot_addrs bc"
  by (auto simp: votes_of_def slot_addrs_def fun_eq_iff)

lemma bc_rep_refresh [simp]: "bc_rep (refreshCanonicalHeadLocked bc) = bc_rep bc"
  by (simp add: refreshCanonicalHeadLocked_def bc_rep_def Let_def)

lemma bc_rep_maxSlot: "bc_rep bc \<Longrightarrow> maxSlot bc \<le> m \<Longrightarrow> bc_rep (bc\<lparr>maxSlot := m\<rparr>)"
proof (rule bc_repI, goal_cases)
  case (3 r a)
  then show ?case using bc_rep_root [of bc r a] by (auto intro: order_trans)
next
  case (4 s a)
  then show ?case using bc_rep_slot [of bc a s] by simp
qed (simp_all add: bc_rep_distinct)

lemma slot_addrs_record:
  assumes "map_of (rootMap bc) r = None"
  shows "slot_addrs (record_block now u slot r p bc) t =
    (if t = slot then slot_addrs bc slot @ [length (heap bc)] else slot_addrs bc t)"
  using assms by (auto simp: record_block_def Let_def slot_addrs_def update_conv')

lemma bc_rep_record_old:
  assumes rep: "bc_rep bc" and r: "map_of (rootMap bc) r = Some a"
  shows "bc_rep (record_block now u slot r p bc)"
proof -
  let ?b = "(heap bc ! a)\<lparr>b_SeenBy := List.insert u (b_SeenBy (heap bc ! a))\<rparr>"
  let ?c = "bc\<lparr>heap := (heap bc)[a := ?b]\<rparr>"
  have nth: "(heap bc)[a := ?b] ! i = (if i = a then ?b else heap bc ! i)" for i
    using bc_rep_root(1) [OF rep r] by (simp add: nth_list_update)
  have "bc_rep ?c"
  proof (rule bc_repI)
    show "distinct (map fst (slotMap ?c))" "distinct (map fst (rootMap ?c))"
      using bc_rep_distinct [OF rep] by simp_all
    show "i < length (heap ?c) \<and> b_Root (heap ?c ! i) = r' \<and> i \<in> set (slot_addrs ?c (b_Slot (heap ?c ! i))) \<and>
        b_SeenBy (heap ?c ! i) \<noteq> [] \<and> distinct (b_SeenBy (heap ?c ! i)) \<and> b_Slot (heap ?c ! i) \<le> maxSlot ?c"
      if "map_of (rootMap ?c) r' = Some i" for r' i
    proof -
      have m: "map_of (rootMap bc) r' = Some i" using that by simp
      from bc_rep_root [OF rep m] show ?thesis by (auto simp: nth)
    qed
    show "i < length (heap ?c) \<and> b_Slot (heap ?c ! i) = s \<and> map_of (rootMap ?c) (b_Root (heap ?c ! i)) = Some i"
      if "i \<in> set (slot_addrs ?c s)" for s i
    proof -
      have m: "i \<in> set (slot_addrs bc s)" using that by simp
      from bc_rep_slot [OF rep m] show ?thesis by (auto simp: nth)
    qed
  qed
  then show ?thesis using r by (simp add: record_block_def)
qed

lemma bc_rep_record_new:
  assumes rep: "bc_rep bc" and r: "map_of (rootMap bc) r = None" and le: "slot \<le> maxSlot bc"
  shows "bc_rep (record_block now u slot r p bc)"
proof -
  let ?n = "length (heap bc)"
  let ?b = "\<lparr>b_Slot = slot, b_Root = r, b_ParentRoot = p, b_SeenBy = [u], b_FirstSeen = now\<rparr>"
  let ?c = "record_block now u slot r p bc"
  have h: "heap ?c = heap bc @ [?b]" and rm: "map_of (rootMap ?c) = (map_of (rootMap bc))(r \<mapsto> ?n)"
    and ms: "maxSlot ?c = maxSlot bc"
    and d: "distinct (map fst (slotMap ?c))" "distinct (map fst (rootMap ?c))"
    using r bc_rep_distinct [OF rep] by (simp_all add: record_block_def Let_def update_conv' distinct_update)
  note sa = slot_addrs_record [OF r]
  show ?thesis
  proof (rule bc_repI [OF d])
    show "i < length (heap ?c) \<and> b_Root (heap ?c ! i) = r' \<and> i \<in> set (slot_addrs ?c (b_Slot (heap ?c ! i))) \<and>
        b_SeenBy (heap ?c ! i) \<noteq> [] \<and> distinct (b_SeenBy (heap ?c ! i)) \<and> b_Slot (heap ?c ! i) \<le> maxSlot ?c"
      if "map_of (rootMap ?c) r' = Some i" for r' i
    proof (cases "r' = r")
      case True
      with that have "i = ?n" by (simp add: rm)
      with True le show ?thesis by (simp add: h sa ms)
    next
      case False
      with that have m: "map_of (rootMap bc) r' = Some i" by (simp add: rm)
      from bc_rep_root [OF rep m] show ?thesis by (auto simp: h sa ms nth_append)
    qed
    show "i < length (heap ?c) \<and> b_Slot (heap ?c ! i) = s \<and> map_of (rootMap ?c) (b_Root (heap ?c ! i)) = Some i"
      if "i \<in> set (slot_addrs ?c s)" for s i
    proof (cases "i = ?n")
      case True
      then have "i \<notin> set (slot_addrs bc s)" using bc_rep_slot(1) [OF rep, of i s] by auto
      with True that show ?thesis by (auto simp: h rm sa split: if_splits)
    next
      case False
      with that have m: "i \<in> set (slot_addrs bc s)" by (auto simp: sa split: if_splits)
      from bc_rep_slot [OF rep m] r show ?thesis by (auto simp: h rm nth_append)
    qed
  qed
qed

lemma bc_rep_record:
  "bc_rep bc \<Longrightarrow> slot \<le> maxSlot bc \<Longrightarrow> bc_rep (record_block now u slot r p bc)"
  by (cases "map_of (rootMap bc) r") (auto intro: bc_rep_record_old bc_rep_record_new)

lemma votes_of_record:
  assumes "bc_rep bc"
  shows "votes_of (record_block now u slot r p bc) = add_vote u slot r (votes_of bc)"
proof (cases "map_of (rootMap bc) r")
  case None
  have "votes_of (record_block now u slot r p bc) r' = add_vote u slot r (votes_of bc) r'" for r'
    using None bc_rep_root(1) [OF assms, of r']
    by (cases "map_of (rootMap bc) r'") (auto simp: record_block_def votes_of_def add_vote_def Let_def update_conv' nth_append)
  then show ?thesis by blast
next
  case (Some a)
  have inj: "map_of (rootMap bc) r' = Some a \<Longrightarrow> r' = r" for r'
    using bc_rep_root(2) [OF assms] Some by blast
  have "votes_of (record_block now u slot r p bc) r' = add_vote u slot r (votes_of bc) r'" for r'
    using Some inj [of r'] bc_rep_root(1) [OF assms Some]
    by (cases "map_of (rootMap bc) r'") (auto simp: record_block_def votes_of_def add_vote_def nth_list_update)
  then show ?thesis by blast
qed

lemma AddBlock_alt:
  "AddBlock now u slot r p bc =
     (if too_new now slot bc then bc
      else refreshCanonicalHeadLocked (record_block now u slot r p (bc\<lparr>maxSlot := max (maxSlot bc) slot\<rparr>)))"
  by (auto simp: AddBlock_def too_new_def max_def Let_def)

lemma canonicalHead_refresh [simp]: "canonicalHead cr (refreshCanonicalHeadLocked bc) = canonicalHead cr bc"
proof -
  have "head_walk cr (bc\<lparr>canonSlot := c, canonRoot := r\<rparr>) s = head_walk cr bc s" for c r s
  proof (induction cr bc s rule: head_walk.induct)
    case (1 cr bc s)
    then show ?case
      by (auto simp: head_walk.simps [of _ _ s] slot_blocks_def split: option.splits)
  qed
  then show ?thesis by (simp add: refreshCanonicalHeadLocked_def canonicalHead_def Let_def)
qed

lemma CanonicalHead_refresh [simp]: "CanonicalHead (refreshCanonicalHeadLocked bc) = canonicalHead True bc"
  by (simp add: refreshCanonicalHeadLocked_def CanonicalHead_def Let_def)

lemma bc_inv_refresh [simp]: "bc_inv (refreshCanonicalHeadLocked bc) = bc_rep bc"
  by (simp add: bc_inv_def)

lemma bc_inv_AddBlock: "bc_inv bc \<Longrightarrow> bc_inv (AddBlock now u slot r p bc)"
  by (auto simp: AddBlock_alt bc_inv_def [of bc] intro!: bc_rep_record bc_rep_maxSlot)

lemma votes_of_refresh [simp]: "votes_of (refreshCanonicalHeadLocked bc) = votes_of bc"
  by (simp add: refreshCanonicalHeadLocked_def Let_def)

lemma votes_of_AddBlock:
  "bc_inv bc \<Longrightarrow> votes_of (AddBlock now u slot r p bc) =
     (if too_new now slot bc then votes_of bc else add_vote u slot r (votes_of bc))"
  by (simp add: AddBlock_alt bc_inv_def bc_rep_maxSlot votes_of_record)


lemma delete_filter: "AList.delete k xs = filter (\<lambda>kv. fst kv \<noteq> k) xs"
  unfolding AList.delete_eq by (rule filter_cong) auto

lemma fold_delete_roots:
  "fold (\<lambda>a. AList.delete (f a)) as rm = filter (\<lambda>kv. fst kv \<notin> f ` set as) rm"
proof (induction as arbitrary: rm)
  case Nil
  then show ?case by simp
next
  case (Cons a as)
  have "fold (\<lambda>a. AList.delete (f a)) (a # as) rm = filter (\<lambda>kv. fst kv \<notin> f ` set as) (AList.delete (f a) rm)"
    by (simp only: fold_Cons comp_apply Cons)
  also have "\<dots> = filter (\<lambda>kv. fst kv \<notin> f ` set (a # as)) rm"
    unfolding delete_filter filter_filter by (rule filter_cong) auto
  finally show ?case .
qed

lemma fold_drop_slot:
  "fold (drop_slot h c) es (sm, rm) =
     (filter (\<lambda>kv. \<not> (fst kv < c \<and> fst kv \<in> fst ` set es)) sm,
      filter (\<lambda>kv. \<not> (\<exists>(s, as)\<in>set es. s < c \<and> (\<exists>a\<in>set as. b_Root (h ! a) = fst kv))) rm)"
proof (induction es arbitrary: sm rm)
  case Nil
  then show ?case by simp
next
  case (Cons e es)
  obtain s as where e: "e = (s, as)" by fastforce
  have step: "drop_slot h c e (sm, rm) =
      (filter (\<lambda>kv. \<not> (s < c \<and> fst kv = s)) sm,
       filter (\<lambda>kv. \<not> (s < c \<and> (\<exists>a\<in>set as. b_Root (h ! a) = fst kv))) rm)"
    by (auto simp: drop_slot_def e fold_delete_roots delete_filter intro!: filter_cong)
  show ?case
    unfolding fold_Cons comp_apply step Cons filter_filter
    by (intro arg_cong2 [where f = Pair] filter_cong) (auto simp: e)
qed

lemma drop_below_maps:
  assumes rep: "bc_rep bc"
  shows "slot_addrs (drop_below c bc) s = (if s < c then [] else slot_addrs bc s)"
    and "map_of (rootMap (drop_below c bc)) r = (case map_of (rootMap bc) r of None \<Rightarrow> None
           | Some a \<Rightarrow> if b_Slot (heap bc ! a) < c then None else Some a)"
    and "distinct (map fst (slotMap (drop_below c bc)))" "distinct (map fst (rootMap (drop_below c bc)))"
proof -
  note d = bc_rep_distinct [OF rep]
  have sm: "map_of (slotMap (drop_below c bc)) s = (if s < c then None else map_of (slotMap bc) s)"
    using map_of_filter_key [of "\<lambda>t. \<not> (t < c \<and> t \<in> fst ` set (slotMap bc))" "slotMap bc" s]
    by (auto simp: drop_below_def fold_drop_slot map_of_eq_None_iff)
  then show "slot_addrs (drop_below c bc) s = (if s < c then [] else slot_addrs bc s)"
    by (simp add: slot_addrs_def)
  let ?P = "\<lambda>r. \<exists>(s, as)\<in>set (slotMap bc). s < c \<and> (\<exists>a\<in>set as. b_Root (heap bc ! a) = r)"
  have P: "?P r \<longleftrightarrow> b_Slot (heap bc ! a) < c" if m: "map_of (rootMap bc) r = Some a" for a
  proof
    assume "?P r"
    then obtain s as a' where *: "(s, as) \<in> set (slotMap bc)" "s < c" "a' \<in> set as" "b_Root (heap bc ! a') = r" by blast
    then have a': "a' \<in> set (slot_addrs bc s)" using d by (simp add: slot_addrs_def)
    with bc_rep_slot [OF rep a'] * m show "b_Slot (heap bc ! a) < c" by auto
  next
    assume lt: "b_Slot (heap bc ! a) < c"
    from bc_rep_root [OF rep m] have "a \<in> set (slot_addrs bc (b_Slot (heap bc ! a)))" by blast
    then obtain as where "(b_Slot (heap bc ! a), as) \<in> set (slotMap bc)" "a \<in> set as"
      by (auto simp: slot_addrs_def split: option.splits dest: map_of_SomeD [OF sym])
    with lt bc_rep_root(2) [OF rep m] show "?P r" by blast
  qed
  show "map_of (rootMap (drop_below c bc)) r = (case map_of (rootMap bc) r of None \<Rightarrow> None
           | Some a \<Rightarrow> if b_Slot (heap bc ! a) < c then None else Some a)"
    using map_of_filter_key [of "\<lambda>r. \<not> ?P r" "rootMap bc" r] P
    by (auto simp: drop_below_def fold_drop_slot split: option.splits)
  show "distinct (map fst (slotMap (drop_below c bc)))" "distinct (map fst (rootMap (drop_below c bc)))"
    using d by (simp_all add: drop_below_def fold_drop_slot distinct_fst_filter)
qed


lemma drop_below_simps [simp]:
  "heap (drop_below c bc) = heap bc" "maxSlot (drop_below c bc) = maxSlot bc"
  "followDistance (drop_below c bc) = followDistance bc" "maxHeadDistance (drop_below c bc) = maxHeadDistance bc"
  "genesisTime (drop_below c bc) = genesisTime bc" "secondsPerSlot (drop_below c bc) = secondsPerSlot bc"
  by (simp_all add: drop_below_def split: prod.splits)

lemma bc_rep_drop_below:
  assumes rep: "bc_rep bc"
  shows "bc_rep (drop_below c bc)"
proof (rule bc_repI)
  note m = drop_below_maps [OF rep, of c]
  show "distinct (map fst (slotMap (drop_below c bc)))" "distinct (map fst (rootMap (drop_below c bc)))"
    by (rule m)+
  let ?c = "drop_below c bc"
  show "a < length (heap ?c) \<and> b_Root (heap ?c ! a) = r \<and> a \<in> set (slot_addrs ?c (b_Slot (heap ?c ! a))) \<and>
      b_SeenBy (heap ?c ! a) \<noteq> [] \<and> distinct (b_SeenBy (heap ?c ! a)) \<and> b_Slot (heap ?c ! a) \<le> maxSlot ?c"
    if "map_of (rootMap ?c) r = Some a" for r a
  proof -
    have r: "map_of (rootMap bc) r = Some a" "\<not> b_Slot (heap bc ! a) < c"
      using that by (auto simp: m(2) split: option.splits if_splits)
    from bc_rep_root [OF rep r(1)] r(2) show ?thesis by (simp add: m(1))
  qed
  show "a < length (heap ?c) \<and> b_Slot (heap ?c ! a) = s \<and> map_of (rootMap ?c) (b_Root (heap ?c ! a)) = Some a"
    if "a \<in> set (slot_addrs ?c s)" for s a
  proof -
    have a: "a \<in> set (slot_addrs bc s)" "\<not> s < c" using that by (auto simp: m(1) split: if_splits)
    from bc_rep_slot [OF rep a(1)] a(2) show ?thesis by (simp add: m(2))
  qed
qed

lemma votes_of_drop_below:
  "bc_rep bc \<Longrightarrow> votes_of (drop_below c bc) = drop_votes c (votes_of bc)"
  by (auto simp: votes_of_def drop_votes_def fun_eq_iff drop_below_maps split: option.splits)

lemma bc_inv_Cleanup: "bc_inv bc \<Longrightarrow> bc_inv (Cleanup bc)"
  by (simp add: Cleanup_def bc_inv_def [of bc] bc_rep_drop_below)

lemma votes_of_Cleanup:
  "bc_inv bc \<Longrightarrow> votes_of (Cleanup bc) =
     (if maxSlot bc \<le> followDistance bc then votes_of bc
      else drop_votes (maxSlot bc - followDistance bc) (votes_of bc))"
  by (simp add: Cleanup_def bc_inv_def votes_of_drop_below)

lemma bc_inv_new: "bc_inv (SetSlotTiming g s (NewBlockCache fd mhd))"
  by (auto simp: bc_inv_def NewBlockCache_def SetSlotTiming_def canonicalHead_def CanonicalHead_def
      slot_addrs_def intro!: bc_repI)

lemma maxSlot_refresh [simp]: "maxSlot (refreshCanonicalHeadLocked bc) = maxSlot bc"
  by (simp add: refreshCanonicalHeadLocked_def Let_def)

lemma maxSlot_record [simp]: "maxSlot (record_block now u slot r p bc) = maxSlot bc"
  by (simp add: record_block_def Let_def split: option.splits)

lemma same_setup_refresh: "same_setup bc (refreshCanonicalHeadLocked bc)"
  by (simp add: same_setup_def refreshCanonicalHeadLocked_def Let_def)

lemma same_setup_trans: "same_setup a b \<Longrightarrow> same_setup b c \<Longrightarrow> same_setup a c"
  by (simp add: same_setup_def)

lemma same_setup_exec: "same_setup bc (bc_exec op bc)"
proof (cases op)
  case (Report now u slot r p)
  have "same_setup bc (record_block now u slot r p (bc\<lparr>maxSlot := m\<rparr>))" for m
    by (simp add: same_setup_def record_block_def Let_def split: option.splits)
  with Report show ?thesis
    by (auto simp: AddBlock_alt intro: same_setup_trans same_setup_refresh) (simp add: same_setup_def)
next
  case Tidy
  have "same_setup bc (drop_below c bc)" for c by (simp add: same_setup_def)
  with Tidy show ?thesis
    by (auto simp: Cleanup_def intro: same_setup_trans same_setup_refresh) (simp add: same_setup_def)
qed

lemma too_new_setup: "same_setup a b \<Longrightarrow> too_new now slot b = too_new now slot a"
  by (simp add: same_setup_def too_new_def currentWallClockSlotLocked_def Let_def)

lemma bc_inv_exec: "bc_inv bc \<Longrightarrow> bc_inv (bc_exec op bc)"
  by (cases op) (simp_all add: bc_inv_AddBlock bc_inv_Cleanup)

lemma bc_exec_refines:
  assumes "bc_inv bc" "same_setup cfg bc"
  shows "(maxSlot (bc_exec op bc), votes_of (bc_exec op bc)) = abs_exec cfg op (maxSlot bc, votes_of bc)"
proof (cases op)
  case (Report now u slot r p)
  have "maxSlot (AddBlock now u slot r p bc) = (if too_new now slot bc then maxSlot bc else max (maxSlot bc) slot)"
    by (simp add: AddBlock_alt)
  with Report assms show ?thesis by (simp add: votes_of_AddBlock too_new_setup)
next
  case Tidy
  with assms show ?thesis by (simp add: votes_of_Cleanup) (simp add: Cleanup_def same_setup_def)
qed

lemma bc_run_refines:
  assumes "bc_inv bc" "same_setup cfg bc"
  shows "bc_inv (fold bc_exec ops bc) \<and> same_setup cfg (fold bc_exec ops bc) \<and>
    (maxSlot (fold bc_exec ops bc), votes_of (fold bc_exec ops bc)) = fold (abs_exec cfg) ops (maxSlot bc, votes_of bc)"
  using assms
proof (induction ops arbitrary: bc)
  case Nil
  then show ?case by simp
next
  case (Cons op ops)
  have "same_setup cfg (bc_exec op bc)" using Cons.prems(2) same_setup_exec same_setup_trans by blast
  with Cons.IH [of "bc_exec op bc"] Cons.prems show ?case
    by (simp add: bc_inv_exec bc_exec_refines)
qed


section \<open>Order independence, clean-up and the fork verdict\<close>

lemma add_vote_commute:
  "r = r' \<Longrightarrow> s = s' \<Longrightarrow> add_vote u s r (add_vote u' s' r' m) = add_vote u' s' r' (add_vote u s r m)"
  "r \<noteq> r' \<Longrightarrow> add_vote u s r (add_vote u' s' r' m) = add_vote u' s' r' (add_vote u s r m)"
  by (auto simp: add_vote_def fun_upd_def insert_commute split: option.splits)

lemma CanonicalHead_eqI:
  assumes "bc_inv a" "bc_inv b" "same_setup a b" "maxSlot a = maxSlot b" "votes_of a = votes_of b"
  shows "CanonicalHead a = CanonicalHead b"
proof -
  have "in_window a = in_window b" using assms(3,4) by (auto simp: in_window_def same_setup_def)
  then have "canonicalHead True a = canonicalHead True b"
    using assms canonicalHead_iff [of b True "canonicalHead True b"] by (simp add: canonicalHead_iff bc_inv_def)
  with assms show ?thesis by (simp add: bc_inv_def)
qed

lemma candidate_drop_votes:
  assumes "\<And>s. W s \<Longrightarrow> \<not> s < c"
  shows "is_head (drop_votes c m) cr W h = is_head m cr W h"
proof -
  have "candidate (drop_votes c m) cr W = candidate m cr W"
    using assms by (auto simp: candidate_def drop_votes_def fun_eq_iff split: option.splits)
  then show ?thesis by (simp add: is_head_def)
qed

lemma window_above_cutoff:
  assumes "maxHeadDistance bc \<le> followDistance bc" "\<not> maxSlot bc \<le> followDistance bc" "in_window bc s"
  shows "\<not> s < maxSlot bc - followDistance bc"
proof -
  let ?m = "maxSlot bc" and ?d = "maxHeadDistance bc" and ?f = "followDistance bc"
  have "?d < ?m" "?f < ?m" using assms by auto
  then have "unat (?m - ?d - 1) = unat ?m - unat ?d - 1" "unat (?m - ?f) = unat ?m - unat ?f"
    using unat_minus_one_u64 [of "?m - ?d"] unat_sub_u64 [of ?d ?m] unat_sub_u64 [of ?f ?m]
    by (auto simp: word_less_nat_alt word_le_nat_alt)
  with assms(1,3) \<open>?d < ?m\<close> show ?thesis
    by (auto simp: in_window_def word_less_nat_alt word_le_nat_alt)
qed

lemma wrapped_bound: "(m::u64) \<le> d \<Longrightarrow> m \<le> m - d - 1"
  by uint_arith

lemma voted_slot_blocks:
  "bc_rep bc \<Longrightarrow> (\<exists>b\<in>set (slot_blocks bc s). u \<in> set (b_SeenBy b)) \<longleftrightarrow> voted bc u s"
  unfolding voted_def using votes_of_slot_block votes_of_Some by metis

lemma near_walk_voted:
  assumes "bc_rep bc" "s < canonSlot bc"
  shows "near_walk bc u s =
    (if \<exists>t. 0 < t \<and> t \<le> s \<and> canonSlot bc - t \<le> maxHeadDistance bc \<and> voted bc u t then Fork_canonical else Fork_lagging)"
  using assms
proof (induction bc u s rule: near_walk.induct)
  case (1 bc u s)
  have dist: "canonSlot bc - s \<le> maxHeadDistance bc" if "canonSlot bc - t \<le> maxHeadDistance bc" "t \<le> s" for t
  proof -
    have "unat (canonSlot bc - t) = unat (canonSlot bc) - unat t" "unat (canonSlot bc - s) = unat (canonSlot bc) - unat s"
      using unat_sub_u64 [of t "canonSlot bc"] unat_sub_u64 [of s "canonSlot bc"] that(2) 1(3)
      by (auto simp: word_less_nat_alt word_le_nat_alt)
    with that show ?thesis by (simp add: word_le_nat_alt)
  qed
  show ?case
  proof (cases "s > 0 \<and> canonSlot bc - s \<le> maxHeadDistance bc \<and> \<not> voted bc u s")
    case True
    then have "near_walk bc u s = near_walk bc u (s - 1)"
      using 1(2) by (simp add: near_walk.simps [of bc u s] voted_slot_blocks)
    moreover have "s - 1 < canonSlot bc" using True 1(3) unat_minus_one_less [of s] by (auto simp: word_less_nat_alt)
    moreover have "(t \<le> s - 1 \<and> voted bc u t) = (t \<le> s \<and> voted bc u t)" for t
      using True le_minus_one [of s t] by auto
    ultimately show ?thesis
      using 1(1) True 1(2) by (simp add: voted_slot_blocks) metis
  next
    case False
    with 1(2) dist show ?thesis by (auto simp: near_walk.simps [of bc u s] voted_slot_blocks)
  qed
qed


section \<open>Properties\<close>


text \<open>C20.  The canonical head does not depend on the order in which upstreams report: for plausible
  reports in which each root is always reported at the same slot, every permutation of the reports
  gives the same head.\<close>

theorem fork_cache_order_independent:
  assumes "mset ops = mset ops'" and "bc_inv bc"
    and "\<forall>op\<in>set ops. \<exists>now u r p. op = Report now u (sl r) r p \<and> \<not> too_new now (sl r) bc"
  shows "CanonicalHead (fold bc_exec ops bc) = CanonicalHead (fold bc_exec ops' bc)"
proof -
  have "abs_exec bc op \<circ> abs_exec bc op' = abs_exec bc op' \<circ> abs_exec bc op"
    if "op \<in> set ops" "op' \<in> set ops" for op op'
  proof -
    obtain now u r p where "op = Report now u (sl r) r p" using assms(3) \<open>op \<in> set ops\<close> by blast
    moreover obtain now' u' r' p' where "op' = Report now' u' (sl r') r' p'" using assms(3) \<open>op' \<in> set ops\<close> by blast
    ultimately show ?thesis
      by (cases "r = r'") (auto simp: fun_eq_iff max.assoc max.commute max.left_commute add_vote_commute [THEN fun_cong])
  qed
  with assms(1) have eq: "fold (abs_exec bc) ops = fold (abs_exec bc) ops'"
    by (intro fold_multiset_equiv)
  have self: "same_setup bc bc" by (simp add: same_setup_def)
  note a = bc_run_refines [OF assms(2) self, of ops] and b = bc_run_refines [OF assms(2) self, of ops']
  have "(maxSlot (fold bc_exec ops bc), votes_of (fold bc_exec ops bc)) =
      (maxSlot (fold bc_exec ops' bc), votes_of (fold bc_exec ops' bc))" using a b eq by metis
  then have "maxSlot (fold bc_exec ops bc) = maxSlot (fold bc_exec ops' bc)"
    and "votes_of (fold bc_exec ops bc) = votes_of (fold bc_exec ops' bc)" by simp_all
  with a b show ?thesis by (intro CanonicalHead_eqI) (simp_all add: same_setup_def)
qed

lemma fork_cache_order_independent_witness:
  "CanonicalHead (fold bc_exec [Report 1 ''a'' 9 ''x'' ''w'', Report 2 ''b'' 9 ''y'' ''w'', Report 3 ''c'' 9 ''y'' ''w''] (NewBlockCache 64 2)) =
   CanonicalHead (fold bc_exec [Report 3 ''c'' 9 ''y'' ''w'', Report 1 ''a'' 9 ''x'' ''w'', Report 2 ''b'' 9 ''y'' ''w''] (NewBlockCache 64 2))"
proof (rule fork_cache_order_independent [where sl = "\<lambda>_. 9"])
  show "bc_inv (NewBlockCache 64 2)"
    using bc_inv_new [of 0 0 64 2] by (simp add: SetSlotTiming_def NewBlockCache_def)
qed (simp_all add: too_new_def currentWallClockSlotLocked_def NewBlockCache_def)

text \<open>Clean-up never changes the canonical head when the head window is no longer than the
  retained history.\<close>

theorem cleanup_keeps_head:
  assumes "bc_inv bc" and "maxHeadDistance bc \<le> followDistance bc"
  shows "CanonicalHead (Cleanup bc) = CanonicalHead bc"
proof (cases "maxSlot bc \<le> followDistance bc")
  case True
  then show ?thesis by (simp add: Cleanup_def)
next
  case False
  let ?c = "drop_below (maxSlot bc - followDistance bc) bc"
  have rep: "bc_rep bc" "bc_rep ?c" using assms(1) bc_rep_drop_below by (auto simp: bc_inv_def)
  have "in_window ?c = in_window bc" by (auto simp: in_window_def)
  then have "canonicalHead True ?c = canonicalHead True bc"
    using rep window_above_cutoff [OF assms(2) False] canonicalHead_is_head [OF rep(1), of True]
    by (simp add: canonicalHead_iff votes_of_drop_below candidate_drop_votes)
  with False assms(1) show ?thesis by (simp add: Cleanup_def bc_inv_def)
qed

lemma cleanup_keeps_head_witness:
  "CanonicalHead (Cleanup (AddBlock 5 ''a'' 90 ''x'' ''w'' (NewBlockCache 64 2))) =
   CanonicalHead (AddBlock 5 ''a'' 90 ''x'' ''w'' (NewBlockCache 64 2))"
proof (rule cleanup_keeps_head)
  show "bc_inv (AddBlock 5 ''a'' 90 ''x'' ''w'' (NewBlockCache 64 2))"
    using bc_inv_new [of 0 0 64 2] by (intro bc_inv_AddBlock) (simp add: SetSlotTiming_def NewBlockCache_def)
qed (simp add: AddBlock_alt record_block_def refreshCanonicalHeadLocked_def NewBlockCache_def too_new_def
    currentWallClockSlotLocked_def Let_def)

text \<open>The fork verdict in terms of the votes.  With a canonical head known, an upstream that
  voted for the head is canonical; else one that voted for another block of the same slot is forked;
  else one with a vote at most \<open>maxHeadDistance\<close> slots below is canonical, whatever block that vote
  was for; else it is lagging.\<close>

theorem fork_status_spec:
  assumes "bc_inv bc" and "CanonicalHead bc = (s, r)" and "s \<noteq> 0"
  shows "ForkStatus bc u =
    (if \<exists>V. votes_of bc r = Some (s, V) \<and> u \<in> V then Fork_canonical
     else if voted bc u s then Fork_forked
     else if \<exists>t. 0 < t \<and> t < s \<and> s - t \<le> maxHeadDistance bc \<and> voted bc u t then Fork_canonical
     else Fork_lagging)"
proof -
  have rep: "bc_rep bc" and cs: "canonSlot bc = s" "canonRoot bc = r"
    and head: "is_head (votes_of bc) True (in_window bc) (s, r)"
    using assms canonicalHead_is_head [of bc True] by (auto simp: bc_inv_def CanonicalHead_def)
  from head assms(3) obtain V where V: "votes_of bc r = Some (s, V)"
    by (auto simp: is_head_def candidate_def split: if_splits)
  then have "seen_head bc u \<longleftrightarrow> (\<exists>V. votes_of bc r = Some (s, V) \<and> u \<in> V)"
    by (auto simp: seen_head_def cs votes_of_def split: option.splits)
  moreover have "(t \<le> s - 1) = (t < s)" for t
    using assms(3) le_minus_one [of s t] by (auto simp: word_neq_0_conv)
  moreover have "s - 1 < canonSlot bc"
    using assms(3) unat_minus_one_less [of s] by (simp add: cs word_neq_0_conv word_less_nat_alt)
  ultimately show ?thesis
    using assms(3) near_walk_voted [OF rep, of "s - 1" u] by (auto simp: ForkStatus_def cs voted_slot_blocks [OF rep])
qed

lemma fork_status_spec_witness:
  "ForkStatus (AddBlock 5 ''a'' 90 ''x'' ''w'' (NewBlockCache 64 2)) ''a'' = Fork_canonical"
proof -
  let ?bc = "AddBlock 5 ''a'' 90 ''x'' ''w'' (NewBlockCache 64 2)"
  have inv: "bc_inv ?bc"
    using bc_inv_new [of 0 0 64 2] by (intro bc_inv_AddBlock) (simp add: SetSlotTiming_def NewBlockCache_def)
  have "CanonicalHead ?bc = (90, ''x'')"
    by code_simp
  from fork_status_spec [OF inv this, of "''a''"] show ?thesis
    by (simp add: AddBlock_alt record_block_def refreshCanonicalHeadLocked_def NewBlockCache_def too_new_def
        currentWallClockSlotLocked_def Let_def votes_of_def)
qed

text \<open>Near genesis the lower bound of the head window wraps around: while the newest slot is at
  most \<open>maxHeadDistance\<close> no canonical head is ever found, whatever was reported, and every upstream
  counts as canonical.\<close>

theorem no_head_near_genesis:
  assumes "bc_inv bc" and "maxSlot bc \<le> maxHeadDistance bc"
  shows "CanonicalHead bc = (0, []) \<and> ForkStatus bc u = Fork_canonical"
proof -
  have "canonicalHead True bc = (0, [])"
    using wrapped_bound [OF assms(2)] by (auto simp: canonicalHead_def head_walk.simps [of True bc "maxSlot bc"])
  with assms(1) show ?thesis by (simp add: bc_inv_def CanonicalHead_def ForkStatus_def)
qed

lemma no_head_near_genesis_witness:
  "CanonicalHead (AddBlock 5 ''a'' 2 ''x'' ''w'' (NewBlockCache 64 2)) = (0, [])"
proof -
  have "bc_inv (AddBlock 5 ''a'' 2 ''x'' ''w'' (NewBlockCache 64 2))"
    using bc_inv_new [of 0 0 64 2] by (intro bc_inv_AddBlock) (simp add: SetSlotTiming_def NewBlockCache_def)
  from no_head_near_genesis [OF this] show ?thesis
    by (simp add: AddBlock_alt record_block_def refreshCanonicalHeadLocked_def NewBlockCache_def too_new_def
        currentWallClockSlotLocked_def Let_def)
qed

end
