(* ===== verification/Upstream.thy ===== *)
theory Upstream
  imports Config_Defaults Circuit_Breaker Scoring Rate_Tuner Selector Block_Cache
begin

text \<open>
  One upstream beacon node (upstream/upstream.go): its health as the two pollers see it, head and
  finality bookkeeping, scores, rate limiting, in-flight accounting, and the dispatch of a request
  under circuit-breaker admission.  The breaker's fields are the record of theory Circuit\_Breaker.
  Prometheus gauges and log lines are not modelled; the HTTP exchange is an argument of \<open>Do\<close>.

  The lemmas show that health is always the minimum of the two verdicts and that the in-flight counter
  is exactly the number of response bodies not yet closed.
\<close>

section \<open>State\<close>

datatype HealthStatus = HealthDown | HealthDegraded | HealthUp

text \<open>The constants are numbered in this order, and the code compares them by number.\<close>

fun health_rank :: "HealthStatus \<Rightarrow> nat" where
  "health_rank HealthDown = 0"
| "health_rank HealthDegraded = 1"
| "health_rank HealthUp = 2"

lemma health_rank_inj: "health_rank a = health_rank b \<longleftrightarrow> a = b"
  by (cases a; cases b) simp_all

instantiation HealthStatus :: linorder
begin

definition less_eq_HealthStatus :: "HealthStatus \<Rightarrow> HealthStatus \<Rightarrow> bool" where
  "less_eq_HealthStatus a b \<longleftrightarrow> health_rank a \<le> health_rank b"

definition less_HealthStatus :: "HealthStatus \<Rightarrow> HealthStatus \<Rightarrow> bool" where
  "less_HealthStatus a b \<longleftrightarrow> health_rank a < health_rank b"

instance
  by standard (auto simp: less_eq_HealthStatus_def less_HealthStatus_def health_rank_inj)

end

definition healthName :: "HealthStatus \<Rightarrow> string" where
  "healthName h = (case h of HealthDown \<Rightarrow> ''down'' | HealthDegraded \<Rightarrow> ''degraded'' | HealthUp \<Rightarrow> ''up'')"

definition ClientUnknown :: string where "ClientUnknown = ''unknown''"

definition minPathScopedScoreSamples :: int where "minPathScopedScoreSamples = 5"

record Upstream =
  u_ID :: string
  u_NetworkID :: string
  u_URL :: string
  u_Headers :: "(string \<times> string) list"
  u_Priority :: int
  u_Weight :: int
  u_Archive :: bool
  health :: HealthStatus
  nodeVerdict :: HealthStatus
  syncVerdict :: HealthStatus
  headSlot :: u64
  headRoot :: string
  payloadRoot :: string
  payloadFull :: bool
  syncDistance :: u64
  isSyncing :: bool
  u_finalizedEpoch :: u64
  clientType :: string
  brk :: breaker
  activeConns :: int
  scorer :: ScoreTracker
  routeScorers :: "(string \<times> ScoreTracker) list"
  rateLimiter :: "AutoTuner option"

definition New :: "time \<Rightarrow> string \<Rightarrow> UpstreamConfig \<Rightarrow> CircuitBreakerConfig option \<Rightarrow> int \<Rightarrow> Upstream" where
  "New now networkID cfg defaultCB scoreWindowSize =
     \<lparr>u_ID = uc_ID cfg, u_NetworkID = networkID, u_URL = TrimRightByte (CHR ''/'') (uc_URL cfg), u_Headers = uc_Headers cfg,
      u_Priority = uc_Priority cfg, u_Weight = uc_Weight cfg, u_Archive = uc_Archive cfg,
      health = HealthUp, nodeVerdict = HealthUp, syncVerdict = HealthUp,
      headSlot = 0, headRoot = [], payloadRoot = [], payloadFull = False, syncDistance = 0, isSyncing = False,
      u_finalizedEpoch = 0, clientType = ClientUnknown,
      brk = newBreaker (UpstreamCircuitBreaker defaultCB
              (case uc_Failsafe cfg of None \<Rightarrow> None | Some f \<Rightarrow> fs_CircuitBreaker f)),
      activeConns = 0, scorer = NewScoreTracker scoreWindowSize, routeScorers = [],
      rateLimiter = (case uc_RateLimiting cfg of
          None \<Rightarrow> None
        | Some rl \<Rightarrow> if url_AutoTune rl
            then Some (NewAutoTuner now (url_InitialRate rl) (url_MinRate rl) (url_MaxRate rl) (url_AdjustmentPeriod rl) (url_ErrorRateThreshold rl))
            else None)\<rparr>"


section \<open>Health and chain position\<close>

definition IsHealthy :: "Upstream \<Rightarrow> bool" where
  "IsHealthy u \<longleftrightarrow> health u \<noteq> HealthDown"

definition IsReady :: "time \<Rightarrow> Upstream \<Rightarrow> bool" where
  "IsReady now u \<longleftrightarrow> IsHealthy u \<and> cbCanRoute now (brk u)"

definition IsArchive :: "Upstream \<Rightarrow> bool" where
  "IsArchive u = u_Archive u"

definition recomputeHealthLocked :: "Upstream \<Rightarrow> Upstream" where
  "recomputeHealthLocked u = u\<lparr>health := min (nodeVerdict u) (syncVerdict u)\<rparr>"

definition SetHealth :: "HealthStatus \<Rightarrow> Upstream \<Rightarrow> Upstream" where
  "SetHealth h u = recomputeHealthLocked (u\<lparr>nodeVerdict := h, syncVerdict := h\<rparr>)"

definition setNodeVerdict :: "HealthStatus \<Rightarrow> Upstream \<Rightarrow> Upstream" where
  "setNodeVerdict v u = recomputeHealthLocked (u\<lparr>nodeVerdict := v\<rparr>)"

definition setSyncVerdict :: "HealthStatus \<Rightarrow> Upstream \<Rightarrow> Upstream" where
  "setSyncVerdict v u = recomputeHealthLocked (u\<lparr>syncVerdict := v\<rparr>)"

definition UpdateSyncStatus :: "bool \<Rightarrow> u64 \<Rightarrow> u64 \<Rightarrow> Upstream \<Rightarrow> Upstream" where
  "UpdateSyncStatus syncing slot distance u =
     recomputeHealthLocked (u\<lparr>isSyncing := syncing, headSlot := slot, syncDistance := distance,
       syncVerdict := (if syncing then HealthDegraded else HealthUp)\<rparr>)"

definition UpdateFinalizedEpoch :: "u64 \<Rightarrow> Upstream \<Rightarrow> Upstream" where
  "UpdateFinalizedEpoch epoch u = (if epoch > u_finalizedEpoch u then u\<lparr>u_finalizedEpoch := epoch\<rparr> else u)"

definition UpdateHeadBlock :: "u64 \<Rightarrow> string \<Rightarrow> Upstream \<Rightarrow> Upstream" where
  "UpdateHeadBlock slot r u = u\<lparr>headSlot := slot, headRoot := r\<rparr>"

definition SetHeadPayloadStatus :: "string \<Rightarrow> bool \<Rightarrow> Upstream \<Rightarrow> Upstream" where
  "SetHeadPayloadStatus r full u = u\<lparr>payloadRoot := r, payloadFull := full\<rparr>"

definition ClearHeadPayloadStatus :: "Upstream \<Rightarrow> Upstream" where
  "ClearHeadPayloadStatus u = u\<lparr>payloadRoot := []\<rparr>"

definition HeadPayloadStatus :: "Upstream \<Rightarrow> string" where
  "HeadPayloadStatus u =
     (if payloadRoot u = [] \<or> payloadRoot u \<noteq> headRoot u then ''unknown''
      else if payloadFull u then ''full'' else ''empty'')"

definition SetClientType :: "string \<Rightarrow> Upstream \<Rightarrow> Upstream" where
  "SetClientType ct u = u\<lparr>clientType := ct\<rparr>"

definition selects :: "Selector \<Rightarrow> Upstream \<Rightarrow> bool" where
  "selects s u = Match s (clientType u) (u_ID u)"


section \<open>Scores\<close>

text \<open>
  A snapshot is read for its value; the memo that \<open>Snapshot\<close> keeps inside the tracker never changes
  the value of a later read (lemma \<open>Snapshot_again\<close>), so readers leave the upstream as it is.
\<close>

definition snapshot_value :: "ScoreTracker \<Rightarrow> ScoreSnapshot" where
  "snapshot_value s = fst (Snapshot s)"

definition routeScorer_read :: "string \<Rightarrow> Upstream \<Rightarrow> ScoreTracker option" where
  "routeScorer_read apiPath u = map_of (routeScorers u) apiPath"

text \<open>\<open>routeScorer(apiPath, true)\<close> followed by the update of the tracker it returns.\<close>

definition routeScorer_update :: "string \<Rightarrow> (ScoreTracker \<Rightarrow> ScoreTracker) \<Rightarrow> Upstream \<Rightarrow> Upstream" where
  "routeScorer_update apiPath f u =
     (let s = (case map_of (routeScorers u) apiPath of Some s \<Rightarrow> s | None \<Rightarrow> NewScoreTracker (int (windowSize (scorer u))))
      in u\<lparr>routeScorers := AList.update apiPath (f s) (routeScorers u)\<rparr>)"

definition PathScoreSnapshot :: "string \<Rightarrow> Upstream \<Rightarrow> ScoreSnapshot" where
  "PathScoreSnapshot apiPath u =
     (if apiPath = [] then snapshot_value (scorer u)
      else case routeScorer_read apiPath u of None \<Rightarrow> zeroSnapshot | Some s \<Rightarrow> snapshot_value s)"

definition ScoreSnapshotForPath :: "string \<Rightarrow> Upstream \<Rightarrow> ScoreSnapshot" where
  "ScoreSnapshotForPath apiPath u =
     (if apiPath = [] then snapshot_value (scorer u)
      else let snap = PathScoreSnapshot apiPath u
           in if Samples snap < minPathScopedScoreSamples then snapshot_value (scorer u) else snap)"

definition RecordSuccessForPath :: "string \<Rightarrow> duration \<Rightarrow> Upstream \<Rightarrow> Upstream" where
  "RecordSuccessForPath apiPath d u =
     (let u1 = u\<lparr>scorer := RecordSuccess d (scorer u)\<rparr>
      in if apiPath = [] then u1 else routeScorer_update apiPath (RecordSuccess d) u1)"

definition RecordScoreErrorForPath :: "string \<Rightarrow> Upstream \<Rightarrow> Upstream" where
  "RecordScoreErrorForPath apiPath u =
     (let u1 = u\<lparr>scorer := RecordError (scorer u)\<rparr>
      in if apiPath = [] then u1 else routeScorer_update apiPath RecordError u1)"


section \<open>Rate limit and dispatch\<close>

definition AllowRequest :: "(limiter \<Rightarrow> time \<Rightarrow> real) \<Rightarrow> time \<Rightarrow> Upstream \<Rightarrow> bool" where
  "AllowRequest tokens now u = (case rateLimiter u of None \<Rightarrow> True | Some tn \<Rightarrow> HasCapacity tokens now tn)"

definition ConsumeRateToken :: "time \<Rightarrow> Upstream \<Rightarrow> Upstream" where
  "ConsumeRateToken now u = u\<lparr>rateLimiter := map_option (Consume now) (rateLimiter u)\<rparr>"

definition RecordResponseStatus :: "time \<Rightarrow> int \<Rightarrow> Upstream \<Rightarrow> Upstream" where
  "RecordResponseStatus now statusCode u = u\<lparr>rateLimiter := map_option (RecordResponse now statusCode) (rateLimiter u)\<rparr>"

definition IncrActive :: "Upstream \<Rightarrow> Upstream" where
  "IncrActive u = u\<lparr>activeConns := activeConns u + 1\<rparr>"

definition DecrActive :: "Upstream \<Rightarrow> Upstream" where
  "DecrActive u = u\<lparr>activeConns := activeConns u - 1\<rparr>"

text \<open>
  A tracked body is its \<open>sync.Once\<close>: whether \<open>done\<close> ran.  \<open>TrackResponse\<close> on a response without a
  body counts the request as finished at once.
\<close>

record trackedBody =
  closed_once :: bool

definition TrackResponse :: "bool \<Rightarrow> Upstream \<Rightarrow> trackedBody option \<times> Upstream" where
  "TrackResponse hasBody u = (if \<not> hasBody then (None, DecrActive u) else (Some \<lparr>closed_once = False\<rparr>, u))"

definition closeBody :: "trackedBody \<Rightarrow> Upstream \<Rightarrow> trackedBody \<times> Upstream" where
  "closeBody b u = (if closed_once b then (b, u) else (b\<lparr>closed_once := True\<rparr>, DecrActive u))"

datatype do_error = ErrCircuitUnavailable | TransportError string

text \<open>
  \<open>Do\<close>: the exchange is either an error or whether the response has a body.  The result is the tracked
  body of the response if there is one, the token, and the error.
\<close>

definition Do :: "time \<Rightarrow> string + bool \<Rightarrow> Upstream \<Rightarrow> (trackedBody option \<times> CBToken \<times> do_error option) \<times> Upstream" where
  "Do now exchange u =
     (case CBTryAcquire (u_ID u) now (brk u) of
        ((tok, ok), b) \<Rightarrow>
          let u1 = u\<lparr>brk := b\<rparr> in
          if \<not> ok then ((None, zeroToken, Some ErrCircuitUnavailable), u1)
          else let u2 = IncrActive (ConsumeRateToken now u1) in
            (case exchange of
               Inl e \<Rightarrow> ((None, tok, Some (TransportError e)), DecrActive u2)
             | Inr hasBody \<Rightarrow> (case TrackResponse hasBody u2 of (body, u3) \<Rightarrow> ((body, tok, None), u3))))"

definition settle_tok :: "time \<Rightarrow> cbOutcome \<Rightarrow> CBToken \<Rightarrow> Upstream \<Rightarrow> Upstream" where
  "settle_tok now out t u = u\<lparr>brk := settle now out t (brk u)\<rparr>"

definition CBFailure_up :: "time \<Rightarrow> Upstream \<Rightarrow> Upstream" where
  "CBFailure_up now u = u\<lparr>brk := CBFailure now (brk u)\<rparr>"


section \<open>Histories\<close>

text \<open>Calls of the health pollers and setters, in any order.\<close>

datatype health_op = OpSetHealth HealthStatus | OpNode HealthStatus | OpSync HealthStatus | OpSyncStatus bool u64 u64

fun health_exec :: "health_op \<Rightarrow> Upstream \<Rightarrow> Upstream" where
  "health_exec (OpSetHealth h) u = SetHealth h u"
| "health_exec (OpNode v) u = setNodeVerdict v u"
| "health_exec (OpSync v) u = setSyncVerdict v u"
| "health_exec (OpSyncStatus s h d) u = UpdateSyncStatus s h d u"

text \<open>Dispatches and closes of the bodies they returned, in any order and any number of times.\<close>

datatype conn_op = OpDo time "string + bool" | OpClose nat

fun conn_exec :: "conn_op \<Rightarrow> Upstream \<times> trackedBody list \<Rightarrow> Upstream \<times> trackedBody list" where
  "conn_exec (OpDo now x) (u, bs) =
     (case Do now x u of ((Some b, t, e), u') \<Rightarrow> (u', bs @ [b]) | ((None, t, e), u') \<Rightarrow> (u', bs))"
| "conn_exec (OpClose i) (u, bs) =
     (if i < length bs then case closeBody (bs ! i) u of (b, u') \<Rightarrow> (u', bs[i := b]) else (u, bs))"

definition open_bodies :: "trackedBody list \<Rightarrow> int" where
  "open_bodies bs = int (length (filter (\<lambda>b. \<not> closed_once b) bs))"

lemma Snapshot_again: "fst (Snapshot (snd (Snapshot s))) = fst (Snapshot s)"
  by (simp add: Snapshot_def Let_def)

lemma health_exec_min: "health (health_exec op u) = min (nodeVerdict (health_exec op u)) (syncVerdict (health_exec op u))"
  by (cases op) (simp_all add: SetHealth_def setNodeVerdict_def setSyncVerdict_def UpdateSyncStatus_def recomputeHealthLocked_def)

lemma active_simps [simp]:
  "activeConns (IncrActive u) = activeConns u + 1" "activeConns (DecrActive u) = activeConns u - 1"
  "activeConns (ConsumeRateToken now u) = activeConns u" "activeConns (settle_tok now out t u) = activeConns u"
  by (simp_all add: IncrActive_def DecrActive_def ConsumeRateToken_def settle_tok_def)

lemma Do_active:
  "activeConns (snd (Do now x u)) = activeConns u + (if fst (fst (Do now x u)) = None then 0 else 1)"
  by (auto simp: Do_def TrackResponse_def Let_def split: sum.splits prod.splits)

lemma Do_body_open: "fst (fst (Do now x u)) = Some b \<Longrightarrow> \<not> closed_once b"
  by (auto simp: Do_def TrackResponse_def Let_def split: sum.splits prod.splits if_splits)

lemma open_bodies_close:
  assumes "i < length bs" "\<not> closed_once (bs ! i)"
  shows "open_bodies (bs[i := (bs ! i)\<lparr>closed_once := True\<rparr>]) = open_bodies bs - 1"
proof -
  let ?P = "\<lambda>b. \<not> closed_once b" and ?b = "(bs ! i)\<lparr>closed_once := True\<rparr>"
  have split: "bs = take i bs @ bs ! i # drop (Suc i) bs" using assms(1) by (rule id_take_nth_drop)
  have "bs[i := ?b] = take i bs @ ?b # drop (Suc i) bs" using assms(1) by (rule upd_conv_take_nth_drop)
  then have "length (filter ?P (bs[i := ?b])) = length (filter ?P (take i bs)) + length (filter ?P (drop (Suc i) bs))" by simp
  moreover have "length (filter ?P bs) = length (filter ?P (take i bs)) + 1 + length (filter ?P (drop (Suc i) bs))"
    using assms(2) by (subst split) simp
  ultimately show ?thesis by (simp add: open_bodies_def)
qed

lemma conn_exec_open:
  assumes "activeConns u = n + open_bodies bs"
  shows "activeConns (fst (conn_exec op (u, bs))) = n + open_bodies (snd (conn_exec op (u, bs)))"
proof (cases op)
  case (OpDo now x)
  obtain b t e u' where d: "Do now x u = ((b, t, e), u')" by (metis prod_cases4 surj_pair)
  show ?thesis
    using Do_active [of now x u] Do_body_open [of now x u] assms OpDo
    by (cases b) (auto simp: d open_bodies_def)
next
  case (OpClose i)
  then show ?thesis using assms open_bodies_close [of i bs]
    by (auto simp: closeBody_def)
qed


section \<open>Properties\<close>

text \<open>C26.  The in-flight counter is exact: after any interleaving of dispatches (refused, failed, with
  and without a body) and closes of the returned bodies (repeated closes included) it has grown by
  exactly the number of bodies not yet closed.  It never leaks and never goes below its start.\<close>

theorem active_conns_exact:
  "activeConns (fst (fold conn_exec ops (u, []))) = activeConns u + open_bodies (snd (fold conn_exec ops (u, [])))"
proof -
  have "activeConns (fst (fold conn_exec ops (v, bs))) = n + open_bodies (snd (fold conn_exec ops (v, bs)))"
    if "activeConns v = n + open_bodies bs" for n v bs
    using that
  proof (induction ops arbitrary: v bs)
    case (Cons op ops)
    obtain v' bs' where step: "conn_exec op (v, bs) = (v', bs')" by fastforce
    with conn_exec_open [OF Cons.prems, of op] have "activeConns v' = n + open_bodies bs'" by simp
    from Cons.IH [OF this] show ?case by (simp add: step)
  qed simp
  from this [of u "activeConns u" "[]"] show ?thesis by (simp add: open_bodies_def)
qed

text \<open>An upstream's health is the minimum of its two verdicts after any non-empty sequence of
  poller reports and overrides: neither poller can hide a worse verdict of the other, and an upstream
  is down exactly when one of them says so.\<close>

theorem health_is_min_of_verdicts:
  assumes "ops \<noteq> []"
  shows "let v = fold health_exec ops u in
    health v = min (nodeVerdict v) (syncVerdict v) \<and> (\<not> IsHealthy v \<longleftrightarrow> nodeVerdict v = HealthDown \<or> syncVerdict v = HealthDown)"
proof -
  obtain ops' op where ops: "ops = ops' @ [op]" using assms by (metis rev_exhaust)
  have "min a b = HealthDown \<longleftrightarrow> a = HealthDown \<or> b = HealthDown" for a b
    by (cases a; cases b) (auto simp: min_def less_eq_HealthStatus_def)
  then show ?thesis using health_exec_min [of op "fold health_exec ops' u"] by (simp add: ops Let_def IsHealthy_def)
qed

lemma health_is_min_of_verdicts_witness:
  "let v = fold health_exec [OpNode HealthDown, OpSyncStatus False 9 0] (New 0 ''mainnet'' zeroUpstreamConfig None 10) in
    health v = min (nodeVerdict v) (syncVerdict v) \<and> (\<not> IsHealthy v \<longleftrightarrow> nodeVerdict v = HealthDown \<or> syncVerdict v = HealthDown)"
  by (rule health_is_min_of_verdicts) simp

end
