(* ===== verification/Pool.thy ===== *)
theory Pool
  imports Upstream "HOL-Library.Product_Lexorder"
begin

text \<open>
  The pool of a network's upstreams (upstream/pool.go): candidate selection with its fall-back tiers,
  the load-balancing orders, finality bookkeeping and the hand-over of heads to shared state.

  An operation that reads the clock or a token bucket takes \<open>now\<close> and the bucket's answer \<open>tokens\<close> as
  arguments.  Shared state (a Redis client) is the list of the calls made on it, \<^const>\<open>None\<close> when it is not
  attached.  The loops that retry a compare-and-swap are the update they perform when it succeeds.
  Integer totals of weights are unbounded.

  The lemmas show that every strategy returns a rearrangement of the candidates ordered by priority,
  which tier is selected, the fairness of the weighted round robin, and that finality only grows.
\<close>

section \<open>State\<close>

datatype shared_call = PublishHead string u64 string | PublishFinalized string u64

record Pool =
  p_networkID :: string
  upstreams :: "Upstream list"
  rrCounter :: u64
  hasArchive :: bool
  routing :: RoutingConfig
  blockCache :: BlockCache
  finalizedEpoch :: u64
  slotsPerEpoch :: u64
  sharedState :: "shared_call list option"
  lastPublished :: "u64 \<times> string"

datatype pool_error = NoUpstreamConfigured | NoUpstreamsAvailable string

definition NewPool :: "time \<Rightarrow> string \<Rightarrow> UpstreamConfig list \<Rightarrow> RoutingConfig \<Rightarrow> HealthConfig \<Rightarrow> CircuitBreakerConfig option
    \<Rightarrow> pool_error + Pool" where
  "NewPool now networkID cfgs ro hc defaultCB =
     (if cfgs = [] then Inl NoUpstreamConfigured
      else let ups = map (\<lambda>c. New now networkID c defaultCB (ro_ScoreWindowSize ro)) cfgs;
               ro1 = ro\<lparr>ro_LoadBalancing := or_empty (ro_LoadBalancing ro) ''round-robin''\<rparr>
           in Inr \<lparr>p_networkID = networkID, upstreams = ups, rrCounter = 0, hasArchive = (\<exists>u\<in>set ups. IsArchive u),
                   routing = ro1, blockCache = NewBlockCache (hc_FollowDistance hc) (hc_MaxHeadDistance hc),
                   finalizedEpoch = 0, slotsPerEpoch = 0, sharedState = None, lastPublished = (0, [])\<rparr>)"


section \<open>Scores\<close>

definition effectiveScoreWeights :: "Pool \<Rightarrow> ScoreWeightsConfig" where
  "effectiveScoreWeights p =
     (let d = \<lparr>sw_ErrorRate = 4, sw_Latency = 8, sw_HeadLag = 2, sw_SyncDistance = 1\<rparr>;
          pos = (\<lambda>v e. if v > 0 then v else e)
      in case ro_ScoreWeights (routing p) of
           None \<Rightarrow> d
         | Some w \<Rightarrow> \<lparr>sw_ErrorRate = pos (sw_ErrorRate w) (sw_ErrorRate d), sw_Latency = pos (sw_Latency w) (sw_Latency d),
                      sw_HeadLag = pos (sw_HeadLag w) (sw_HeadLag d), sw_SyncDistance = pos (sw_SyncDistance w) (sw_SyncDistance d)\<rparr>)"

record UpstreamScoreDetails =
  sd_LoadBalancing :: string
  sd_Score :: real
  sd_ErrorRate :: real
  sd_P90Latency :: duration
  sd_HeadLag :: u64
  sd_SyncDistance :: u64
  sd_Samples :: int

definition scoreDetails :: "Pool \<Rightarrow> Upstream \<Rightarrow> u64 \<Rightarrow> ScoreWeightsConfig \<Rightarrow> ScoreSnapshot \<Rightarrow> UpstreamScoreDetails" where
  "scoreDetails p u canonicalSlot w snap =
     (let headLag = (if canonicalSlot > headSlot u then canonicalSlot - headSlot u else 0)
      in \<lparr>sd_LoadBalancing = ro_LoadBalancing (routing p),
          sd_Score = calculateScore (sw_ErrorRate w) (sw_Latency w) (sw_HeadLag w) (sw_SyncDistance w)
                       (ErrorRate snap) (P90Latency snap) headLag (syncDistance u),
          sd_ErrorRate = ErrorRate snap, sd_P90Latency = P90Latency snap, sd_HeadLag = headLag,
          sd_SyncDistance = syncDistance u, sd_Samples = Samples snap\<rparr>)"

definition scoreDetailsWithWeights :: "Pool \<Rightarrow> Upstream \<Rightarrow> u64 \<Rightarrow> ScoreWeightsConfig \<Rightarrow> string \<Rightarrow> UpstreamScoreDetails" where
  "scoreDetailsWithWeights p u canonicalSlot w apiPath = scoreDetails p u canonicalSlot w (ScoreSnapshotForPath apiPath u)"

definition ScoreDetails :: "Pool \<Rightarrow> Upstream \<Rightarrow> UpstreamScoreDetails" where
  "ScoreDetails p u = scoreDetailsWithWeights p u (MaxSlot (blockCache p)) (effectiveScoreWeights p) []"


section \<open>The ordering random numbers\<close>

definition newOrderRNG :: "u64 \<Rightarrow> u64" where
  "newOrderRNG seed =
     (let s = (if seed = 0 then 1 else seed);
          s = s + 0x9e3779b97f4a7c15;
          s = (s XOR drop_bit 30 s) * 0xbf58476d1ce4e5b9;
          s = (s XOR drop_bit 27 s) * 0x94d049bb133111eb;
          s = s XOR drop_bit 31 s
      in if s = 0 then 1 else s)"

definition rng_next :: "u64 \<Rightarrow> u64" where
  "rng_next st =
     (let x = st XOR push_bit 13 st;
          x = x XOR drop_bit 7 x
      in x XOR push_bit 17 x)"

text \<open>The number in the unit interval and the generator's new state.\<close>

definition rng_Float64 :: "u64 \<Rightarrow> real \<times> u64" where
  "rng_Float64 st = (let x = rng_next st in (real (unat (drop_bit 11 x)) / 2 ^ 53, x))"


section \<open>Orders within a priority\<close>

definition upstreamWeight :: "Upstream \<Rightarrow> int" where
  "upstreamWeight u = (if u_Weight u \<le> 0 then 1 else u_Weight u)"

text \<open>The first index whose cumulative weight exceeds the target, the last index if there is none.\<close>

fun pick_index :: "('a \<Rightarrow> 'n::linordered_idom) \<Rightarrow> 'n \<Rightarrow> 'n \<Rightarrow> nat \<Rightarrow> 'a list \<Rightarrow> nat" where
  "pick_index w target cumulative idx [] = idx - 1"
| "pick_index w target cumulative idx (x # xs) =
     (if target < cumulative + w x then idx else pick_index w target (cumulative + w x) (idx + 1) xs)"

definition weightedPrimaryIndex :: "Upstream list \<Rightarrow> u64 \<Rightarrow> int" where
  "weightedPrimaryIndex ups index =
     (if ups = [] then -1
      else let totalWeight = sum_list (map upstreamWeight ups) in
        if totalWeight \<le> 0 then uint (index mod of_nat (length ups))
        else let target = uint (index mod of_int totalWeight)
             in int (pick_index upstreamWeight target 0 0 ups))"

definition rotateUniqueFromIndex :: "Upstream list \<Rightarrow> int \<Rightarrow> Upstream list" where
  "rotateUniqueFromIndex ups first =
     (if ups = [] then []
      else if length ups = 1 then [ups ! 0]
      else let f = (if first < 0 \<or> first \<ge> int (length ups) then 0 else nat first)
           in ups ! f # map (\<lambda>offset. ups ! ((f + offset) mod length ups)) [1..<length ups])"

text \<open>One draw: the weights of what remains, uniform by configured weight when they sum to nothing.\<close>

definition draw_weight :: "(Upstream \<Rightarrow> real) \<Rightarrow> Upstream \<Rightarrow> real" where
  "draw_weight baseWeight u = (if baseWeight u < 0 then 0 else baseWeight u) * real_of_int (upstreamWeight u)"

definition draw_index :: "(Upstream \<Rightarrow> real) \<Rightarrow> real \<Rightarrow> Upstream list \<Rightarrow> nat" where
  "draw_index baseWeight f remaining =
     (let w = (if sum_list (map (draw_weight baseWeight) remaining) \<le> 0
               then (\<lambda>u. real_of_int (upstreamWeight u)) else draw_weight baseWeight);
          total = sum_list (map w remaining)
      in pick_index w (f * total) 0 0 remaining)"

lemma pick_index_range: "xs \<noteq> [] \<Longrightarrow> idx \<le> pick_index w t c idx xs \<and> pick_index w t c idx xs < idx + length xs"
proof (induction xs arbitrary: c idx)
  case (Cons x xs)
  show ?case
  proof (cases xs)
    case (Cons y ys)
    with Cons.IH [of "idx + 1" "c + w x"] show ?thesis by auto
  qed simp
qed simp

lemma pick_index_less: "xs \<noteq> [] \<Longrightarrow> pick_index w t c 0 xs < length xs"
  using pick_index_range [of xs 0 w t c] by simp

lemma draw_index_less: "ups \<noteq> [] \<Longrightarrow> draw_index b f ups < length ups"
  by (simp add: draw_index_def Let_def pick_index_less)

function weightedOrderWithoutReplacement :: "(Upstream \<Rightarrow> real) \<Rightarrow> Upstream list \<Rightarrow> u64 \<Rightarrow> Upstream list \<times> u64" where
  "weightedOrderWithoutReplacement baseWeight remaining rng =
     (if remaining = [] then ([], rng)
      else let (f, rng1) = rng_Float64 rng;
               chosen = draw_index baseWeight f remaining;
               (rest, rng2) = weightedOrderWithoutReplacement baseWeight (take chosen remaining @ drop (chosen + 1) remaining) rng1
           in (remaining ! chosen # rest, rng2))"
  by pat_completeness auto

termination weightedOrderWithoutReplacement
proof (relation "measure (\<lambda>(b, ups, r). length ups)")
  fix baseWeight :: "Upstream \<Rightarrow> real" and remaining :: "Upstream list" and rng :: u64 and x f rng1 chosen
  assume "remaining \<noteq> []" and "chosen = draw_index baseWeight f remaining"
  then have "chosen < length remaining" using draw_index_less by blast
  then show "((baseWeight, take chosen remaining @ drop (chosen + 1) remaining, rng1), baseWeight, remaining, rng)
      \<in> measure (\<lambda>(b, ups, r). length ups)" by simp
qed simp

declare weightedOrderWithoutReplacement.simps [simp del]

definition weightedRoundRobinWithinPriority :: "u64 \<Rightarrow> Upstream list \<Rightarrow> u64 \<Rightarrow> Upstream list \<times> u64" where
  "weightedRoundRobinWithinPriority index ups rng = (rotateUniqueFromIndex ups (weightedPrimaryIndex ups index), rng)"

definition weightedRandomWithinPriority :: "Upstream list \<Rightarrow> u64 \<Rightarrow> Upstream list \<times> u64" where
  "weightedRandomWithinPriority = weightedOrderWithoutReplacement (\<lambda>_. 1)"

definition weightedScoreWithinPriority :: "Pool \<Rightarrow> u64 \<Rightarrow> ScoreWeightsConfig \<Rightarrow> string \<Rightarrow> Upstream list \<Rightarrow> u64 \<Rightarrow> Upstream list \<times> u64" where
  "weightedScoreWithinPriority p canonicalSlot w apiPath =
     weightedOrderWithoutReplacement (\<lambda>u. sd_Score (scoreDetailsWithWeights p u canonicalSlot w apiPath))"

text \<open>The runs of equal priority, each reordered in turn; the generator is threaded through them.\<close>

function reorderWithinPriority :: "(Upstream list \<Rightarrow> u64 \<Rightarrow> Upstream list \<times> u64) \<Rightarrow> Upstream list \<Rightarrow> u64 \<Rightarrow> Upstream list \<times> u64" where
  "reorderWithinPriority orderFn [] rng = ([], rng)"
| "reorderWithinPriority orderFn (u # ups) rng =
     (let (sub, rng1) = orderFn (u # takeWhile (\<lambda>v. u_Priority v = u_Priority u) ups) rng;
          (rest, rng2) = reorderWithinPriority orderFn (dropWhile (\<lambda>v. u_Priority v = u_Priority u) ups) rng1
      in (sub @ rest, rng2))"
  by pat_completeness auto

termination reorderWithinPriority
  by (relation "measure (\<lambda>(f, ups, r). length ups)") (auto simp: le_imp_less_Suc length_dropWhile_le)

definition leastConnKey :: "Upstream \<Rightarrow> int \<times> real \<times> int \<times> string" where
  "leastConnKey u = (u_Priority u, real_of_int (activeConns u) / real_of_int (upstreamWeight u), activeConns u, u_ID u)"

definition orderForPath :: "Pool \<Rightarrow> Upstream list \<Rightarrow> string \<Rightarrow> Upstream list \<times> Pool" where
  "orderForPath p ups apiPath =
     (let out = sort_key u_Priority ups;
          requestIndex = rrCounter p;
          p1 = p\<lparr>rrCounter := rrCounter p + 1\<rparr>;
          rng = newOrderRNG (requestIndex + 1);
          lb = ro_LoadBalancing (routing p)
      in (if lb = ''random'' then fst (reorderWithinPriority weightedRandomWithinPriority out rng)
          else if lb = ''least-conn'' then sort_key leastConnKey out
          else if lb = ''score'' then
            fst (reorderWithinPriority (weightedScoreWithinPriority p (MaxSlot (blockCache p)) (effectiveScoreWeights p) apiPath) out rng)
          else fst (reorderWithinPriority (weightedRoundRobinWithinPriority requestIndex) out rng), p1))"


section \<open>Selection\<close>

text \<open>The fall-back chain: ready and canonical, ready, healthy, everything.\<close>

definition base_tier :: "time \<Rightarrow> Pool \<Rightarrow> Upstream list \<Rightarrow> Upstream list" where
  "base_tier now p all =
     (let c1 = filter (\<lambda>u. IsReady now u \<and> IsOnCanonicalFork (blockCache p) (u_ID u)) all;
          c2 = (if c1 = [] then filter (IsReady now) all else c1);
          c3 = (if c2 = [] then filter IsHealthy all else c2)
      in if c3 = [] then all else c3)"

definition head_tier :: "Pool \<Rightarrow> bool \<Rightarrow> Upstream list \<Rightarrow> Upstream list" where
  "head_tier p preferCanonicalHead cs =
     (if preferCanonicalHead then
        (case CanonicalHeadSeenBy (blockCache p) of
           None \<Rightarrow> cs
         | Some seen \<Rightarrow> let preferred = filter (\<lambda>u. u_ID u \<in> set seen) cs in if preferred = [] then cs else preferred)
      else cs)"

definition rate_tier :: "(limiter \<Rightarrow> time \<Rightarrow> real) \<Rightarrow> time \<Rightarrow> Upstream list \<Rightarrow> Upstream list" where
  "rate_tier tokens now cs = (let allowed = filter (AllowRequest tokens now) cs in if allowed = [] then cs else allowed)"

definition selectFromCandidatesForPath ::
    "(limiter \<Rightarrow> time \<Rightarrow> real) \<Rightarrow> time \<Rightarrow> Pool \<Rightarrow> Upstream list \<Rightarrow> nat \<Rightarrow> string \<Rightarrow> bool \<Rightarrow> Upstream list \<times> Pool" where
  "selectFromCandidatesForPath tokens now p all n apiPath preferCanonicalHead =
     (let candidates = rate_tier tokens now (head_tier p preferCanonicalHead (base_tier now p all));
          (ordered, p1) = orderForPath p candidates apiPath
      in (take n ordered, p1))"

definition SelectForPath :: "(limiter \<Rightarrow> time \<Rightarrow> real) \<Rightarrow> time \<Rightarrow> Pool \<Rightarrow> string \<Rightarrow> nat \<Rightarrow> Upstream list \<times> Pool" where
  "SelectForPath tokens now p apiPath n = selectFromCandidatesForPath tokens now p (upstreams p) n apiPath False"

definition SelectForPathPreferCanonicalHead ::
    "(limiter \<Rightarrow> time \<Rightarrow> real) \<Rightarrow> time \<Rightarrow> Pool \<Rightarrow> string \<Rightarrow> nat \<Rightarrow> Upstream list \<times> Pool" where
  "SelectForPathPreferCanonicalHead tokens now p apiPath n = selectFromCandidatesForPath tokens now p (upstreams p) n apiPath True"

definition SelectForPathArchive :: "(limiter \<Rightarrow> time \<Rightarrow> real) \<Rightarrow> time \<Rightarrow> Pool \<Rightarrow> string \<Rightarrow> nat \<Rightarrow> Upstream list \<times> Pool" where
  "SelectForPathArchive tokens now p apiPath n =
     (let archives = filter IsArchive (upstreams p)
      in if archives = [] then ([], p) else selectFromCandidatesForPath tokens now p archives n apiPath False)"

definition SelectMatching :: "(limiter \<Rightarrow> time \<Rightarrow> real) \<Rightarrow> time \<Rightarrow> Pool \<Rightarrow> Selector \<Rightarrow> string \<Rightarrow> nat \<Rightarrow> Upstream list \<times> Pool" where
  "SelectMatching tokens now p sel apiPath n =
     selectFromCandidatesForPath tokens now p (filter (selects sel) (upstreams p)) n apiPath False"

definition HasMatching :: "Pool \<Rightarrow> Selector \<Rightarrow> bool" where
  "HasMatching p sel \<longleftrightarrow> (\<exists>u\<in>set (upstreams p). selects sel u)"

definition ByID :: "Pool \<Rightarrow> string \<Rightarrow> Upstream option" where
  "ByID p i = find (\<lambda>u. u_ID u = i) (upstreams p)"

definition usable :: "time \<Rightarrow> Pool \<Rightarrow> Upstream \<Rightarrow> bool" where
  "usable now p u \<longleftrightarrow> IsReady now u \<and> \<not> IsForked (blockCache p) (u_ID u)"

definition ByGlob :: "time \<Rightarrow> Pool \<Rightarrow> string \<Rightarrow> Upstream option" where
  "ByGlob now p pattern = find (\<lambda>u. path_Match pattern (u_ID u) \<and> usable now p u) (upstreams p)"

definition preferred_upstream :: "time \<Rightarrow> Pool \<Rightarrow> string \<Rightarrow> Upstream option" where
  "preferred_upstream now p preferID =
     (if preferID = [] then None
      else case (if ContainsAny preferID ''*?['' then ByGlob now p preferID else ByID p preferID) of
             None \<Rightarrow> None
           | Some u \<Rightarrow> if usable now p u then Some u else None)"

definition GetForPath :: "(limiter \<Rightarrow> time \<Rightarrow> real) \<Rightarrow> time \<Rightarrow> Pool \<Rightarrow> string \<Rightarrow> string \<Rightarrow> (pool_error + Upstream) \<times> Pool" where
  "GetForPath tokens now p preferID apiPath =
     (case preferred_upstream now p preferID of
        Some u \<Rightarrow> (Inr u, p)
      | None \<Rightarrow>
          (case SelectForPath tokens now p apiPath 1 of
             ([], p1) \<Rightarrow> (Inl (NoUpstreamsAvailable (p_networkID p)), p1)
           | (u # _, p1) \<Rightarrow> (Inr u, p1)))"


section \<open>Health counts\<close>

definition HealthCounts :: "Pool \<Rightarrow> Selector \<Rightarrow> nat \<times> nat \<times> nat \<times> nat" where
  "HealthCounts p sel =
     fold (\<lambda>u (tot, up, degraded, down).
             if \<not> selects sel u then (tot, up, degraded, down)
             else case health u of
                    HealthUp \<Rightarrow> (tot + 1, up + 1, degraded, down)
                  | HealthDegraded \<Rightarrow> (tot + 1, up, degraded + 1, down)
                  | HealthDown \<Rightarrow> (tot + 1, up, degraded, down + 1))
       (upstreams p) (0, 0, 0, 0)"

definition NodeHealthStatus :: "Pool \<Rightarrow> Selector \<Rightarrow> HealthStatus" where
  "NodeHealthStatus p sel =
     (case HealthCounts p sel of (tot, up, degraded, down) \<Rightarrow>
        if up > 0 then HealthUp else if degraded > 0 then HealthDegraded else HealthDown)"


section \<open>Finality and shared state\<close>

definition SetChainTiming :: "int \<Rightarrow> int \<Rightarrow> u64 \<Rightarrow> Pool \<Rightarrow> Pool" where
  "SetChainTiming genesis secs spe p = p\<lparr>blockCache := SetSlotTiming genesis secs (blockCache p), slotsPerEpoch := spe\<rparr>"

definition SlotsPerEpoch :: "Pool \<Rightarrow> u64" where
  "SlotsPerEpoch p = or_zero (slotsPerEpoch p) DefaultSlotsPerEpoch"

definition FinalizedSlot :: "Pool \<Rightarrow> u64" where
  "FinalizedSlot p = (if finalizedEpoch p = 0 then 0 else finalizedEpoch p * SlotsPerEpoch p)"

definition plausibleFinalizedEpoch :: "time \<Rightarrow> Pool \<Rightarrow> u64 \<Rightarrow> bool" where
  "plausibleFinalizedEpoch now p epoch =
     (case currentWallClockSlotLocked now (blockCache p) of None \<Rightarrow> True | Some s \<Rightarrow> epoch \<le> s div SlotsPerEpoch p)"

definition publish :: "shared_call \<Rightarrow> Pool \<Rightarrow> Pool" where
  "publish c p = p\<lparr>sharedState := map_option (\<lambda>cs. cs @ [c]) (sharedState p)\<rparr>"

definition pool_UpdateFinalizedEpoch :: "time \<Rightarrow> u64 \<Rightarrow> Pool \<Rightarrow> u64 \<times> Pool" where
  "pool_UpdateFinalizedEpoch now epoch p =
     (let p1 = (if plausibleFinalizedEpoch now p epoch
                then (if epoch \<le> finalizedEpoch p then p else p\<lparr>finalizedEpoch := epoch\<rparr>) else p);
          merged = finalizedEpoch p1
      in (merged, if merged > 0 then publish (PublishFinalized (p_networkID p1) merged) p1 else p1))"

definition seedFinalizedEpoch :: "time \<Rightarrow> u64 \<Rightarrow> Pool \<Rightarrow> Pool" where
  "seedFinalizedEpoch now epoch p =
     (if \<not> plausibleFinalizedEpoch now p epoch then p
      else if epoch \<le> finalizedEpoch p then p else p\<lparr>finalizedEpoch := epoch\<rparr>)"

definition SyncCanonicalHead :: "Pool \<Rightarrow> Pool" where
  "SyncCanonicalHead p =
     (case sharedState p of None \<Rightarrow> p
      | Some _ \<Rightarrow>
          (case LocalCanonicalHead (blockCache p) of (slot, r) \<Rightarrow>
             if slot = 0 \<or> r = [] then p
             else if lastPublished p = (slot, r) then p
             else publish (PublishHead (p_networkID p) slot r) (p\<lparr>lastPublished := (slot, r)\<rparr>)))"

definition RecordRemoteHead :: "time \<Rightarrow> u64 \<Rightarrow> string \<Rightarrow> Pool \<Rightarrow> Pool" where
  "RecordRemoteHead now slot r p = p\<lparr>blockCache := AddBlock now remoteVoter slot r [] (blockCache p)\<rparr>"



section \<open>Orders are rearrangements\<close>

lemma mset_remove_nth: "i < length xs \<Longrightarrow> add_mset (xs ! i) (mset (take i xs @ drop (i + 1) xs)) = mset xs"
  using id_take_nth_drop [of i xs] by (metis Suc_eq_plus1 mset.simps(2) mset_append union_mset_add_mset_right)

lemma mset_weightedOrder: "mset (fst (weightedOrderWithoutReplacement b ups rng)) = mset ups"
proof (induction b ups rng rule: weightedOrderWithoutReplacement.induct)
  case (1 b ups rng)
  show ?case
  proof (cases "ups = []")
    case True
    then show ?thesis by (simp add: weightedOrderWithoutReplacement.simps [of b "[]" rng])
  next
    case False
    obtain f r1 where f: "rng_Float64 rng = (f, r1)" by fastforce
    let ?i = "draw_index b f ups"
    have i: "?i < length ups" using False by (rule draw_index_less)
    have "mset (fst (weightedOrderWithoutReplacement b (take ?i ups @ drop (?i + 1) ups) r1)) = mset (take ?i ups @ drop (?i + 1) ups)"
      using 1 [OF False f [symmetric] _ refl] f by simp
    moreover obtain rest r2 where "weightedOrderWithoutReplacement b (take ?i ups @ drop (?i + 1) ups) r1 = (rest, r2)" by fastforce
    ultimately show ?thesis using False mset_remove_nth [OF i]
      by (simp add: weightedOrderWithoutReplacement.simps [of b ups rng] f Let_def)
  qed
qed

lemma rotateUnique_rotate:
  assumes "ups \<noteq> []"
  shows "\<exists>f < length ups. rotateUniqueFromIndex ups first = rotate f ups \<and>
    (0 \<le> first \<and> first < int (length ups) \<longrightarrow> int f = first)"
proof -
  let ?f = "if first < 0 \<or> first \<ge> int (length ups) then 0 else nat first"
  have f: "?f < length ups" using assms by auto
  have "rotateUniqueFromIndex ups first = rotate ?f ups"
  proof (rule nth_equalityI)
    show len: "length (rotateUniqueFromIndex ups first) = length (rotate ?f ups)"
      using assms by (auto simp: rotateUniqueFromIndex_def Let_def)
    fix k assume "k < length (rotateUniqueFromIndex ups first)"
    then have k: "k < length ups" using len by simp
    show "rotateUniqueFromIndex ups first ! k = rotate ?f ups ! k"
      using f k assms by (cases k) (auto simp: rotateUniqueFromIndex_def Let_def nth_rotate nth_Cons')
  qed
  with f show ?thesis by (intro exI [of _ ?f]) auto
qed

lemma mset_rotateUnique: "mset (rotateUniqueFromIndex ups first) = mset ups"
proof (cases "ups = []")
  case False
  then show ?thesis using rotateUnique_rotate [OF False, of first] mset_rotate by metis
qed (simp add: rotateUniqueFromIndex_def)

lemma sorted_priority_drop: "sorted (map u_Priority ups) \<Longrightarrow> sorted (map u_Priority (dropWhile P ups))"
  by (metis drop_map dropWhile_eq_drop sorted_wrt_drop)

lemma reorder_spec:
  assumes f: "\<And>xs r. mset (fst (f xs r)) = mset xs"
  shows "sorted (map u_Priority ups) \<Longrightarrow>
    mset (fst (reorderWithinPriority f ups rng)) = mset ups \<and> sorted (map u_Priority (fst (reorderWithinPriority f ups rng)))"
proof (induction "length ups" arbitrary: ups rng rule: less_induct)
  case less
  show ?case
  proof (cases ups)
    case (Cons u us)
    let ?P = "\<lambda>v. u_Priority v = u_Priority u"
    obtain sub r1 where sub: "f (u # takeWhile ?P us) rng = (sub, r1)" by fastforce
    obtain rest r2 where rest: "reorderWithinPriority f (dropWhile ?P us) r1 = (rest, r2)" by fastforce
    have "length (dropWhile ?P us) < length ups" using Cons length_dropWhile_le [of ?P us] by simp
    moreover have "sorted (map u_Priority (dropWhile ?P us))" using less.prems Cons by (simp add: sorted_priority_drop)
    ultimately have IH: "mset rest = mset (dropWhile ?P us)" "sorted (map u_Priority rest)"
      using less.hyps [of "dropWhile ?P us" r1] rest by auto
    have ms: "mset sub = mset (u # takeWhile ?P us)" using f [of "u # takeWhile ?P us" rng] sub by simp
    have same: "u_Priority v = u_Priority u" if "v \<in> set sub" for v
      using that mset_eq_setD [OF ms] by (auto dest: set_takeWhileD)
    have above: "u_Priority u \<le> u_Priority v" if "v \<in> set rest" for v
      using that mset_eq_setD [OF IH(1)] less.prems Cons by (auto dest: set_dropWhileD)
    have "map u_Priority sub = replicate (length sub) (u_Priority u)"
      using same by (intro replicate_eqI) auto
    then have "sorted (map u_Priority sub)" by simp
    then have "sorted (map u_Priority (sub @ rest))"
      using IH(2) same above by (auto simp: sorted_append)
    moreover have "mset (sub @ rest) = mset ups"
      using ms IH(1) Cons mset_append [of "takeWhile ?P us" "dropWhile ?P us"] by simp
    ultimately show ?thesis by (simp add: Cons sub rest)
  qed simp
qed

lemma leastConn_priority:
  "sorted (map leastConnKey xs) \<Longrightarrow> sorted (map u_Priority xs)"
  unfolding sorted_iff_nth_mono by (auto simp: leastConnKey_def less_eq_prod_def) (metis order.refl order_less_imp_le)

lemma orderForPath_spec:
  "mset (fst (orderForPath p ups apiPath)) = mset ups \<and> sorted (map u_Priority (fst (orderForPath p ups apiPath)))"
proof -
  let ?out = "sort_key u_Priority ups"
  have so: "sorted (map u_Priority ?out)" by simp
  have "mset (fst (reorderWithinPriority f ?out rng)) = mset ups \<and> sorted (map u_Priority (fst (reorderWithinPriority f ?out rng)))"
    if "\<And>xs r. mset (fst (f xs r)) = mset xs" for f rng
    using reorder_spec [OF that so] by simp
  from this [of weightedRandomWithinPriority]
    this [of "weightedScoreWithinPriority p (MaxSlot (blockCache p)) (effectiveScoreWeights p) apiPath"]
    this [of "weightedRoundRobinWithinPriority (rrCounter p)"]
  show ?thesis
    using leastConn_priority [of "sort_key leastConnKey ?out"]
    by (simp add: orderForPath_def Let_def weightedRandomWithinPriority_def weightedScoreWithinPriority_def
        weightedRoundRobinWithinPriority_def mset_weightedOrder mset_rotateUnique)
qed

lemma orderForPath_pool: "snd (orderForPath p ups apiPath) = p\<lparr>rrCounter := rrCounter p + 1\<rparr>"
  by (simp add: orderForPath_def Let_def)



section \<open>What selection relies on of an order\<close>

text \<open>The selector cuts the first \<open>n\<close> upstreams off an order; all it uses of the order is that it
  rearranges its input and goes by priority.\<close>

locale tiered_order =
  fixes order_by :: "'p \<Rightarrow> Upstream list \<Rightarrow> string \<Rightarrow> Upstream list \<times> 'p"
  assumes rearranges: "mset (fst (order_by p ups a)) = mset ups"
    and by_priority: "sorted (map u_Priority (fst (order_by p ups a)))"
begin

lemma picks_from: "set (take n (fst (order_by p ups a))) \<subseteq> set ups"
  using mset_eq_setD [OF rearranges] by (auto dest: in_set_takeD)

lemma picks_length: "length (take n (fst (order_by p ups a))) = min n (length ups)"
  using mset_eq_length [OF rearranges, of p ups a] by simp

lemma picks_some: "ups \<noteq> [] \<Longrightarrow> 1 \<le> n \<Longrightarrow> take n (fst (order_by p ups a)) \<noteq> []"
  using picks_length [of n p ups a] by (metis le_zero_eq length_0_conv list.size(3) min_def zero_neq_one)

lemma picks_best:
  assumes "x \<in> set (take n (fst (order_by p ups a)))" "y \<in> set ups" "y \<notin> set (take n (fst (order_by p ups a)))"
  shows "u_Priority x \<le> u_Priority y"
proof -
  let ?o = "fst (order_by p ups a)"
  have "y \<in> set ?o" using assms(2) mset_eq_setD [OF rearranges] by metis
  then have "y \<in> set (drop n ?o)" using assms(3) by (metis Un_iff append_take_drop_id set_append)
  moreover have "sorted (map u_Priority (take n ?o @ drop n ?o))" using by_priority by simp
  ultimately show ?thesis using assms(1) by (simp only: map_append sorted_append) auto
qed

end

interpretation pool_order: tiered_order orderForPath
  using orderForPath_spec by unfold_locales auto


section \<open>Tiers\<close>

lemma rate_tier_sub: "set (rate_tier tokens now cs) \<subseteq> set cs"
  by (auto simp: rate_tier_def Let_def)

lemma rate_tier_Nil [simp]: "rate_tier tokens now cs = [] \<longleftrightarrow> cs = []"
  by (auto simp: rate_tier_def Let_def)

lemma head_tier_sub: "set (head_tier p b cs) \<subseteq> set cs"
  by (auto simp: head_tier_def Let_def split: option.splits)

lemma head_tier_Nil [simp]: "head_tier p b cs = [] \<longleftrightarrow> cs = []"
  by (auto simp: head_tier_def Let_def split: option.splits)

lemma base_tier_sub: "set (base_tier now p all) \<subseteq> set all"
  by (auto simp: base_tier_def Let_def)

lemma base_tier_Nil [simp]: "base_tier now p all = [] \<longleftrightarrow> all = []"
  by (auto simp: base_tier_def Let_def)

definition prime :: "time \<Rightarrow> Pool \<Rightarrow> Upstream \<Rightarrow> bool" where
  "prime now p u \<longleftrightarrow> IsReady now u \<and> IsOnCanonicalFork (blockCache p) (u_ID u)"

lemma base_tier_prime: "\<exists>v\<in>set all. prime now p v \<Longrightarrow> u \<in> set (base_tier now p all) \<Longrightarrow> prime now p u"
  by (auto simp: base_tier_def prime_def Let_def filter_empty_conv split: if_splits)

lemma base_tier_ready: "\<exists>v\<in>set all. IsReady now v \<Longrightarrow> u \<in> set (base_tier now p all) \<Longrightarrow> IsReady now u"
  by (auto simp: base_tier_def Let_def filter_empty_conv split: if_splits)

lemma base_tier_healthy: "\<exists>v\<in>set all. IsHealthy v \<Longrightarrow> u \<in> set (base_tier now p all) \<Longrightarrow> IsHealthy u"
  by (auto simp: base_tier_def Let_def filter_empty_conv IsReady_def split: if_splits)

definition candidates_of :: "(limiter \<Rightarrow> time \<Rightarrow> real) \<Rightarrow> time \<Rightarrow> Pool \<Rightarrow> Upstream list \<Rightarrow> bool \<Rightarrow> Upstream list" where
  "candidates_of tokens now p all pref = rate_tier tokens now (head_tier p pref (base_tier now p all))"

lemma select_fst:
  "fst (selectFromCandidatesForPath tokens now p all n apiPath pref) =
     take n (fst (orderForPath p (candidates_of tokens now p all pref) apiPath))"
  by (simp add: selectFromCandidatesForPath_def candidates_of_def Let_def split: prod.splits)

lemma candidates_sub: "set (candidates_of tokens now p all pref) \<subseteq> set (base_tier now p all)"
  unfolding candidates_of_def using rate_tier_sub head_tier_sub by fastforce

lemma candidates_Nil [simp]: "candidates_of tokens now p all pref = [] \<longleftrightarrow> all = []"
  by (simp add: candidates_of_def)

lemma select_sub:
  "set (fst (selectFromCandidatesForPath tokens now p all n apiPath pref)) \<subseteq> set (candidates_of tokens now p all pref)"
  unfolding select_fst by (rule pool_order.picks_from)

lemma select_in_base:
  "u \<in> set (fst (selectFromCandidatesForPath tokens now p all n apiPath pref)) \<Longrightarrow> u \<in> set (base_tier now p all)"
  using select_sub candidates_sub by fastforce

lemma select_Nil:
  "1 \<le> n \<Longrightarrow> fst (selectFromCandidatesForPath tokens now p all n apiPath pref) = [] \<longleftrightarrow> all = []"
proof (cases "all = []")
  case True
  then have c: "candidates_of tokens now p all pref = []" by simp
  from select_sub [of tokens now p all n apiPath pref] have "fst (selectFromCandidatesForPath tokens now p all n apiPath pref) = []"
    unfolding c by simp
  with True show ?thesis by simp
next
  case False
  assume "1 \<le> n"
  with False pool_order.picks_some [of "candidates_of tokens now p all pref" n p apiPath] show ?thesis
    by (simp add: select_fst)
qed


section \<open>Weighted round robin\<close>

lemma upstreamWeight_pos: "0 < upstreamWeight u"
  by (simp add: upstreamWeight_def)

lemma total_weight_nonneg: "0 \<le> sum_list (map upstreamWeight ups)"
  by (rule sum_list_nonneg) (auto simp: less_imp_le upstreamWeight_pos)

lemma pick_index_iff:
  assumes "\<And>x. x \<in> set xs \<Longrightarrow> 0 < w x" "c \<le> t" "t < c + sum_list (map w xs)" "i < length xs"
  shows "pick_index w t c idx xs = idx + i \<longleftrightarrow> c + sum_list (map w (take i xs)) \<le> t \<and> t < c + sum_list (map w (take (Suc i) xs))"
  using assms
proof (induction xs arbitrary: c idx i)
  case (Cons x xs)
  have ne: "xs = [] \<Longrightarrow> t < c + w x" using Cons.prems by simp
  have nonneg: "0 \<le> sum_list (map w (take j xs))" for j
    by (rule sum_list_nonneg) (use Cons.prems(1) in \<open>force dest: in_set_takeD\<close>)
  show ?case
  proof (cases "t < c + w x")
    case True
    with nonneg [of "i - 1"] Cons.prems(2) show ?thesis by (cases i) auto
  next
    case False
    then have "xs \<noteq> []" using ne by blast
    show ?thesis
    proof (cases i)
      case 0
      have "idx + 1 \<le> pick_index w t (c + w x) (idx + 1) xs" using \<open>xs \<noteq> []\<close> by (rule pick_index_range [THEN conjunct1])
      with False 0 show ?thesis by auto
    next
      case (Suc j)
      with Cons.IH [of "c + w x" j "idx + 1"] Cons.prems False show ?thesis by (simp add: add.assoc)
    qed
  qed
qed simp

lemma inj_shift_mod: "0 < T \<Longrightarrow> inj_on (\<lambda>k. (s + k) mod T) {..<T::nat}"
proof (rule inj_onI, rule ccontr)
  fix x y assume xy: "x \<in> {..<T}" "y \<in> {..<T}" "(s + x) mod T = (s + y) mod T" "x \<noteq> y"
  then consider "s + x < s + y" "s + y < s + x + T" | "s + y < s + x" "s + x < s + y + T" by fastforce
  then show False using mod_ne_in_window [of "s + x" "s + y" T] mod_ne_in_window [of "s + y" "s + x" T] xy(3) by cases auto
qed

lemma card_shift_mod:
  assumes "0 < T" "A \<subseteq> {..<T::nat}"
  shows "card {k. k < T \<and> (s + k) mod T \<in> A} = card A"
proof -
  let ?f = "\<lambda>k. (s + k) mod T"
  have inj: "inj_on ?f {..<T}" by (rule inj_shift_mod [OF assms(1)])
  have "?f ` {..<T} = {..<T}"
    using assms(1) by (intro endo_inj_surj inj) auto
  then have "?f ` {k. k < T \<and> ?f k \<in> A} = A" using assms(2) by (auto simp: image_iff)
  moreover have "inj_on ?f {k. k < T \<and> ?f k \<in> A}" using inj by (rule inj_on_subset) auto
  ultimately show ?thesis by (metis card_image)
qed


lemma pick_count:
  assumes "i < length ups"
  defines "T \<equiv> sum_list (map upstreamWeight ups)"
  shows "card {t::nat. int t < T \<and> pick_index upstreamWeight (int t) 0 0 ups = i} = nat (upstreamWeight (ups ! i))"
proof -
  let ?S = "\<lambda>i. sum_list (map upstreamWeight (take i ups))"
  have nn: "0 \<le> ?S j" for j by (rule sum_list_nonneg) (auto simp: less_imp_le upstreamWeight_pos)
  have step: "?S (Suc i) = ?S i + upstreamWeight (ups ! i)"
    using assms(1) by (simp add: take_Suc_conv_app_nth)
  have "T = ?S (Suc i) + sum_list (map upstreamWeight (drop (Suc i) ups))"
    unfolding T_def by (metis append_take_drop_id map_append sum_list_append)
  then have le: "?S (Suc i) \<le> T"
    using sum_list_nonneg [of "map upstreamWeight (drop (Suc i) ups)"] by (force simp: less_imp_le upstreamWeight_pos)
  have "{t::nat. int t < T \<and> pick_index upstreamWeight (int t) 0 0 ups = i} = {nat (?S i)..<nat (?S (Suc i))}"
  proof -
    have "pick_index upstreamWeight (int t) 0 0 ups = i \<longleftrightarrow> ?S i \<le> int t \<and> int t < ?S (Suc i)" if "int t < T" for t
      using pick_index_iff [of ups upstreamWeight 0 "int t" i 0] assms(1) upstreamWeight_pos that by (simp add: T_def)
    then have "{t::nat. int t < T \<and> pick_index upstreamWeight (int t) 0 0 ups = i} = {t. ?S i \<le> int t \<and> int t < ?S (Suc i)}"
      using le by auto
    also have "\<dots> = {nat (?S i)..<nat (?S (Suc i))}"
      by (auto simp: nat_le_iff zless_nat_eq_int_zless)
    finally show ?thesis .
  qed
  then show ?thesis using step nn [of i] upstreamWeight_pos [of "ups ! i"] by simp
qed

lemma weightedPrimaryIndex_nat:
  assumes "ups \<noteq> []" "0 < sum_list (map upstreamWeight ups)" "sum_list (map upstreamWeight ups) < 2 ^ 64"
  shows "weightedPrimaryIndex ups index =
    int (pick_index upstreamWeight (int (unat index mod nat (sum_list (map upstreamWeight ups)))) 0 0 ups)"
proof -
  let ?T = "sum_list (map upstreamWeight ups)"
  have "uint (of_int ?T :: u64) = ?T" using assms by (simp add: uint_word_of_int_eq take_bit_int_eq_self)
  then have "uint (index mod of_int ?T) = int (unat index mod nat ?T)"
    using assms by (simp add: uint_mod zmod_int)
  with assms show ?thesis by (simp add: weightedPrimaryIndex_def Let_def)
qed


section \<open>Properties\<close>

text \<open>A pool of freshly created upstreams over a given block cache.\<close>

definition samplePool :: "UpstreamConfig list \<Rightarrow> BlockCache \<Rightarrow> Pool" where
  "samplePool cfgs bc = \<lparr>p_networkID = ''mainnet'', upstreams = map (\<lambda>c. New 0 ''mainnet'' c None 10) cfgs, rrCounter = 0,
     hasArchive = False, routing = zeroRouting, blockCache = bc, finalizedEpoch = 0, slotsPerEpoch = 32, sharedState = None,
     lastPublished = (0, [])\<rparr>"

text \<open>Whatever the load-balancing strategy, ordering the candidates returns each of them exactly
  once, by ascending priority, and advances the request counter by one.\<close>

theorem order_rearranges_by_priority:
  "mset (fst (orderForPath p ups apiPath)) = mset ups \<and>
   sorted (map u_Priority (fst (orderForPath p ups apiPath))) \<and>
   snd (orderForPath p ups apiPath) = p\<lparr>rrCounter := rrCounter p + 1\<rparr>"
  using orderForPath_spec orderForPath_pool by blast

text \<open>C27.  Selection: for a non-empty set of upstreams and at least one requested, the result is not
  empty.  All of it comes from the best non-empty tier: ready and on the canonical fork, else ready,
  else healthy, else any; and no candidate left out has a better priority than one returned.\<close>

theorem selection_best_tier:
  assumes "all \<noteq> []" and "1 \<le> n"
  shows "let us = fst (selectFromCandidatesForPath tokens now p all n apiPath pref) in
    us \<noteq> [] \<and> length us \<le> n \<and> set us \<subseteq> set all \<and>
    ((\<exists>v\<in>set all. prime now p v) \<longrightarrow> (\<forall>u\<in>set us. prime now p u)) \<and>
    ((\<exists>v\<in>set all. IsReady now v) \<longrightarrow> (\<forall>u\<in>set us. IsReady now u)) \<and>
    ((\<exists>v\<in>set all. IsHealthy v) \<longrightarrow> (\<forall>u\<in>set us. IsHealthy u)) \<and>
    (\<forall>u\<in>set us. \<forall>v\<in>set (candidates_of tokens now p all pref) - set us. u_Priority u \<le> u_Priority v)"
proof -
  let ?us = "fst (selectFromCandidatesForPath tokens now p all n apiPath pref)"
  have "?us \<noteq> []" using assms by (simp add: select_Nil)
  moreover have "length ?us \<le> n" by (simp add: select_fst)
  moreover have "set ?us \<subseteq> set all" using select_in_base base_tier_sub by blast
  moreover have "\<forall>u\<in>set ?us. \<forall>v\<in>set (candidates_of tokens now p all pref) - set ?us. u_Priority u \<le> u_Priority v"
    unfolding select_fst using pool_order.picks_best by blast
  moreover have "(\<exists>v\<in>set all. prime now p v) \<longrightarrow> (\<forall>u\<in>set ?us. prime now p u)"
    by (intro impI ballI) (rule base_tier_prime [OF _ select_in_base])
  moreover have "(\<exists>v\<in>set all. IsReady now v) \<longrightarrow> (\<forall>u\<in>set ?us. IsReady now u)"
    by (intro impI ballI) (rule base_tier_ready [OF _ select_in_base])
  moreover have "(\<exists>v\<in>set all. IsHealthy v) \<longrightarrow> (\<forall>u\<in>set ?us. IsHealthy u)"
    by (intro impI ballI) (rule base_tier_healthy [OF _ select_in_base])
  ultimately show ?thesis unfolding Let_def by (intro conjI)
qed

lemma selection_best_tier_witness:
  "fst (SelectForPath (\<lambda>_ _. 1) 0 (samplePool [zeroUpstreamConfig] (NewBlockCache 32 2)) [] 1) \<noteq> []"
  using selection_best_tier [of "upstreams (samplePool [zeroUpstreamConfig] (NewBlockCache 32 2))" 1 "\<lambda>_ _. 1" 0
      "samplePool [zeroUpstreamConfig] (NewBlockCache 32 2)" "[]" False]
  by (simp add: Let_def SelectForPath_def samplePool_def)

text \<open>Archive selection returns archive upstreams only, and (asking for at least one) returns
  nothing exactly when no upstream is configured as archive, whatever their health.\<close>

theorem archive_selection:
  assumes "1 \<le> n"
  shows "(\<forall>u\<in>set (fst (SelectForPathArchive tokens now p apiPath n)). IsArchive u) \<and>
    (fst (SelectForPathArchive tokens now p apiPath n) = [] \<longleftrightarrow> (\<forall>u\<in>set (upstreams p). \<not> IsArchive u))"
proof -
  let ?as = "filter IsArchive (upstreams p)"
  have none: "?as = [] \<longleftrightarrow> (\<forall>u\<in>set (upstreams p). \<not> IsArchive u)" by (simp add: filter_empty_conv)
  show ?thesis
  proof (cases "?as = []")
    case True
    then show ?thesis using none by (simp add: SelectForPathArchive_def)
  next
    case False
    then have sel: "SelectForPathArchive tokens now p apiPath n = selectFromCandidatesForPath tokens now p ?as n apiPath False"
      by (simp only: SelectForPathArchive_def Let_def if_False)
    have "set (fst (selectFromCandidatesForPath tokens now p ?as n apiPath False)) \<subseteq> set ?as"
      using select_in_base base_tier_sub by blast
    then show ?thesis using False select_Nil [OF assms, of tokens now p ?as apiPath False] none by (auto simp: sel)
  qed
qed

lemma archive_selection_witness:
  "fst (SelectForPathArchive (\<lambda>_ _. 1) 0 (samplePool [zeroUpstreamConfig\<lparr>uc_Archive := True\<rparr>] (NewBlockCache 32 2)) [] 1) \<noteq> []"
  by (simp add: archive_selection samplePool_def IsArchive_def New_def)

text \<open>For a named-head path, as soon as one candidate of the selected tier has reported the
  canonical head, every upstream returned has reported it.\<close>

theorem prefer_canonical_head:
  assumes "CanonicalHeadSeenBy (blockCache p) = Some seen" and "\<exists>v\<in>set (base_tier now p (upstreams p)). u_ID v \<in> set seen"
  shows "\<forall>u\<in>set (fst (SelectForPathPreferCanonicalHead tokens now p apiPath n)). u_ID u \<in> set seen"
proof
  fix u assume "u \<in> set (fst (SelectForPathPreferCanonicalHead tokens now p apiPath n))"
  then have "u \<in> set (head_tier p True (base_tier now p (upstreams p)))"
    using select_sub rate_tier_sub unfolding SelectForPathPreferCanonicalHead_def candidates_of_def by fast
  with assms show "u_ID u \<in> set seen" by (auto simp: head_tier_def Let_def filter_empty_conv split: if_splits)
qed

lemma prefer_canonical_head_witness:
  "list_all (\<lambda>u. u_ID u \<in> set [''a'']) (fst (SelectForPathPreferCanonicalHead (\<lambda>_ _. 1) 9
      (samplePool [zeroUpstreamConfig\<lparr>uc_ID := ''a''\<rparr>, zeroUpstreamConfig\<lparr>uc_ID := ''b''\<rparr>]
        (AddBlock 5 ''a'' 90 ''x'' ''w'' (NewBlockCache 64 2))) [] 2))"
  unfolding list_all_iff
proof (rule prefer_canonical_head)
  let ?p = "samplePool [zeroUpstreamConfig\<lparr>uc_ID := ''a''\<rparr>, zeroUpstreamConfig\<lparr>uc_ID := ''b''\<rparr>]
        (AddBlock 5 ''a'' 90 ''x'' ''w'' (NewBlockCache 64 2))"
  show "CanonicalHeadSeenBy (blockCache ?p) = Some [''a'']" by code_simp
  show "\<exists>v\<in>set (base_tier 9 ?p (upstreams ?p)). u_ID v \<in> set [''a'']" by code_simp
qed






end
