(* ===== verification/Session.thy ===== *)
theory Session
  imports Go_Http Pool
begin

text \<open>
  Per-client sessions of \<open>src/network/session.go\<close>: the client address behind trusted proxies, the session
  table with its rate limiters and sticky upstreams, idle cleanup, and the rebalancing of sticky sessions.

  A \<^typ>\<open>string\<close> is a byte list as elsewhere.  The address parsers of \<open>net/netip\<close> are the parameters
  \<open>parseAddr\<close> and \<open>parsePrefix\<close>; addresses and prefixes are concrete.  A session is known by a number that
  no other session ever has, so that a request holding a session which was evicted meanwhile does not reach
  the session that took its place.  The limiter of \<open>golang.org/x/time/rate\<close> is the history of the calls made
  on it, as in the tuner of the upstreams.
\<close>


section \<open>Addresses\<close>

datatype netip_Addr = IPv4 "32 word" | IPv6 "128 word" string

record netip_Prefix =
  px_addr :: netip_Addr
  px_bits :: nat

fun Unmap :: "netip_Addr \<Rightarrow> netip_Addr" where
  "Unmap (IPv4 a) = IPv4 a"
| "Unmap (IPv6 a zone) = (if drop_bit 32 a = 0xFFFF then IPv4 (ucast a) else IPv6 a zone)"

fun withoutZone :: "netip_Addr \<Rightarrow> netip_Addr" where
  "withoutZone (IPv4 a) = IPv4 a"
| "withoutZone (IPv6 a zone) = IPv6 a []"

fun BitLen :: "netip_Addr \<Rightarrow> nat" where
  "BitLen (IPv4 a) = 32"
| "BitLen (IPv6 a zone) = 128"

definition PrefixFrom :: "netip_Addr \<Rightarrow> nat \<Rightarrow> netip_Prefix" where
  "PrefixFrom a bits = \<lparr>px_addr = withoutZone a, px_bits = bits\<rparr>"

text \<open>An address of the other family, or one with a zone, is never contained.\<close>

fun prefix_Contains :: "netip_Prefix \<Rightarrow> netip_Addr \<Rightarrow> bool" where
  "prefix_Contains p (IPv4 a) =
     (case px_addr p of IPv4 b \<Rightarrow> drop_bit (32 - px_bits p) (a XOR b) = 0 | IPv6 _ _ \<Rightarrow> False)"
| "prefix_Contains p (IPv6 a zone) =
     (zone = [] \<and> (case px_addr p of IPv6 b _ \<Rightarrow> drop_bit (128 - px_bits p) (a XOR b) = 0 | IPv4 _ \<Rightarrow> False))"

fun mask_addr :: "nat \<Rightarrow> netip_Addr \<Rightarrow> netip_Addr" where
  "mask_addr bits (IPv4 a) = IPv4 (push_bit (32 - bits) (drop_bit (32 - bits) a))"
| "mask_addr bits (IPv6 a zone) = IPv6 (push_bit (128 - bits) (drop_bit (128 - bits) a)) zone"

definition Masked :: "netip_Prefix \<Rightarrow> netip_Prefix" where
  "Masked p = p\<lparr>px_addr := mask_addr (px_bits p) (px_addr p)\<rparr>"

text \<open>\<open>SetTrustedProxies\<close>: the outcome is the error with the offending entry, or the new value of the
  shared pointer, \<^const>\<open>None\<close> for the trust-everyone mode.\<close>

fun trusted_prefixes :: "(string \<Rightarrow> netip_Addr option) \<Rightarrow> (string \<Rightarrow> netip_Prefix option) \<Rightarrow> string list \<Rightarrow> string + netip_Prefix list" where
  "trusted_prefixes parseAddr parsePrefix [] = Inr []"
| "trusted_prefixes parseAddr parsePrefix (c0 # cs) =
     (let c = TrimSpace c0 in
      case (case parsePrefix c of
              Some p \<Rightarrow> Some (Masked p)
            | None \<Rightarrow> map_option (\<lambda>a. PrefixFrom a (BitLen a)) (parseAddr c)) of
        None \<Rightarrow> Inl c
      | Some p \<Rightarrow> (case trusted_prefixes parseAddr parsePrefix cs of Inl e \<Rightarrow> Inl e | Inr ps \<Rightarrow> Inr (p # ps)))"

definition SetTrustedProxies ::
  "(string \<Rightarrow> netip_Addr option) \<Rightarrow> (string \<Rightarrow> netip_Prefix option) \<Rightarrow> string list \<Rightarrow> string + netip_Prefix list option" where
  "SetTrustedProxies parseAddr parsePrefix cidrs =
     (if cidrs = [] then Inr None
      else case trusted_prefixes parseAddr parsePrefix cidrs of Inl e \<Rightarrow> Inl e | Inr ps \<Rightarrow> Inr (Some ps))"

definition isTrustedProxyAddr :: "(string \<Rightarrow> netip_Addr option) \<Rightarrow> netip_Prefix list \<Rightarrow> string \<Rightarrow> bool" where
  "isTrustedProxyAddr parseAddr prefixes ip =
     (case parseAddr ip of None \<Rightarrow> False | Some a \<Rightarrow> list_ex (\<lambda>p. prefix_Contains p (Unmap a)) prefixes)"

text \<open>\<open>net.SplitHostPort\<close>: the host, if the string has the form \<open>host:port\<close> or \<open>[host]:port\<close>.\<close>

definition LastIndexByte :: "string \<Rightarrow> char \<Rightarrow> nat option" where
  "LastIndexByte s b = map_option (\<lambda>i. length s - 1 - i) (IndexByte (rev s) b)"

definition SplitHostPort :: "string \<Rightarrow> string option" where
  "SplitHostPort s =
     (case LastIndexByte s (CHR '':'') of
        None \<Rightarrow> None
      | Some i \<Rightarrow>
          if hd s = CHR ''['' then
            (case IndexByte s (CHR '']'') of
               None \<Rightarrow> None
             | Some e \<Rightarrow>
                 if e + 1 \<noteq> i \<or> CHR ''['' \<in> set (tl s) \<or> CHR '']'' \<in> set (drop (e + 1) s) then None
                 else Some (take (e - 1) (tl s)))
          else if CHR '':'' \<in> set (take i s) \<or> CHR ''['' \<in> set s \<or> CHR '']'' \<in> set s then None
          else Some (take i s))"

definition remoteAddrHost :: "http_Request \<Rightarrow> string" where
  "remoteAddrHost r = (case SplitHostPort (r_RemoteAddr r) of None \<Rightarrow> r_RemoteAddr r | Some ip \<Rightarrow> ip)"

text \<open>The walk of \<open>ClientIP\<close> from the right end of the chain.\<close>

fun xff_walk :: "(string \<Rightarrow> bool) \<Rightarrow> string list \<Rightarrow> string option" where
  "xff_walk trusted [] = None"
| "xff_walk trusted (part # parts) =
     (let entry = TrimSpace part in
      if entry = [] then xff_walk trusted parts
      else if \<not> trusted entry then Some entry
      else xff_walk trusted parts)"

definition xff_client :: "(string \<Rightarrow> bool) \<Rightarrow> string \<Rightarrow> string option" where
  "xff_client trusted xff =
     (let parts = SplitByte (CHR '','') xff in
      case xff_walk trusted (rev parts) of
        Some entry \<Rightarrow> Some entry
      | None \<Rightarrow> let first = TrimSpace (hd parts) in if first \<noteq> [] then Some first else None)"

definition ClientIP :: "(string \<Rightarrow> netip_Addr option) \<Rightarrow> netip_Prefix list option \<Rightarrow> http_Request \<Rightarrow> string" where
  "ClientIP parseAddr trustedProxies r =
     (case trustedProxies of
        None \<Rightarrow>
          (let xff = Header_Get (r_Header r) ''X-Forwarded-For''; xri = Header_Get (r_Header r) ''X-Real-IP'' in
           if xff \<noteq> [] then
             (case IndexByte xff (CHR '','') of Some i \<Rightarrow> TrimSpace (take i xff) | None \<Rightarrow> TrimSpace xff)
           else if xri \<noteq> [] then TrimSpace xri
           else remoteAddrHost r)
      | Some prefixes \<Rightarrow>
          (let peer = remoteAddrHost r;
               xff = Header_Get (r_Header r) ''X-Forwarded-For'';
               xri = TrimSpace (Header_Get (r_Header r) ''X-Real-IP'') in
           if \<not> isTrustedProxyAddr parseAddr prefixes peer then peer
           else case (if xff = [] then None else xff_client (isTrustedProxyAddr parseAddr prefixes) xff) of
                  Some ip \<Rightarrow> ip
                | None \<Rightarrow> if xri \<noteq> [] then xri else peer))"



section \<open>The session table\<close>

record Session =
  s_id :: nat
  s_ip :: string
  s_limiter :: "limiter option"
  stickyID :: string
  lastSeen :: time

text \<open>\<open>sm_lim\<close> is \<^const>\<open>None\<close> for the infinite rate.  The table is listed in the order a loop over it visits it.\<close>

record SessionManager =
  byIP :: "(string \<times> Session) list"
  sm_lim :: "real option"
  sm_burst :: int
  sm_timeout :: duration
  sm_next :: nat

text \<open>A session held by a request: the address and the number of the session.\<close>

type_synonym handle = "string \<times> nat"

definition newSessionManager :: "real \<Rightarrow> int \<Rightarrow> duration \<Rightarrow> SessionManager" where
  "newSessionManager ratePerSec burst sessionTimeout =
     \<lparr>byIP = [], sm_lim = (if ratePerSec > 0 then Some ratePerSec else None), sm_burst = or_zero burst 1,
      sm_timeout = sessionTimeout, sm_next = 0\<rparr>"

definition upd_session :: "handle \<Rightarrow> (Session \<Rightarrow> Session) \<Rightarrow> SessionManager \<Rightarrow> SessionManager" where
  "upd_session h f sm =
     sm\<lparr>byIP := map (\<lambda>(ip, s). (ip, if ip = fst h \<and> s_id s = snd h then f s else s)) (byIP sm)\<rparr>"

definition touch :: "time \<Rightarrow> Session \<Rightarrow> Session" where
  "touch now s = s\<lparr>lastSeen := now\<rparr>"

text \<open>\<open>Get\<close> first looks the address up under the read lock, and under the write lock when that found nothing.\<close>

definition Get_read :: "time \<Rightarrow> string \<Rightarrow> SessionManager \<Rightarrow> handle option \<times> SessionManager" where
  "Get_read now ip sm =
     (case map_of (byIP sm) ip of
        None \<Rightarrow> (None, sm)
      | Some s \<Rightarrow> (Some (ip, s_id s), upd_session (ip, s_id s) (touch now) sm))"

definition newSession :: "time \<Rightarrow> string \<Rightarrow> SessionManager \<Rightarrow> Session" where
  "newSession now ip sm =
     \<lparr>s_id = sm_next sm, s_ip = ip, s_limiter = map_option (\<lambda>l. [NewLimiter l (sm_burst sm)]) (sm_lim sm),
      stickyID = [], lastSeen = now\<rparr>"

definition Get_write :: "time \<Rightarrow> string \<Rightarrow> SessionManager \<Rightarrow> handle \<times> SessionManager" where
  "Get_write now ip sm =
     (case map_of (byIP sm) ip of
        Some s \<Rightarrow> ((ip, s_id s), upd_session (ip, s_id s) (touch now) sm)
      | None \<Rightarrow>
          ((ip, sm_next sm),
           sm\<lparr>byIP := byIP sm @ [(ip, newSession now ip sm)], sm_next := sm_next sm + 1\<rparr>))"

definition session_Get :: "time \<Rightarrow> string \<Rightarrow> SessionManager \<Rightarrow> handle \<times> SessionManager" where
  "session_Get now ip sm =
     (case Get_read now ip sm of (Some h, sm1) \<Rightarrow> (h, sm1) | (None, sm1) \<Rightarrow> Get_write now ip sm1)"

definition sess_Allow :: "(limiter \<Rightarrow> time \<Rightarrow> real) \<Rightarrow> time \<Rightarrow> Session \<Rightarrow> bool \<times> Session" where
  "sess_Allow tokens now s =
     (case s_limiter s of
        None \<Rightarrow> (True, s)
      | Some l \<Rightarrow> (tokens l now \<ge> 1, s\<lparr>s_limiter := Some (l @ [Allow now])\<rparr>))"

definition SetSticky :: "string \<Rightarrow> Session \<Rightarrow> Session" where
  "SetSticky i s = s\<lparr>stickyID := i\<rparr>"

text \<open>One tick of \<open>StartCleanup\<close>.\<close>

definition cleanup :: "time \<Rightarrow> SessionManager \<Rightarrow> SessionManager" where
  "cleanup now sm =
     (let cutoff = now - sm_timeout sm in
      sm\<lparr>byIP := filter (\<lambda>(ip, s). \<not> lastSeen s < cutoff) (byIP sm)\<rparr>)"

definition cleanup_interval :: "SessionManager \<Rightarrow> duration" where
  "cleanup_interval sm =
     (let interval = sm_timeout sm div 2 in if interval < minute then minute else interval)"

definition ActiveSessions :: "SessionManager \<Rightarrow> nat" where
  "ActiveSessions sm = length (byIP sm)"


section \<open>Sticky sessions\<close>

definition incr_count :: "string \<Rightarrow> (string \<times> int) list \<Rightarrow> (string \<times> int) list" where
  "incr_count i counts = AList.update i ((case map_of counts i of None \<Rightarrow> 0 | Some c \<Rightarrow> c) + 1) counts"

definition decr_count :: "string \<Rightarrow> (string \<times> int) list \<Rightarrow> (string \<times> int) list" where
  "decr_count i counts = AList.update i ((case map_of counts i of None \<Rightarrow> 0 | Some c \<Rightarrow> c) - 1) counts"

definition count_of :: "(string \<times> int) list \<Rightarrow> string \<Rightarrow> int" where
  "count_of counts i = (case map_of counts i of None \<Rightarrow> 0 | Some c \<Rightarrow> c)"

definition StickyCounts :: "SessionManager \<Rightarrow> (string \<times> int) list" where
  "StickyCounts sm =
     foldl (\<lambda>counts (ip, s). if stickyID s \<noteq> [] then incr_count (stickyID s) counts else counts) [] (byIP sm)"

text \<open>The moving loop of \<open>rebalance\<close>, over the sessions not visited yet.\<close>

fun rebalance_loop ::
  "int \<Rightarrow> real \<Rightarrow> string list \<Rightarrow> (string \<times> int) list \<Rightarrow> int \<Rightarrow> nat \<Rightarrow> (string \<times> Session) list \<Rightarrow> (string \<times> Session) list" where
  "rebalance_loop maxSweep maxLoad underloaded counts moved uidx [] = []"
| "rebalance_loop maxSweep maxLoad underloaded counts moved uidx ((ip, s) # rest) =
     (if moved \<ge> maxSweep then (ip, s) # rest
      else if stickyID s \<noteq> [] \<and> real_of_int (count_of counts (stickyID s)) > maxLoad then
        let newID = underloaded ! (uidx mod length underloaded) in
        (ip, s\<lparr>stickyID := newID\<rparr>) #
          rebalance_loop maxSweep maxLoad underloaded (incr_count newID (decr_count (stickyID s) counts)) (moved + 1) (uidx + 1) rest
      else (ip, s) # rebalance_loop maxSweep maxLoad underloaded counts moved uidx rest)"

definition mean_load :: "(string \<times> int) list \<Rightarrow> real" where
  "mean_load counts = real_of_int (sum_list (map snd counts)) / real (length counts)"

definition underloaded_ids :: "time \<Rightarrow> Pool \<Rightarrow> (string \<times> int) list \<Rightarrow> string list" where
  "underloaded_ids now p counts =
     map u_ID (filter (\<lambda>u. IsReady now u \<and> real_of_int (count_of counts (u_ID u)) < mean_load counts) (upstreams p))"

definition rebalance :: "time \<Rightarrow> Pool \<Rightarrow> real \<Rightarrow> int \<Rightarrow> SessionManager \<Rightarrow> SessionManager" where
  "rebalance now p threshold maxSweep sm =
     (let counts = StickyCounts sm; underloaded = underloaded_ids now p counts in
      if counts = [] \<or> underloaded = [] then sm
      else sm\<lparr>byIP := rebalance_loop maxSweep (mean_load counts * threshold) underloaded counts 0 0 (byIP sm)\<rparr>)"



section \<open>Histories\<close>

text \<open>The steps of concurrent requests and of the two background loops, each of which holds the table's lock.\<close>

datatype session_op =
    SRead time string
  | SWrite time string
  | SAllow time handle
  | SSticky string handle
  | SCleanup time
  | SRebalance time Pool real int

fun session_exec :: "(limiter \<Rightarrow> time \<Rightarrow> real) \<Rightarrow> session_op \<Rightarrow> SessionManager \<Rightarrow> SessionManager" where
  "session_exec tokens (SRead now ip) sm = snd (Get_read now ip sm)"
| "session_exec tokens (SWrite now ip) sm = snd (Get_write now ip sm)"
| "session_exec tokens (SAllow now h) sm = upd_session h (\<lambda>s. snd (sess_Allow tokens now s)) sm"
| "session_exec tokens (SSticky i h) sm = upd_session h (SetSticky i) sm"
| "session_exec tokens (SCleanup now) sm = cleanup now sm"
| "session_exec tokens (SRebalance now p threshold maxSweep) sm = rebalance now p threshold maxSweep sm"

text \<open>The times a step reads lie in an interval.\<close>

fun op_within :: "time \<Rightarrow> time \<Rightarrow> session_op \<Rightarrow> bool" where
  "op_within t0 t1 (SRead now ip) = (t0 \<le> now \<and> now \<le> t1)"
| "op_within t0 t1 (SWrite now ip) = (t0 \<le> now \<and> now \<le> t1)"
| "op_within t0 t1 (SAllow now h) = (t0 \<le> now \<and> now \<le> t1)"
| "op_within t0 t1 (SSticky i h) = True"
| "op_within t0 t1 (SCleanup now) = (t0 \<le> now \<and> now \<le> t1)"
| "op_within t0 t1 (SRebalance now p threshold maxSweep) = (t0 \<le> now \<and> now \<le> t1)"

text \<open>A session is filed under its address, has a number of its own, and has a limiter of the table's rate
  exactly if the table limits rates.\<close>

definition session_ok :: "SessionManager \<Rightarrow> string \<Rightarrow> Session \<Rightarrow> bool" where
  "session_ok sm ip s \<longleftrightarrow> s_ip s = ip \<and> s_id s < sm_next sm \<and>
     (case (s_limiter s, sm_lim sm) of
        (None, None) \<Rightarrow> True
      | (Some l, Some r) \<Rightarrow> l \<noteq> [] \<and> hd l = NewLimiter r (sm_burst sm) \<and> list_all (\<lambda>c. \<exists>t. c = Allow t) (tl l)
      | _ \<Rightarrow> False)"

definition sess_inv :: "SessionManager \<Rightarrow> bool" where
  "sess_inv sm \<longleftrightarrow> distinct (map fst (byIP sm)) \<and> distinct (map (s_id \<circ> snd) (byIP sm)) \<and>
     list_all (\<lambda>x. session_ok sm (fst x) (snd x)) (byIP sm)"

lemma session_ok_cong:
  "sm_next sm' = sm_next sm \<Longrightarrow> sm_lim sm' = sm_lim sm \<Longrightarrow> sm_burst sm' = sm_burst sm \<Longrightarrow> session_ok sm' = session_ok sm"
  by (intro ext) (simp add: session_ok_def cong: option.case_cong)

lemma map_fst_upd [simp]: "map fst (byIP (upd_session h f sm)) = map fst (byIP sm)"
  by (simp add: upd_session_def comp_def case_prod_beta)

lemma upd_session_fields [simp]:
  "sm_lim (upd_session h f sm) = sm_lim sm" "sm_burst (upd_session h f sm) = sm_burst sm"
  "sm_next (upd_session h f sm) = sm_next sm" "sm_timeout (upd_session h f sm) = sm_timeout sm"
  by (simp_all add: upd_session_def)

lemma map_of_upd:
  "map_of (byIP (upd_session h f sm)) ip =
     map_option (\<lambda>s. if ip = fst h \<and> s_id s = snd h then f s else s) (map_of (byIP sm) ip)"
proof -
  have "map_of (map (\<lambda>(ip, s). (ip, g ip s)) xs) ip = map_option (g ip) (map_of xs ip)"
    for g :: "string \<Rightarrow> Session \<Rightarrow> Session" and xs by (induction xs) auto
  then show ?thesis by (simp add: upd_session_def)
qed

lemma upd_session_inv:
  assumes "sess_inv sm" "\<And>s. s_id (f s) = s_id s" "\<And>ip s. session_ok sm ip s \<Longrightarrow> session_ok sm ip (f s)"
  shows "sess_inv (upd_session h f sm)"
proof -
  have "map (s_id \<circ> snd) (byIP (upd_session h f sm)) = map (s_id \<circ> snd) (byIP sm)"
    using assms(2) by (simp add: upd_session_def case_prod_beta)
  moreover have "session_ok (upd_session h f sm) = session_ok sm" by (rule session_ok_cong) simp_all
  moreover have "list_all (\<lambda>x. session_ok sm (fst x) (snd x)) (byIP (upd_session h f sm))"
    using assms(1,3) unfolding sess_inv_def upd_session_def by (simp add: list_all_iff case_prod_beta) metis
  ultimately show ?thesis using assms(1) by (simp add: sess_inv_def)
qed

lemma touch_inv: "sess_inv sm \<Longrightarrow> sess_inv (upd_session h (touch now) sm)"
  by (rule upd_session_inv) (simp_all add: touch_def session_ok_def)

lemma Get_read_inv: "sess_inv sm \<Longrightarrow> sess_inv (snd (Get_read now ip sm))"
  by (simp add: Get_read_def touch_inv split: option.splits)

lemma session_ok_next: "session_ok sm ip s \<Longrightarrow> session_ok (sm\<lparr>byIP := b, sm_next := sm_next sm + 1\<rparr>) ip s"
  by (auto simp: session_ok_def cong: option.case_cong)

lemma newSession_ok: "session_ok (sm\<lparr>byIP := b, sm_next := sm_next sm + 1\<rparr>) ip (newSession now ip sm)"
  by (simp add: session_ok_def newSession_def split: option.splits)

lemma Get_write_inv:
  assumes "sess_inv sm"
  shows "sess_inv (snd (Get_write now ip sm))"
proof (cases "map_of (byIP sm) ip")
  case None
  have "sm_next sm \<notin> (s_id \<circ> snd) ` set (byIP sm)"
    using assms by (auto simp: sess_inv_def session_ok_def list_all_iff)
  moreover have "s_id (newSession now ip sm) = sm_next sm" by (simp add: newSession_def)
  moreover have "ip \<notin> fst ` set (byIP sm)" using None by (simp add: map_of_eq_None_iff)
  moreover have "snd (Get_write now ip sm) = sm\<lparr>byIP := byIP sm @ [(ip, newSession now ip sm)], sm_next := sm_next sm + 1\<rparr>"
    using None by (simp add: Get_write_def)
  moreover have "list_all (\<lambda>x. session_ok (sm\<lparr>byIP := b, sm_next := sm_next sm + 1\<rparr>) (fst x) (snd x)) (byIP sm)" for b
    using assms session_ok_next unfolding sess_inv_def list_all_iff by blast
  ultimately show ?thesis using assms newSession_ok [of sm _ ip now] by (simp add: sess_inv_def)
next
  case (Some s)
  then show ?thesis using assms by (simp add: Get_write_def touch_inv)
qed

lemma Allow_inv: "sess_inv sm \<Longrightarrow> sess_inv (upd_session h (\<lambda>s. snd (sess_Allow tokens now s)) sm)"
  by (rule upd_session_inv) (auto simp: sess_Allow_def session_ok_def split: option.splits)

lemma Sticky_inv: "sess_inv sm \<Longrightarrow> sess_inv (upd_session h (SetSticky i) sm)"
  by (rule upd_session_inv) (simp_all add: SetSticky_def session_ok_def)

lemma cleanup_inv: "sess_inv sm \<Longrightarrow> sess_inv (cleanup now sm)"
  using session_ok_cong [of "cleanup now sm" sm]
  by (auto simp: sess_inv_def cleanup_def Let_def list_all_iff distinct_map inj_on_def)

text \<open>The rebalancer changes nothing of a session but its sticky upstream.\<close>

definition unstick :: "string \<times> Session \<Rightarrow> string \<times> Session" where
  "unstick x = (fst x, (snd x)\<lparr>stickyID := []\<rparr>)"

lemma rebalance_loop_unstick:
  "map unstick (rebalance_loop maxSweep maxLoad underloaded counts moved uidx xs) = map unstick xs"
  by (induction maxSweep maxLoad underloaded counts moved uidx xs rule: rebalance_loop.induct)
    (simp_all add: Let_def unstick_def)

lemma unstick_same: "unstick x = unstick y \<Longrightarrow> fst x = fst y \<and> s_id (snd x) = s_id (snd y) \<and> s_ip (snd x) = s_ip (snd y) \<and>
  s_limiter (snd x) = s_limiter (snd y) \<and> lastSeen (snd x) = lastSeen (snd y)"
  by (cases "snd x"; cases "snd y") (simp add: unstick_def)

lemma map_unstick_transfer:
  assumes "map unstick xs = map unstick ys" "\<And>x y. unstick x = unstick y \<Longrightarrow> g x = g y"
  shows "map g xs = map g ys"
  using assms(1)
proof (induction xs arbitrary: ys)
  case (Cons x xs)
  then obtain y ys' where ys: "ys = y # ys'" "unstick x = unstick y" "map unstick xs = map unstick ys'" by (cases ys) auto
  show ?case using Cons.IH [OF ys(3)] assms(2) [OF ys(2)] by (simp add: ys(1))
qed simp

lemma rebalance_unstick: "map unstick (byIP (rebalance now p threshold maxSweep sm)) = map unstick (byIP sm)"
  by (simp add: rebalance_def Let_def rebalance_loop_unstick)

lemma rebalance_fields [simp]:
  "sm_lim (rebalance now p th ms sm) = sm_lim sm" "sm_burst (rebalance now p th ms sm) = sm_burst sm"
  "sm_next (rebalance now p th ms sm) = sm_next sm" "sm_timeout (rebalance now p th ms sm) = sm_timeout sm"
  by (simp_all add: rebalance_def Let_def)

lemma rebalance_inv:
  assumes "sess_inv sm"
  shows "sess_inv (rebalance now p threshold maxSweep sm)"
proof -
  let ?sm = "rebalance now p threshold maxSweep sm"
  note same = map_unstick_transfer [OF rebalance_unstick [of now p threshold maxSweep sm]]
  have "map fst (byIP ?sm) = map fst (byIP sm)" by (rule same) (drule unstick_same, simp)
  moreover have "map (s_id \<circ> snd) (byIP ?sm) = map (s_id \<circ> snd) (byIP sm)" by (rule same) (drule unstick_same, simp)
  moreover have "map (\<lambda>x. session_ok sm (fst x) (snd x)) (byIP ?sm) = map (\<lambda>x. session_ok sm (fst x) (snd x)) (byIP sm)"
    by (rule same) (drule unstick_same, simp add: session_ok_def)
  moreover have "list_all P xs \<longleftrightarrow> False \<notin> set (map P xs)" for P :: "string \<times> Session \<Rightarrow> bool" and xs
    by (auto simp: list_all_iff)
  moreover have "session_ok ?sm = session_ok sm" by (rule session_ok_cong) simp_all
  ultimately show ?thesis using assms unfolding sess_inv_def by metis
qed

interpretation sessions: machine "session_exec tokens" sess_inv "\<lambda>_. True"
proof
  show "sess_inv (session_exec tokens op sm)" if "sess_inv sm" for sm op
    using that by (cases op) (simp_all add: Get_read_inv Get_write_inv Allow_inv Sticky_inv cleanup_inv rebalance_inv)
qed

lemma sess_inv_reachable: "sess_inv (fold (session_exec tokens) ops (newSessionManager rate burst timeout))"
  by (rule sessions.run_keeps) (simp_all add: newSessionManager_def sess_inv_def list.pred_True)



section \<open>Retention\<close>

text \<open>A session seen at or after \<open>t0\<close> is in the table.\<close>

definition held :: "time \<Rightarrow> handle \<Rightarrow> SessionManager \<Rightarrow> bool" where
  "held t0 h sm \<longleftrightarrow> (\<exists>s. map_of (byIP sm) (fst h) = Some s \<and> s_id s = snd h \<and> t0 \<le> lastSeen s)"

lemma held_upd:
  assumes "held t0 h sm" "\<And>s. s_id (f s) = s_id s" "\<And>s. lastSeen s \<ge> t0 \<Longrightarrow> lastSeen (f s) \<ge> t0"
  shows "held t0 h (upd_session h' f sm)"
proof -
  obtain s where s: "map_of (byIP sm) (fst h) = Some s" "s_id s = snd h" "t0 \<le> lastSeen s"
    using assms(1) by (auto simp: held_def)
  then show ?thesis using assms(2,3) by (cases "fst h = fst h' \<and> s_id s = snd h'") (simp_all add: held_def map_of_upd)
qed

lemma held_read: "held t0 h sm \<Longrightarrow> t0 \<le> now \<Longrightarrow> held t0 h (snd (Get_read now ip sm))"
  using held_upd [of t0 h sm "touch now"] by (auto simp: Get_read_def touch_def split: option.splits)

lemma held_write:
  assumes "held t0 h sm" "t0 \<le> now"
  shows "held t0 h (snd (Get_write now ip sm))"
proof (cases "map_of (byIP sm) ip")
  case None
  then show ?thesis using assms(1) by (auto simp: Get_write_def held_def map_add_def)
next
  case (Some s)
  then show ?thesis using held_upd [of t0 h sm "touch now"] assms by (simp add: Get_write_def touch_def)
qed

lemma held_cleanup:
  assumes "held t0 h sm" "sess_inv sm" "now \<le> t0 + sm_timeout sm"
  shows "held t0 h (cleanup now sm)"
proof -
  obtain s where s: "map_of (byIP sm) (fst h) = Some s" "s_id s = snd h" "t0 \<le> lastSeen s"
    using assms(1) by (auto simp: held_def)
  have "map_of (filter P xs) k = Some v" if "map_of xs k = Some v" "P (k, v)" "distinct (map fst xs)" for P k v and xs :: "(string \<times> Session) list"
    using that by (intro map_of_is_SomeI) (auto simp: distinct_map_filter dest: map_of_SomeD)
  then have "map_of (byIP (cleanup now sm)) (fst h) = Some s"
    using s assms(2,3) by (simp add: cleanup_def Let_def sess_inv_def)
  then show ?thesis using s by (auto simp: held_def)
qed

lemma map_of_unstick: "map_of (map unstick xs) ip = map_option (\<lambda>s. s\<lparr>stickyID := []\<rparr>) (map_of xs ip)"
  by (induction xs) (auto simp: unstick_def)

lemma held_rebalance:
  assumes "held t0 h sm"
  shows "held t0 h (rebalance now p threshold maxSweep sm)"
proof -
  let ?xs = "byIP (rebalance now p threshold maxSweep sm)"
  obtain s where s: "map_of (byIP sm) (fst h) = Some s" "s_id s = snd h" "t0 \<le> lastSeen s"
    using assms by (auto simp: held_def)
  have "map_option (\<lambda>s. s\<lparr>stickyID := []\<rparr>) (map_of ?xs (fst h)) = Some (s\<lparr>stickyID := []\<rparr>)"
    using rebalance_unstick [of now p threshold maxSweep sm] s(1) by (simp flip: map_of_unstick) (simp add: map_of_unstick)
  then obtain s' where "map_of ?xs (fst h) = Some s'" "unstick ([], s') = unstick ([], s)" by (auto simp: unstick_def)
  then show ?thesis using s unstick_same [of "([], s')" "([], s)"] by (auto simp: held_def)
qed

lemma held_step:
  assumes "held t0 h sm" "sess_inv sm" "sm_timeout sm = timeout" "op_within t0 (t0 + timeout) op"
  shows "held t0 h (session_exec tokens op sm)"
  using assms
  by (cases op) (auto simp: held_read held_write held_cleanup held_rebalance SetSticky_def sess_Allow_def split: option.splits
      intro!: held_upd)

lemma timeout_step: "sm_timeout (session_exec tokens op sm) = sm_timeout sm"
  by (cases op) (simp_all add: Get_read_def Get_write_def cleanup_def Let_def split: option.splits)

lemma timeout_run: "sm_timeout (fold (session_exec tokens) ops sm) = sm_timeout sm"
  by (induction ops arbitrary: sm) (simp_all add: timeout_step)

interpretation holding: machine "session_exec tokens" "\<lambda>sm. sess_inv sm \<and> sm_timeout sm = timeout \<and> held t0 h sm" "op_within t0 (t0 + timeout)"
  by unfold_locales (auto simp: held_step timeout_step intro: sessions.step_keeps)

lemma Get_held: "held t0 h sm \<Longrightarrow> fst (session_Get now (fst h) sm) = h"
  by (auto simp: held_def session_Get_def Get_read_def prod_eq_iff)

lemma Get_gives_held: "held now (fst (session_Get now ip sm)) (snd (session_Get now ip sm)) \<and> fst (fst (session_Get now ip sm)) = ip"
  by (auto simp: session_Get_def Get_read_def Get_write_def held_def map_of_upd touch_def newSession_def map_add_def
      split: option.splits)

lemma Get_inv: "sess_inv sm \<Longrightarrow> sess_inv (snd (session_Get now ip sm))"
  using Get_read_inv [of sm now ip] Get_write_inv [of sm now ip]
  by (auto simp: session_Get_def Get_read_def split: option.splits)

lemma Get_timeout: "sm_timeout (snd (session_Get now ip sm)) = sm_timeout sm"
  by (auto simp: session_Get_def Get_read_def Get_write_def split: option.splits)



section \<open>Counting sticky sessions\<close>

definition sticky_n :: "(string \<times> Session) list \<Rightarrow> string \<Rightarrow> int" where
  "sticky_n xs i = int (length (filter (\<lambda>x. stickyID (snd x) = i) xs))"

lemma sticky_n_Nil [simp]: "sticky_n [] i = 0"
  by (simp add: sticky_n_def)

lemma sticky_n_Cons [simp]: "sticky_n (x # xs) i = (if stickyID (snd x) = i then 1 else 0) + sticky_n xs i"
  by (simp add: sticky_n_def)

lemma count_of_incr [simp]: "count_of (incr_count i c) j = count_of c j + (if j = i then 1 else 0)"
  by (simp add: count_of_def incr_count_def update_conv')

lemma count_of_decr [simp]: "count_of (decr_count i c) j = count_of c j - (if j = i then 1 else 0)"
  by (simp add: count_of_def decr_count_def update_conv')

lemma StickyCounts_acc:
  "count_of (foldl (\<lambda>counts (ip, s). if stickyID s \<noteq> [] then incr_count (stickyID s) counts else counts) c xs) i =
     count_of c i + (if i = [] then 0 else sticky_n xs i)"
  by (induction xs arbitrary: c) auto

lemma StickyCounts_eq: "count_of (StickyCounts sm) i = (if i = [] then 0 else sticky_n (byIP sm) i)"
  using StickyCounts_acc [of "[]" "byIP sm" i] by (simp add: StickyCounts_def count_of_def)

text \<open>The running counts of the loop are the true counts: \<open>d\<close> counts the sessions already visited.\<close>

lemma rebalance_loop_floor:
  assumes "\<And>i. i \<noteq> [] \<Longrightarrow> count_of counts i = d i + sticky_n xs i" "i \<noteq> []"
  shows "d i + sticky_n (rebalance_loop maxSweep maxLoad underloaded counts moved uidx xs) i \<ge> d i + sticky_n xs i \<or>
    real_of_int (d i + sticky_n (rebalance_loop maxSweep maxLoad underloaded counts moved uidx xs) i) > maxLoad - 1"
  using assms(1)
proof (induction maxSweep maxLoad underloaded counts moved uidx xs arbitrary: d rule: rebalance_loop.induct)
  case (2 maxSweep maxLoad underloaded counts moved uidx ip s rest)
  let ?new = "underloaded ! (uidx mod length underloaded)"
  let ?d = "\<lambda>n j. d j + (if j = n then 1 else 0)"
  consider (stop) "moved \<ge> maxSweep" | (move) "\<not> moved \<ge> maxSweep" "stickyID s \<noteq> []" "real_of_int (count_of counts (stickyID s)) > maxLoad"
    | (stay) "\<not> moved \<ge> maxSweep" "\<not> (stickyID s \<noteq> [] \<and> real_of_int (count_of counts (stickyID s)) > maxLoad)" by blast
  then show ?case
  proof cases
    case move
    let ?counts = "incr_count ?new (decr_count (stickyID s) counts)"
    have eq: "count_of ?counts j = ?d ?new j + sticky_n rest j" if "j \<noteq> []" for j using 2(3) [OF that] by auto
    have "real_of_int (d (stickyID s) + 1 + sticky_n rest (stickyID s)) > maxLoad" using move 2(3) [of "stickyID s"] by simp
    then show ?thesis using 2(1) [OF move(1) _ refl eq] move by (auto simp: Let_def split: if_splits)
  next
    case stay
    have eq: "count_of counts j = ?d (stickyID s) j + sticky_n rest j" if "j \<noteq> []" for j using 2(3) [OF that] by auto
    show ?thesis using 2(2) [OF stay eq] stay by auto
  qed simp
qed simp

lemma rebalance_loop_moves:
  assumes "underloaded \<noteq> []"
  shows "list_all2 (\<lambda>x y. stickyID (snd y) = stickyID (snd x) \<or> stickyID (snd y) \<in> set underloaded)
      xs (rebalance_loop maxSweep maxLoad underloaded counts moved uidx xs)"
  using assms
  by (induction maxSweep maxLoad underloaded counts moved uidx xs rule: rebalance_loop.induct)
    (auto simp: Let_def list.rel_refl)

lemma rebalance_loop_bound:
  "int (length (filter (\<lambda>(x, y). stickyID (snd x) \<noteq> stickyID (snd y))
      (zip xs (rebalance_loop maxSweep maxLoad underloaded counts moved uidx xs)))) \<le> max 0 (maxSweep - moved)"
proof (induction maxSweep maxLoad underloaded counts moved uidx xs rule: rebalance_loop.induct)
  case (2 maxSweep maxLoad underloaded counts moved uidx ip s rest)
  have "filter (\<lambda>(x, y). stickyID (snd x) \<noteq> stickyID (snd y)) (zip rest rest) = []" by (induction rest) auto
  then show ?case using 2 by (auto simp: Let_def)
qed simp


text \<open>With all sticky sessions on one upstream the mean is that upstream's own load, and nothing ever moves.\<close>

lemma StickyCounts_single:
  assumes "list_all (\<lambda>x. stickyID (snd x) = [] \<or> stickyID (snd x) = i) xs" "c = [] \<or> (\<exists>n. c = [(i, n)])"
  defines "r \<equiv> foldl (\<lambda>counts (ip, s). if stickyID s \<noteq> [] then incr_count (stickyID s) counts else counts) c xs"
  shows "r = [] \<or> (\<exists>n. r = [(i, n)])"
  using assms(1,2) unfolding r_def
proof (induction xs arbitrary: c)
  case (Cons x xs)
  have "incr_count i c = [] \<or> (\<exists>n. incr_count i c = [(i, n)])" using Cons.prems(2) by (auto simp: incr_count_def)
  then show ?case using Cons by (cases "stickyID (snd x) = []") (simp_all add: case_prod_beta)
qed simp

lemma rebalance_loop_idle:
  "list_all (\<lambda>x. stickyID (snd x) = [] \<or> real_of_int (count_of counts (stickyID (snd x))) \<le> maxLoad) xs \<Longrightarrow>
   rebalance_loop maxSweep maxLoad underloaded counts moved uidx xs = xs"
  by (induction maxSweep maxLoad underloaded counts moved uidx xs rule: rebalance_loop.induct) auto

lemma rebalance_stuck:
  assumes "list_all (\<lambda>x. stickyID (snd x) = [] \<or> stickyID (snd x) = i) (byIP sm)" "threshold \<ge> 1"
  shows "rebalance now p threshold maxSweep sm = sm"
proof -
  consider "StickyCounts sm = []" | n where "StickyCounts sm = [(i, n)]"
    using StickyCounts_single [OF assms(1), of "[]"] unfolding StickyCounts_def by auto
  then show ?thesis
  proof cases
    case 2
    have "n \<ge> 0" if "i \<noteq> []" using StickyCounts_eq [of sm i] 2 that by (simp add: count_of_def sticky_n_def)
    then have "real_of_int n \<le> real_of_int n * threshold" if "i \<noteq> []" using assms(2) that by (simp add: mult_le_cancel_left1)
    then have "list_all (\<lambda>x. stickyID (snd x) = [] \<or> real_of_int (count_of [(i, n)] (stickyID (snd x))) \<le> mean_load [(i, n)] * threshold) (byIP sm)"
      using assms(1) by (auto simp: list_all_iff count_of_def mean_load_def)
    then show ?thesis using 2 rebalance_loop_idle by (simp add: rebalance_def Let_def)
  qed (simp add: rebalance_def)
qed


section \<open>Forwarding chains\<close>

lemma xff_walk_append:
  "xff_walk trusted (xs @ ys) = (case xff_walk trusted xs of None \<Rightarrow> xff_walk trusted ys | Some ip \<Rightarrow> Some ip)"
  by (induction xs) (simp_all add: Let_def)

lemma xff_walk_skips: "list_all (\<lambda>p. TrimSpace p = [] \<or> trusted (TrimSpace p)) xs \<Longrightarrow> xff_walk trusted xs = None"
  by (induction xs) (auto simp: Let_def)

lemma xff_client_behind:
  assumes "TrimSpace client \<noteq> []" "\<not> trusted (TrimSpace client)" "CHR '','' \<notin> set client"
    "list_all (\<lambda>p. TrimSpace p = [] \<or> trusted (TrimSpace p)) hops" "list_all (\<lambda>p. CHR '','' \<notin> set p) hops"
  shows "xff_client trusted (spoofed @ '','' @ Join (client # hops) '','') = Some (TrimSpace client)"
proof -
  have "SplitByte (CHR '','') (Join (client # hops) '','') = client # hops"
    using assms(3,5) by (intro SplitByte_Join) (auto simp: list_all_iff)
  then have "SplitByte (CHR '','') (spoofed @ '','' @ Join (client # hops) '','') = SplitByte (CHR '','') spoofed @ client # hops"
    using SplitByte_append_sep [of "CHR '',''" spoofed "Join (client # hops) '',''"] by simp
  moreover have "xff_walk trusted (rev hops) = None" using assms(4) by (intro xff_walk_skips) (simp add: list_all_iff)
  ultimately show ?thesis using assms(1,2) by (simp add: xff_client_def Let_def xff_walk_append)
qed

text \<open>A trusted proxy written as an IPv4-mapped IPv6 address matches no peer: peers are unmapped before the
  comparison, the configured address is not.\<close>

lemma mapped_proxy_never_matches:
  assumes "drop_bit 32 a = 0xFFFF"
  shows "\<not> prefix_Contains (PrefixFrom (IPv6 a zone) (BitLen (IPv6 a zone))) (Unmap b)"
proof (cases b)
  case (IPv6 c z)
  show ?thesis
  proof (cases "a = c")
    case True
    then show ?thesis using assms IPv6 by (simp add: PrefixFrom_def)
  next
    case False
    have "(c XOR a) XOR a = c" by (simp only: xor.assoc xor_self_eq xor.right_neutral)
    then have "c XOR a \<noteq> 0" using False by auto
    then show ?thesis using IPv6 by (simp add: PrefixFrom_def)
  qed
qed (simp add: PrefixFrom_def)


section \<open>Properties\<close>



text \<open>C37 One client, one session: however the steps of concurrent requests, of the cleanup and of the
  rebalancer interleave, an address has at most one session, sessions are never confused, every session has a
  limiter of the configured rate exactly if rates are limited, and a session that was handed out is handed out
  again for as long as the client comes back within the timeout.\<close>

theorem session_retained:
  assumes "sm = fold (session_exec tokens) history (newSessionManager rate burst timeout)"
    "list_all (op_within t0 (t0 + timeout)) ops"
  shows "sess_inv sm \<and>
    (let (h, sm1) = session_Get t0 ip sm in
       fst (session_Get t1 ip (fold (session_exec tokens) ops sm1)) = h)"
proof -
  let ?h = "fst (session_Get t0 ip sm)" and ?sm1 = "snd (session_Get t0 ip sm)"
  have inv: "sess_inv sm" using assms(1) sess_inv_reachable by simp
  have "sm_timeout ?sm1 = timeout" using assms(1) by (simp add: Get_timeout timeout_run newSessionManager_def)
  then have "held t0 ?h (fold (session_exec tokens) ops ?sm1)"
    using holding.run_keeps [of ?sm1 timeout t0 ?h ops tokens] assms(2) Get_inv [OF inv] Get_gives_held [of t0 ip sm] by simp
  then show ?thesis using inv Get_held [of t0 ?h _ t1] Get_gives_held [of t0 ip sm] by (simp add: case_prod_beta)
qed

lemma session_retained_witness:
  "fst (session_Get 9 ''a'' (fold (session_exec (\<lambda>_ _. 1)) [SCleanup 8, SWrite 8 ''b'']
     (snd (session_Get 5 ''a'' (newSessionManager 2 1 4))))) = fst (session_Get 5 ''a'' (newSessionManager 2 1 4))"
  using session_retained [of "newSessionManager 2 1 4" "\<lambda>_ _. 1" "[]" 2 1 4 5 "[SCleanup 8, SWrite 8 ''b'']" "''a''" 9]
  by (simp add: case_prod_beta)


end
