(* ===== verification/Memory_Store.thy ===== *)
theory Memory_Store
  imports Config_Types
begin

text \<open>
  The in-memory response store of \<open>src/cache/memory.go\<close> with the entries of \<open>src/cache/cache.go\<close>.

  The store keeps a doubly linked list of entries in order of use and a map from keys to list elements.
  The model keeps both: an element of the list is a pair of its address and the entry it carries, and
  \<open>items\<close> maps a key to an address.  \<open>store_inv\<close> ties the two together.  A zero \<open>expires\<close> time is
  \<^const>\<open>None\<close>.  The abstract store is the list of entries alone, with one operation per method; the
  refinement lemmas show that map and list implement it.
\<close>

section \<open>Entries\<close>

type_synonym header = "(string \<times> string list) list"

record Entry =
  e_key :: string
  e_status :: int
  e_headers :: header
  e_body :: string
  e_created :: time
  e_expires :: "time option"
  e_gzipBody :: "string option"

definition expired :: "time \<Rightarrow> Entry \<Rightarrow> bool" where
  "expired now e = (case e_expires e of None \<Rightarrow> False | Some x \<Rightarrow> now > x)"

text \<open>\<open>GzipBody\<close> compresses the body once; the compressed copy stays with the entry.\<close>

definition GzipBody :: "(string \<Rightarrow> string) \<Rightarrow> Entry \<Rightarrow> string \<times> Entry" where
  "GzipBody compress e =
     (case e_gzipBody e of
        Some b \<Rightarrow> (b, e)
      | None \<Rightarrow> (compress (e_body e), e\<lparr>e_gzipBody := Some (compress (e_body e))\<rparr>))"

definition cloneEntry :: "Entry \<Rightarrow> Entry" where
  "cloneEntry e = e\<lparr>e_gzipBody := None\<rparr>"


section \<open>The store\<close>

type_synonym element = "nat \<times> Entry"

record MemoryStore =
  items :: "string \<rightharpoonup> nat"
  lru :: "element list"
  maxSize :: int
  next_addr :: nat

definition NewMemoryStore :: "int \<Rightarrow> MemoryStore" where
  "NewMemoryStore n =
     \<lparr>items = Map.empty, lru = [], maxSize = (if n \<le> 0 then 2048 else n), next_addr = 0\<rparr>"

text \<open>The operations of \<open>container/list\<close>: removal by element and moving an element to the front.\<close>

definition list_Remove :: "nat \<Rightarrow> element list \<Rightarrow> element list" where
  "list_Remove a l = filter (\<lambda>el. fst el \<noteq> a) l"

definition list_MoveToFront :: "nat \<Rightarrow> element list \<Rightarrow> element list" where
  "list_MoveToFront a l =
     (case map_of l a of None \<Rightarrow> l | Some e \<Rightarrow> (a, e) # list_Remove a l)"

text \<open>Removing an element from the list and its key from the map, as every branch that drops an entry does.\<close>

definition drop_element :: "nat \<Rightarrow> string \<Rightarrow> MemoryStore \<Rightarrow> MemoryStore" where
  "drop_element a key m = m\<lparr>lru := list_Remove a (lru m), items := (items m)(key := None)\<rparr>"

definition mem_Get :: "time \<Rightarrow> string \<Rightarrow> MemoryStore \<Rightarrow> Entry option \<times> MemoryStore" where
  "mem_Get now key m =
     (case items m key of
        None \<Rightarrow> (None, m)
      | Some a \<Rightarrow>
          (case map_of (lru m) a of
             None \<Rightarrow> (None, m)
           | Some e \<Rightarrow>
               if expired now e then (None, drop_element a key m)
               else (Some e, m\<lparr>lru := list_MoveToFront a (lru m)\<rparr>)))"

function evict :: "MemoryStore \<Rightarrow> MemoryStore" where
  "evict m =
     (if int (length (lru m)) \<ge> maxSize m then
        (case rev (lru m) of
           [] \<Rightarrow> m
         | (a, old) # _ \<Rightarrow> evict (drop_element a (e_key old) m))
      else m)"
  by pat_completeness auto

definition list_SetValue :: "nat \<Rightarrow> Entry \<Rightarrow> element list \<Rightarrow> element list" where
  "list_SetValue a v l = map (\<lambda>el. if fst el = a then (a, v) else el) l"

lemma list_Remove_last: "rev l = el # r \<Longrightarrow> length (list_Remove (fst el) l) < length l"
proof -
  assume "rev l = el # r"
  then have "el \<in> set l" by (metis list.set_intros(1) set_rev)
  then show ?thesis unfolding list_Remove_def by (intro length_filter_less) auto
qed

termination evict
proof (relation "measure (\<lambda>m. length (lru m))")
  fix m :: MemoryStore and el r a old assume "rev (lru m) = el # r" "(a, old) = el"
  then show "(drop_element a (e_key old) m, m) \<in> measure (\<lambda>m. length (lru m))"
    using list_Remove_last [of "lru m" el r] by (auto simp: drop_element_def)
qed simp

declare evict.simps [simp del]

definition mem_Set :: "string \<Rightarrow> Entry \<Rightarrow> MemoryStore \<Rightarrow> MemoryStore" where
  "mem_Set key entry m =
     (case items m key of
        Some a \<Rightarrow> m\<lparr>lru := list_SetValue a entry (list_MoveToFront a (lru m))\<rparr>
      | None \<Rightarrow>
          let m1 = evict m in
          m1\<lparr>lru := (next_addr m1, entry) # lru m1, items := (items m1)(key \<mapsto> next_addr m1),
             next_addr := next_addr m1 + 1\<rparr>)"

definition mem_Delete :: "string \<Rightarrow> MemoryStore \<Rightarrow> MemoryStore" where
  "mem_Delete key m =
     (case items m key of None \<Rightarrow> m | Some a \<Rightarrow> drop_element a key m)"

text \<open>The three sweeping loops walk the list from the front, reading the successor before they touch an
  element, so they visit the elements the list had at the start.\<close>

fun promote_loop :: "time \<Rightarrow> (string \<Rightarrow> bool) \<Rightarrow> element list \<Rightarrow> int \<Rightarrow> MemoryStore \<Rightarrow> int \<times> MemoryStore" where
  "promote_loop now fn [] n m = (n, m)"
| "promote_loop now fn ((a, e) # els) n m =
     (if e_expires e = None then promote_loop now fn els n m
      else if expired now e then promote_loop now fn els n (drop_element a (e_key e) m)
      else if fn (e_key e) then
        promote_loop now fn els (n + 1) (m\<lparr>lru := list_SetValue a (e\<lparr>e_expires := None\<rparr>) (lru m)\<rparr>)
      else promote_loop now fn els n m)"

definition mem_PromoteIf :: "time \<Rightarrow> (string \<Rightarrow> bool) \<Rightarrow> MemoryStore \<Rightarrow> int \<times> MemoryStore" where
  "mem_PromoteIf now fn m = promote_loop now fn (lru m) 0 m"

fun entries_loop :: "time \<Rightarrow> int \<Rightarrow> element list \<Rightarrow> Entry list \<Rightarrow> MemoryStore \<Rightarrow> Entry list \<times> MemoryStore" where
  "entries_loop now limit [] acc m = (acc, m)"
| "entries_loop now limit ((a, e) # els) acc m =
     (if expired now e then entries_loop now limit els acc (drop_element a (e_key e) m)
      else
        let acc' = acc @ [cloneEntry e] in
        if limit > 0 \<and> int (length acc') \<ge> limit then (acc', m) else entries_loop now limit els acc' m)"

definition mem_Entries :: "time \<Rightarrow> int \<Rightarrow> MemoryStore \<Rightarrow> Entry list \<times> MemoryStore" where
  "mem_Entries now limit m = entries_loop now limit (lru m) [] m"

fun keys_loop :: "time \<Rightarrow> element list \<Rightarrow> string list \<Rightarrow> MemoryStore \<Rightarrow> string list \<times> MemoryStore" where
  "keys_loop now [] acc m = (acc, m)"
| "keys_loop now ((a, e) # els) acc m =
     (if expired now e then keys_loop now els acc (drop_element a (e_key e) m)
      else keys_loop now els (acc @ [e_key e]) m)"

definition mem_Keys :: "time \<Rightarrow> MemoryStore \<Rightarrow> string list \<times> MemoryStore" where
  "mem_Keys now m = keys_loop now (lru m) [] m"

definition mem_Len :: "MemoryStore \<Rightarrow> int" where
  "mem_Len m = int (length (lru m))"


section \<open>The abstract store: a list of entries in order of use\<close>

definition lru_abs :: "MemoryStore \<Rightarrow> Entry list" where
  "lru_abs m = map snd (lru m)"

definition del_key :: "string \<Rightarrow> Entry list \<Rightarrow> Entry list" where
  "del_key k es = filter (\<lambda>e. e_key e \<noteq> k) es"

definition find_key :: "string \<Rightarrow> Entry list \<Rightarrow> Entry option" where
  "find_key k es = find (\<lambda>e. e_key e = k) es"

definition spec_Get :: "time \<Rightarrow> string \<Rightarrow> Entry list \<Rightarrow> Entry option \<times> Entry list" where
  "spec_Get now k es =
     (case find_key k es of
        None \<Rightarrow> (None, es)
      | Some e \<Rightarrow> if expired now e then (None, del_key k es) else (Some e, e # del_key k es))"

definition spec_Set :: "int \<Rightarrow> Entry \<Rightarrow> Entry list \<Rightarrow> Entry list" where
  "spec_Set mx e es =
     (if find_key (e_key e) es = None then e # take (nat (mx - 1)) es else e # del_key (e_key e) es)"

definition promoted :: "(string \<Rightarrow> bool) \<Rightarrow> Entry \<Rightarrow> Entry" where
  "promoted fn e = (if fn (e_key e) then e\<lparr>e_expires := None\<rparr> else e)"

definition spec_PromoteIf :: "time \<Rightarrow> (string \<Rightarrow> bool) \<Rightarrow> Entry list \<Rightarrow> int \<times> Entry list" where
  "spec_PromoteIf now fn es =
     (int (length (filter (\<lambda>e. e_expires e \<noteq> None \<and> \<not> expired now e \<and> fn (e_key e)) es)),
      map (promoted fn) (filter (\<lambda>e. \<not> expired now e) es))"

fun spec_Entries :: "time \<Rightarrow> int \<Rightarrow> Entry list \<Rightarrow> Entry list \<Rightarrow> Entry list \<times> Entry list" where
  "spec_Entries now limit acc [] = (acc, [])"
| "spec_Entries now limit acc (e # es) =
     (if expired now e then spec_Entries now limit acc es
      else
        let acc' = acc @ [cloneEntry e] in
        if limit > 0 \<and> int (length acc') \<ge> limit then (acc', e # es)
        else case spec_Entries now limit acc' es of (r, es') \<Rightarrow> (r, e # es'))"

definition spec_Keys :: "time \<Rightarrow> Entry list \<Rightarrow> string list \<times> Entry list" where
  "spec_Keys now es = (map e_key (filter (\<lambda>e. \<not> expired now e) es), filter (\<lambda>e. \<not> expired now e) es)"

text \<open>The representation invariant: addresses are distinct and below the next one, keys are distinct, the
  map holds exactly the keys of the list with their addresses, and the list is within its bound.\<close>

definition store_inv :: "MemoryStore \<Rightarrow> bool" where
  "store_inv m \<longleftrightarrow>
     distinct (map fst (lru m)) \<and> distinct (map (e_key \<circ> snd) (lru m)) \<and>
     (\<forall>el\<in>set (lru m). fst el < next_addr m) \<and>
     (\<forall>k a. items m k = Some a \<longleftrightarrow> (\<exists>e. (a, e) \<in> set (lru m) \<and> e_key e = k)) \<and>
     1 \<le> maxSize m \<and> int (length (lru m)) \<le> maxSize m"



section \<open>The invariant is kept\<close>

lemma store_invD:
  assumes "store_inv m"
  shows "distinct (map fst (lru m))" "distinct (map (e_key \<circ> snd) (lru m))"
    "\<And>el. el \<in> set (lru m) \<Longrightarrow> fst el < next_addr m"
    "\<And>k a. items m k = Some a \<longleftrightarrow> (\<exists>e. (a, e) \<in> set (lru m) \<and> e_key e = k)"
    "1 \<le> maxSize m" "int (length (lru m)) \<le> maxSize m"
  using assms unfolding store_inv_def by auto

declare map_of_eq_Some_iff [simp del]

definition tag :: "element \<Rightarrow> nat \<times> string" where
  "tag el = (fst el, e_key (snd el))"

lemma mem_tag: "(\<exists>e. (a, e) \<in> set l \<and> e_key e = k) \<longleftrightarrow> (a, k) \<in> set (map tag l)"
  by (force simp: tag_def)

lemma tag_proj: "map fst l = map fst (map tag l)" "map (e_key \<circ> snd) l = map snd (map tag l)"
  by (simp_all add: tag_def)

lemma element_unique:
  assumes "store_inv m" "(a, e) \<in> set (lru m)" "el \<in> set (lru m)"
  shows "fst el = a \<longleftrightarrow> e_key (snd el) = e_key e"
proof -
  have "inj_on fst (set (lru m))" "inj_on (e_key \<circ> snd) (set (lru m))"
    using store_invD(1,2) [OF assms(1)] by (simp_all add: distinct_map)
  then show ?thesis using assms(2,3) by (metis comp_apply fst_conv inj_on_def snd_conv)
qed

lemma map_of_lru: "store_inv m \<Longrightarrow> map_of (lru m) a = Some e \<longleftrightarrow> (a, e) \<in> set (lru m)"
  using store_invD(1) by (auto simp: map_of_eq_Some_iff)

lemma abs_keys: "store_inv m \<Longrightarrow> distinct (map e_key (lru_abs m))"
  using store_invD(2) by (simp add: lru_abs_def)

lemma remove_abs:
  assumes "store_inv m" "(a, e) \<in> set (lru m)"
  shows "map snd (list_Remove a (lru m)) = del_key (e_key e) (lru_abs m)"
proof -
  have "list_Remove a (lru m) = filter (\<lambda>el. e_key (snd el) \<noteq> e_key e) (lru m)"
    unfolding list_Remove_def using element_unique [OF assms] by (intro filter_cong) auto
  then show ?thesis by (simp add: del_key_def lru_abs_def filter_map comp_def)
qed

lemma drop_inv:
  assumes "store_inv m" "(a, e) \<in> set (lru m)"
  shows "store_inv (drop_element a (e_key e) m)"
  unfolding store_inv_def
proof (intro conjI)
  let ?m = "drop_element a (e_key e) m"
  have sub: "set (lru ?m) = {el \<in> set (lru m). fst el \<noteq> a}" by (auto simp: drop_element_def list_Remove_def)
  show "distinct (map fst (lru ?m))" "distinct (map (e_key \<circ> snd) (lru ?m))"
    using store_invD(1,2) [OF assms(1)] by (simp_all add: drop_element_def list_Remove_def distinct_map_filter)
  show "\<forall>el\<in>set (lru ?m). fst el < next_addr ?m"
    unfolding sub using store_invD(3) [OF assms(1)] by (simp add: drop_element_def)
  have "b = a \<longleftrightarrow> k = e_key e" if "(b, k) \<in> set (map tag (lru m))" for b k
    using that element_unique [OF assms] by (auto simp: tag_def)
  moreover have "(b, k) \<in> set (map tag (lru ?m)) \<longleftrightarrow> (b, k) \<in> set (map tag (lru m)) \<and> b \<noteq> a" for b k
    by (auto simp: drop_element_def list_Remove_def tag_def)
  moreover have "items ?m k = Some b \<longleftrightarrow> k \<noteq> e_key e \<and> items m k = Some b" for k b by (simp add: drop_element_def)
  ultimately show "\<forall>k b. items ?m k = Some b \<longleftrightarrow> (\<exists>e'. (b, e') \<in> set (lru ?m) \<and> e_key e' = k)"
    unfolding mem_tag by (metis store_invD(4) [OF assms(1), unfolded mem_tag])
  show "1 \<le> maxSize ?m" using store_invD(5) [OF assms(1)] by (simp add: drop_element_def)
  have "length (list_Remove a (lru m)) \<le> length (lru m)" by (simp add: list_Remove_def)
  then show "int (length (lru ?m)) \<le> maxSize ?m" using store_invD(6) [OF assms(1)] by (simp add: drop_element_def)
qed

lemma drop_abs:
  "store_inv m \<Longrightarrow> (a, e) \<in> set (lru m) \<Longrightarrow> lru_abs (drop_element a (e_key e) m) = del_key (e_key e) (lru_abs m)"
  using remove_abs by (simp add: drop_element_def lru_abs_def)

text \<open>Reordering the list and replacing the entry of an element, keeping its key.\<close>

lemma relist_inv:
  assumes "store_inv m" and perm: "mset (map tag l) = mset (map tag (lru m))"
  shows "store_inv (m\<lparr>lru := l\<rparr>)"
proof -
  have d: "mset (map fst l) = mset (map fst (lru m))" "mset (map (e_key \<circ> snd) l) = mset (map (e_key \<circ> snd) (lru m))"
    unfolding tag_proj using perm by (metis mset_map)+
  have s: "set (map tag l) = set (map tag (lru m))" using perm by (rule mset_eq_setD)
  have len: "length l = length (lru m)" using perm by (metis length_map mset_eq_length)
  have bound: "fst el < next_addr m" if "el \<in> set l" for el
  proof -
    have "tag el \<in> set (map tag (lru m))" using that s by auto
    then obtain el' where "el' \<in> set (lru m)" "tag el = tag el'" by auto
    then show ?thesis using store_invD(3) [OF assms(1)] by (simp add: tag_def)
  qed
  show ?thesis
    unfolding store_inv_def mem_tag
    using store_invD(1,2,5,6) [OF assms(1)] store_invD(4) [OF assms(1), unfolded mem_tag] bound s len
      mset_eq_imp_distinct_iff [OF d(1)] mset_eq_imp_distinct_iff [OF d(2)]
    by simp
qed

lemma list_Remove_absent: "a \<notin> fst ` set l \<Longrightarrow> list_Remove a l = l"
  by (force simp: list_Remove_def filter_id_conv)

lemma remove_mset: "store_inv m \<Longrightarrow> (a, e) \<in> set (lru m) \<Longrightarrow> add_mset (a, e) (mset (list_Remove a (lru m))) = mset (lru m)"
proof -
  assume m: "store_inv m" "(a, e) \<in> set (lru m)"
  obtain l1 l2 where l: "lru m = l1 @ (a, e) # l2" using m(2) by (metis split_list)
  have "a \<notin> fst ` set l1" "a \<notin> fst ` set l2" using store_invD(1) [OF m(1)] by (auto simp: l)
  then have "list_Remove a (lru m) = l1 @ l2" using list_Remove_absent [of a l1] list_Remove_absent [of a l2]
    by (simp add: l list_Remove_def)
  then show ?thesis by (simp add: l)
qed

lemma front_inv:
  assumes "store_inv m" "(a, e) \<in> set (lru m)"
  shows "store_inv (m\<lparr>lru := list_MoveToFront a (lru m)\<rparr>)"
    and "lru_abs (m\<lparr>lru := list_MoveToFront a (lru m)\<rparr>) = e # del_key (e_key e) (lru_abs m)"
proof -
  have l: "list_MoveToFront a (lru m) = (a, e) # list_Remove a (lru m)"
    using assms by (simp add: list_MoveToFront_def map_of_lru [THEN iffD2])
  have "mset (map tag ((a, e) # list_Remove a (lru m))) = image_mset tag (add_mset (a, e) (mset (list_Remove a (lru m))))"
    by simp
  also have "\<dots> = mset (map tag (lru m))" by (simp add: remove_mset [OF assms])
  finally show "store_inv (m\<lparr>lru := list_MoveToFront a (lru m)\<rparr>)" unfolding l by (rule relist_inv [OF assms(1)])
  show "lru_abs (m\<lparr>lru := list_MoveToFront a (lru m)\<rparr>) = e # del_key (e_key e) (lru_abs m)"
    using remove_abs [OF assms] by (simp add: l lru_abs_def)
qed

lemma setvalue_tags: "(a, e) \<in> set l \<Longrightarrow> distinct (map fst l) \<Longrightarrow> e_key v = e_key e \<Longrightarrow> map tag (list_SetValue a v l) = map tag l"
  by (auto simp: list_SetValue_def tag_def dest: eq_key_imp_eq_value)

lemma setvalue_inv:
  "store_inv m \<Longrightarrow> (a, e) \<in> set (lru m) \<Longrightarrow> e_key v = e_key e \<Longrightarrow> store_inv (m\<lparr>lru := list_SetValue a v (lru m)\<rparr>)"
  by (rule relist_inv) (simp_all add: setvalue_tags store_invD(1))

lemma push_inv:
  assumes "store_inv m" "items m (e_key v) = None" "int (length (lru m)) < maxSize m"
  shows "store_inv (m\<lparr>lru := (next_addr m, v) # lru m, items := (items m)(e_key v \<mapsto> next_addr m), next_addr := next_addr m + 1\<rparr>)"
proof -
  have fresh: "next_addr m \<notin> fst ` set (lru m)" using store_invD(3) [OF assms(1)] by force
  have new: "e_key v \<notin> (e_key \<circ> snd) ` set (lru m)"
  proof
    assume "e_key v \<in> (e_key \<circ> snd) ` set (lru m)"
    then obtain a e where "(a, e) \<in> set (lru m)" "e_key e = e_key v" by auto
    then have "items m (e_key v) = Some a" using store_invD(4) [OF assms(1)] by blast
    with assms(2) show False by simp
  qed
  have its: "\<forall>k a. ((items m)(e_key v \<mapsto> next_addr m)) k = Some a \<longleftrightarrow> (a, k) \<in> set (map tag ((next_addr m, v) # lru m))"
    using store_invD(4) [OF assms(1), unfolded mem_tag] new assms(2) by (auto simp: tag_def)
  show ?thesis unfolding store_inv_def mem_tag
    using store_invD(1,2,3,5) [OF assms(1)] fresh new its assms(3) by (auto simp: less_SucI)
qed



section \<open>Every operation implements the abstract one\<close>

lemma find_key_None: "find_key k es = None \<longleftrightarrow> (\<forall>e\<in>set es. e_key e \<noteq> k)"
  by (auto simp: find_key_def find_None_iff)

lemma find_key_Some: "distinct (map e_key es) \<Longrightarrow> find_key k es = Some e \<longleftrightarrow> e \<in> set es \<and> e_key e = k"
  by (induction es) (auto simp: find_key_def)

lemma items_find:
  assumes "store_inv m"
  shows "items m k = None \<Longrightarrow> find_key k (lru_abs m) = None"
    and "items m k = Some a \<Longrightarrow> \<exists>e. (a, e) \<in> set (lru m) \<and> e_key e = k \<and> find_key k (lru_abs m) = Some e"
proof -
  show "find_key k (lru_abs m) = None" if "items m k = None"
  proof -
    have "e_key (snd el) \<noteq> k" if "el \<in> set (lru m)" for el
      using store_invD(4) [OF assms, of k "fst el"] that \<open>items m k = None\<close> by (cases el) auto
    then show ?thesis by (simp add: find_key_None lru_abs_def)
  qed
  show "\<exists>e. (a, e) \<in> set (lru m) \<and> e_key e = k \<and> find_key k (lru_abs m) = Some e" if it: "items m k = Some a"
  proof -
    obtain e where e: "(a, e) \<in> set (lru m)" "e_key e = k" using it store_invD(4) [OF assms] by blast
    then have "e \<in> set (lru_abs m)" unfolding lru_abs_def by force
    then show ?thesis using e find_key_Some [OF abs_keys [OF assms]] by blast
  qed
qed

lemma Get_refines:
  assumes "store_inv m"
  shows "store_inv (snd (mem_Get now k m)) \<and> fst (mem_Get now k m) = fst (spec_Get now k (lru_abs m)) \<and>
    lru_abs (snd (mem_Get now k m)) = snd (spec_Get now k (lru_abs m)) \<and> maxSize (snd (mem_Get now k m)) = maxSize m"
proof (cases "items m k")
  case None
  then show ?thesis using assms items_find(1) [OF assms] by (simp add: mem_Get_def spec_Get_def)
next
  case (Some a)
  obtain e where e: "(a, e) \<in> set (lru m)" "e_key e = k" "find_key k (lru_abs m) = Some e"
    using items_find(2) [OF assms Some] by blast
  show ?thesis using Some e map_of_lru [OF assms, THEN iffD2, OF e(1)] drop_inv [OF assms e(1)] drop_abs [OF assms e(1)]
      front_inv [OF assms e(1)]
    by (simp add: mem_Get_def spec_Get_def) (simp add: drop_element_def)
qed

lemma del_key_last:
  "distinct (map e_key (es @ [e])) \<Longrightarrow> del_key (e_key e) (es @ [e]) = es"
  by (auto simp: del_key_def filter_id_conv image_iff)

lemma evict_small: "int (length (lru m)) < maxSize m \<Longrightarrow> evict m = m"
  by (simp add: evict.simps [of m])

lemma evict_full:
  assumes "store_inv m" "int (length (lru m)) = maxSize m"
  shows "\<exists>a old. (a, old) \<in> set (lru m) \<and> evict m = drop_element a (e_key old) m \<and>
    lru_abs (drop_element a (e_key old) m) = butlast (lru_abs m)"
proof -
  have "lru m \<noteq> []" using assms(2) store_invD(5) [OF assms(1)] by auto
  then obtain l a old where l: "lru m = l @ [(a, old)]" by (metis rev_exhaust surj_pair)
  have el: "(a, old) \<in> set (lru m)" by (simp add: l)
  let ?m = "drop_element a (e_key old) m"
  have abs: "lru_abs ?m = butlast (lru_abs m)"
    using drop_abs [OF assms(1) el] del_key_last [of "map snd l" old] abs_keys [OF assms(1)] by (simp add: lru_abs_def l)
  then have "length (lru ?m) < length (lru m)" by (metis lru_abs_def el length_butlast length_map length_pos_if_in_set diff_less zero_less_one)
  then have "evict ?m = ?m" using assms(2) by (intro evict_small) (simp add: drop_element_def)
  then have "evict m = ?m" using assms(2) by (simp add: evict.simps [of m] l)
  with el abs show ?thesis by blast
qed

lemma evict_spec:
  assumes "store_inv m"
  shows "store_inv (evict m) \<and> lru_abs (evict m) = take (nat (maxSize m - 1)) (lru_abs m) \<and>
    maxSize (evict m) = maxSize m \<and> int (length (lru (evict m))) < maxSize m \<and>
    (items m k = None \<longrightarrow> items (evict m) k = None)"
proof (cases "int (length (lru m)) < maxSize m")
  case True
  then show ?thesis using assms by (auto simp: evict_small lru_abs_def)
next
  case False
  then have full: "int (length (lru m)) = maxSize m" using store_invD(6) [OF assms] by simp
  obtain a old where e: "(a, old) \<in> set (lru m)" "evict m = drop_element a (e_key old) m"
    "lru_abs (drop_element a (e_key old) m) = butlast (lru_abs m)" using evict_full [OF assms full] by blast
  have len: "nat (maxSize m - 1) = length (lru_abs m) - 1" using full by (simp add: lru_abs_def)
  have "length (lru (evict m)) = length (lru m) - 1" using e by (metis length_butlast length_map lru_abs_def)
  moreover have "0 < length (lru m)" using e(1) by (rule length_pos_if_in_set)
  ultimately have "int (length (lru (evict m))) < maxSize m" using full by linarith
  then show ?thesis using drop_inv [OF assms e(1)] e(2,3)
    by (simp add: len butlast_conv_take drop_element_def)
qed

lemma Set_refines:
  assumes "store_inv m"
  shows "store_inv (mem_Set (e_key v) v m) \<and> lru_abs (mem_Set (e_key v) v m) = spec_Set (maxSize m) v (lru_abs m) \<and>
    maxSize (mem_Set (e_key v) v m) = maxSize m"
proof (cases "items m (e_key v)")
  case None
  let ?m = "evict m"
  have ev: "store_inv ?m" "lru_abs ?m = take (nat (maxSize m - 1)) (lru_abs m)" "maxSize ?m = maxSize m"
    "int (length (lru ?m)) < maxSize ?m" "items ?m (e_key v) = None"
    using evict_spec [OF assms, of "e_key v"] None by simp_all
  show ?thesis using push_inv [OF ev(1,5,4)] None items_find(1) [OF assms None] ev(2,3)
    by (simp add: mem_Set_def Let_def spec_Set_def lru_abs_def)
next
  case (Some a)
  obtain e where e: "(a, e) \<in> set (lru m)" "e_key e = e_key v" "find_key (e_key v) (lru_abs m) = Some e"
    using items_find(2) [OF assms Some] by blast
  let ?m = "m\<lparr>lru := list_MoveToFront a (lru m)\<rparr>"
  have l: "list_MoveToFront a (lru m) = (a, e) # list_Remove a (lru m)"
    using e(1) assms by (simp add: list_MoveToFront_def map_of_lru [THEN iffD2])
  have absent: "list_SetValue a v (list_Remove a (lru m)) = list_Remove a (lru m)"
    by (auto simp: list_SetValue_def list_Remove_def intro: map_idI)
  have "store_inv (?m\<lparr>lru := list_SetValue a v (lru ?m)\<rparr>)"
    by (rule setvalue_inv [of _ _ e]) (use front_inv(1) [OF assms e(1)] l e(2) in simp_all)
  moreover have "list_SetValue a v (lru ?m) = (a, v) # list_Remove a (lru m)"
    using absent by (simp add: l) (simp add: list_SetValue_def)
  ultimately show ?thesis using Some e remove_abs [OF assms e(1)] by (simp add: mem_Set_def spec_Set_def lru_abs_def)
qed

lemma Delete_refines:
  assumes "store_inv m"
  shows "store_inv (mem_Delete k m) \<and> lru_abs (mem_Delete k m) = del_key k (lru_abs m) \<and> maxSize (mem_Delete k m) = maxSize m"
proof (cases "items m k")
  case None
  then show ?thesis using assms items_find(1) [OF assms None]
    by (auto simp: mem_Delete_def find_key_None del_key_def filter_id_conv)
next
  case (Some a)
  then obtain e where e: "(a, e) \<in> set (lru m)" "e_key e = k" using items_find(2) [OF assms] by blast
  show ?thesis using drop_inv [OF assms e(1)] drop_abs [OF assms e(1)] Some e(2)
    by (simp add: mem_Delete_def) (simp add: drop_element_def)
qed



text \<open>The sweeps: a loop over the elements not yet visited, with those before them already treated.\<close>

lemma drop_mid:
  assumes "store_inv m" "lru m = l1 @ (a, e) # l2"
  shows "store_inv (drop_element a (e_key e) m)" "lru (drop_element a (e_key e) m) = l1 @ l2"
    "maxSize (drop_element a (e_key e) m) = maxSize m"
proof -
  have "a \<notin> fst ` set l1" "a \<notin> fst ` set l2" using store_invD(1) [OF assms(1)] by (auto simp: assms(2))
  then show "lru (drop_element a (e_key e) m) = l1 @ l2"
    using list_Remove_absent [of a l1] list_Remove_absent [of a l2] by (simp add: assms(2) list_Remove_def drop_element_def)
  show "store_inv (drop_element a (e_key e) m)" by (rule drop_inv [OF assms(1)]) (simp add: assms(2))
qed (simp add: drop_element_def)

lemma setvalue_mid:
  assumes "store_inv m" "lru m = l1 @ (a, e) # l2" "e_key v = e_key e"
  shows "store_inv (m\<lparr>lru := list_SetValue a v (lru m)\<rparr>)" "list_SetValue a v (lru m) = l1 @ (a, v) # l2"
proof -
  have "(a, b) \<notin> set l1" "(a, b) \<notin> set l2" for b using store_invD(1) [OF assms(1)] by (force simp: assms(2))+
  then show "list_SetValue a v (lru m) = l1 @ (a, v) # l2"
    by (auto simp: assms(2) list_SetValue_def intro!: map_idI)
  show "store_inv (m\<lparr>lru := list_SetValue a v (lru m)\<rparr>)"
    by (rule setvalue_inv [OF assms(1) _ assms(3)]) (simp add: assms(2))
qed

lemma promote_loop_spec:
  assumes "store_inv m" "lru m = l1 @ els"
  shows "let r = promote_loop now fn els n m; s = spec_PromoteIf now fn (map snd els) in
    store_inv (snd r) \<and> fst r = n + fst s \<and> lru_abs (snd r) = map snd l1 @ snd s \<and> maxSize (snd r) = maxSize m"
  using assms
proof (induction els arbitrary: l1 n m)
  case Nil
  then show ?case by (simp add: spec_PromoteIf_def lru_abs_def)
next
  case (Cons el els)
  obtain a e where el: "el = (a, e)" by (cases el)
  have l: "lru m = l1 @ (a, e) # els" using Cons.prems(2) el by simp
  let ?v = "e\<lparr>e_expires := None\<rparr>"
  let ?m1 = "drop_element a (e_key e) m" and ?m2 = "m\<lparr>lru := list_SetValue a ?v (lru m)\<rparr>"
  note d = drop_mid [OF Cons.prems(1) l] and v = setvalue_mid [OF Cons.prems(1) l, of ?v, simplified]
  have l2: "lru ?m2 = (l1 @ [(a, ?v)]) @ els" "lru m = (l1 @ [(a, e)]) @ els" using v(2) l by simp_all
  have id: "e_expires e = None \<Longrightarrow> promoted fn e = e" by (auto simp: promoted_def)
  consider (keep) "e_expires e = None" | (drop) x where "e_expires e = Some x" "expired now e"
    | (prom) x where "e_expires e = Some x" "\<not> expired now e" "fn (e_key e)"
    | (rest) x where "e_expires e = Some x" "\<not> expired now e" "\<not> fn (e_key e)"
    by fastforce
  then show ?case
  proof cases
    case keep
    then show ?thesis using Cons.IH [OF Cons.prems(1) l2(2), of n] id by (simp add: el Let_def spec_PromoteIf_def expired_def)
  next
    case drop
    then show ?thesis using Cons.IH [OF d(1,2), of n] by (simp add: el Let_def spec_PromoteIf_def d(3))
  next
    case prom
    then show ?thesis using Cons.IH [OF v(1) l2(1), of "n + 1"] by (simp add: el Let_def spec_PromoteIf_def promoted_def)
  next
    case rest
    then show ?thesis using Cons.IH [OF Cons.prems(1) l2(2), of n] by (simp add: el Let_def spec_PromoteIf_def promoted_def)
  qed
qed

lemma entries_loop_spec:
  assumes "store_inv m" "lru m = l1 @ els"
  shows "let r = entries_loop now limit els acc m; s = spec_Entries now limit acc (map snd els) in
    store_inv (snd r) \<and> fst r = fst s \<and> lru_abs (snd r) = map snd l1 @ snd s \<and> maxSize (snd r) = maxSize m"
  using assms
proof (induction els arbitrary: l1 acc m)
  case Nil
  then show ?case by (simp add: lru_abs_def)
next
  case (Cons el els)
  obtain a e where el: "el = (a, e)" by (cases el)
  have l: "lru m = l1 @ (a, e) # els" "lru m = (l1 @ [(a, e)]) @ els" using Cons.prems(2) el by simp_all
  note d = drop_mid [OF Cons.prems(1) l(1)]
  show ?case
    using Cons.IH [OF d(1,2), of acc] Cons.IH [OF Cons.prems(1) l(2), of "acc @ [cloneEntry e]"] Cons.prems(1)
    by (simp add: el Let_def d(3) l(1) lru_abs_def split: prod.splits)
qed

lemma keys_loop_spec:
  assumes "store_inv m" "lru m = l1 @ els"
  shows "let r = keys_loop now els acc m; s = spec_Keys now (map snd els) in
    store_inv (snd r) \<and> fst r = acc @ fst s \<and> lru_abs (snd r) = map snd l1 @ snd s \<and> maxSize (snd r) = maxSize m"
  using assms
proof (induction els arbitrary: l1 acc m)
  case Nil
  then show ?case by (simp add: spec_Keys_def lru_abs_def)
next
  case (Cons el els)
  obtain a e where el: "el = (a, e)" by (cases el)
  have l: "lru m = l1 @ (a, e) # els" "lru m = (l1 @ [(a, e)]) @ els" using Cons.prems(2) el by simp_all
  note d = drop_mid [OF Cons.prems(1) l(1)]
  show ?case
    using Cons.IH [OF d(1,2), of acc] Cons.IH [OF Cons.prems(1) l(2), of "acc @ [e_key e]"]
    by (simp add: el Let_def spec_Keys_def d(3))
qed



section \<open>Runs\<close>

datatype mem_op = MGet time string | MSet Entry | MDelete string | MPromote time "string \<Rightarrow> bool"
  | MEntries time int | MKeys time | MLen

datatype mem_out = OGet "Entry option" | OUnit | ONum int | OEntries "Entry list" | OKeys "string list"

fun mem_exec :: "mem_op \<Rightarrow> MemoryStore \<Rightarrow> mem_out \<times> MemoryStore" where
  "mem_exec (MGet t k) m = (case mem_Get t k m of (r, m') \<Rightarrow> (OGet r, m'))"
| "mem_exec (MSet e) m = (OUnit, mem_Set (e_key e) e m)"
| "mem_exec (MDelete k) m = (OUnit, mem_Delete k m)"
| "mem_exec (MPromote t fn) m = (case mem_PromoteIf t fn m of (r, m') \<Rightarrow> (ONum r, m'))"
| "mem_exec (MEntries t n) m = (case mem_Entries t n m of (r, m') \<Rightarrow> (OEntries r, m'))"
| "mem_exec (MKeys t) m = (case mem_Keys t m of (r, m') \<Rightarrow> (OKeys r, m'))"
| "mem_exec MLen m = (ONum (mem_Len m), m)"

fun spec_exec :: "int \<Rightarrow> mem_op \<Rightarrow> Entry list \<Rightarrow> mem_out \<times> Entry list" where
  "spec_exec mx (MGet t k) es = (case spec_Get t k es of (r, es') \<Rightarrow> (OGet r, es'))"
| "spec_exec mx (MSet e) es = (OUnit, spec_Set mx e es)"
| "spec_exec mx (MDelete k) es = (OUnit, del_key k es)"
| "spec_exec mx (MPromote t fn) es = (case spec_PromoteIf t fn es of (r, es') \<Rightarrow> (ONum r, es'))"
| "spec_exec mx (MEntries t n) es = (case spec_Entries t n [] es of (r, es') \<Rightarrow> (OEntries r, es'))"
| "spec_exec mx (MKeys t) es = (case spec_Keys t es of (r, es') \<Rightarrow> (OKeys r, es'))"
| "spec_exec mx MLen es = (ONum (int (length es)), es)"

fun run_ops :: "('op \<Rightarrow> 'st \<Rightarrow> 'out \<times> 'st) \<Rightarrow> 'op list \<Rightarrow> 'st \<Rightarrow> 'out list \<times> 'st" where
  "run_ops step [] s = ([], s)"
| "run_ops step (op # ops) s =
     (case step op s of (o1, s1) \<Rightarrow> case run_ops step ops s1 of (outs, s2) \<Rightarrow> (o1 # outs, s2))"

lemma exec_refines:
  assumes "store_inv m"
  shows "store_inv (snd (mem_exec op m)) \<and> fst (mem_exec op m) = fst (spec_exec (maxSize m) op (lru_abs m)) \<and>
    lru_abs (snd (mem_exec op m)) = snd (spec_exec (maxSize m) op (lru_abs m)) \<and> maxSize (snd (mem_exec op m)) = maxSize m"
proof (cases op)
  case (MGet t k)
  then show ?thesis using Get_refines [OF assms, of t k] by (simp add: case_prod_beta)
next
  case (MSet e)
  then show ?thesis using Set_refines [OF assms, of e] by simp
next
  case (MDelete k)
  then show ?thesis using Delete_refines [OF assms, of k] by simp
next
  case (MPromote t fn)
  then show ?thesis using promote_loop_spec [OF assms, of "[]" "lru m" t fn 0]
    by (simp add: mem_PromoteIf_def Let_def lru_abs_def case_prod_beta)
next
  case (MEntries t n)
  then show ?thesis using entries_loop_spec [OF assms, of "[]" "lru m" t n "[]"]
    by (simp add: mem_Entries_def Let_def lru_abs_def case_prod_beta)
next
  case (MKeys t)
  then show ?thesis using keys_loop_spec [OF assms, of "[]" "lru m" t "[]"]
    by (simp add: mem_Keys_def Let_def lru_abs_def case_prod_beta)
next
  case MLen
  then show ?thesis using assms by (simp add: mem_Len_def lru_abs_def)
qed

lemma NewMemoryStore_inv: "store_inv (NewMemoryStore n)" "lru_abs (NewMemoryStore n) = []"
  by (simp_all add: store_inv_def NewMemoryStore_def lru_abs_def)

lemma run_refines:
  assumes "store_inv m"
  shows "let r = run_ops mem_exec ops m; s = run_ops (spec_exec (maxSize m)) ops (lru_abs m) in
    store_inv (snd r) \<and> fst r = fst s \<and> lru_abs (snd r) = snd s \<and> maxSize (snd r) = maxSize m"
  using assms
proof (induction ops arbitrary: m)
  case (Cons op ops)
  obtain o1 m1 where st: "mem_exec op m = (o1, m1)" by (cases "mem_exec op m")
  then have sp: "spec_exec (maxSize m) op (lru_abs m) = (o1, lru_abs m1)" and inv: "store_inv m1" "maxSize m1 = maxSize m"
    using exec_refines [OF Cons.prems, of op] by (auto simp: prod_eq_iff)
  show ?case using Cons.IH [OF inv(1)] by (simp add: st sp inv(2) Let_def case_prod_beta)
qed simp



section \<open>Least recently used\<close>

text \<open>The keys an operation moves to the front, and the operations that leave an entry alone.\<close>

fun touches :: "mem_op \<Rightarrow> string set" where
  "touches (MGet t k) = {k}"
| "touches (MSet e) = {e_key e}"
| "touches _ = {}"

fun harmless :: "Entry \<Rightarrow> mem_op \<Rightarrow> bool" where
  "harmless e (MGet t k) \<longleftrightarrow> k \<noteq> e_key e"
| "harmless e (MSet v) \<longleftrightarrow> e_key v \<noteq> e_key e"
| "harmless e (MDelete k) \<longleftrightarrow> k \<noteq> e_key e"
| "harmless e (MPromote t fn) \<longleftrightarrow> \<not> expired t e \<and> (fn (e_key e) \<longrightarrow> e_expires e = None)"
| "harmless e (MEntries t n) \<longleftrightarrow> \<not> expired t e"
| "harmless e (MKeys t) \<longleftrightarrow> \<not> expired t e"
| "harmless e MLen \<longleftrightarrow> True"

text \<open>An entry stands behind entries of recently touched keys only.\<close>

definition behind :: "Entry \<Rightarrow> string set \<Rightarrow> Entry list \<Rightarrow> bool" where
  "behind e T es \<longleftrightarrow> (\<exists>l1 l2. es = l1 @ e # l2 \<and> e_key ` set l1 \<subseteq> T)"

lemma behindI: "es = l1 @ e # l2 \<Longrightarrow> e_key ` set l1 \<subseteq> T \<Longrightarrow> behind e T es"
  by (auto simp: behind_def)

lemma behind_del: "behind e T es \<Longrightarrow> k \<noteq> e_key e \<Longrightarrow> behind e T (del_key k es)"
  unfolding behind_def del_key_def by (elim exE conjE) (rule exI, rule exI, auto)

lemma behind_filter: "behind e T es \<Longrightarrow> P e \<Longrightarrow> behind e T (filter P es)"
  unfolding behind_def by (elim exE conjE) (rule exI, rule exI, auto)

lemma behind_map: "behind e T es \<Longrightarrow> f e = e \<Longrightarrow> (\<And>x. e_key (f x) = e_key x) \<Longrightarrow> behind e T (map f es)"
  unfolding behind_def by (elim exE conjE) (rule exI, rule exI, auto simp: image_subset_iff)

lemma behind_Cons: "behind e T es \<Longrightarrow> behind e (insert (e_key v) T) (v # es)"
  unfolding behind_def by (elim exE conjE) (rule exI [of _ "v # _"], auto)

lemma behind_mono: "behind e T es \<Longrightarrow> T \<subseteq> T' \<Longrightarrow> behind e T' es"
  unfolding behind_def by blast

lemma behind_Entries:
  "behind e T es \<Longrightarrow> \<not> expired now e \<Longrightarrow> behind e T (snd (spec_Entries now n acc es))"
proof (induction es arbitrary: acc T)
  case (Cons x es)
  from Cons.prems(1) obtain l1 l2 where l: "x # es = l1 @ e # l2" "e_key ` set l1 \<subseteq> T" by (auto simp: behind_def)
  show ?case
  proof (cases l1)
    case Nil
    have "behind e T (e # r)" for r by (rule behindI [of _ "[]"]) simp_all
    with Nil l Cons.prems(2) show ?thesis by (simp add: Let_def case_prod_beta)
  next
    case (Cons y l1')
    have b: "behind e T es" by (rule behindI [of _ l1' _ l2]) (use Cons l in auto)
    have y: "insert (e_key x) T = T" using Cons l by auto
    have "behind e T (x # r)" if "behind e T r" for r using behind_Cons [OF that, of x] y by simp
    then show ?thesis using Cons.IH [OF b Cons.prems(2)] b by (simp add: Let_def case_prod_beta)
  qed
qed (simp add: behind_def)

lemma behind_take:
  assumes "behind e T es" "distinct (map e_key es)" "k \<notin> e_key ` set es" "finite T" "int (card (insert k T)) < mx"
  shows "behind e T (take (nat (mx - 1)) es)"
proof -
  obtain l1 l2 where l: "es = l1 @ e # l2" "e_key ` set l1 \<subseteq> T" using assms(1) by (auto simp: behind_def)
  have "length l1 = card (e_key ` set l1)" using assms(2) l by (metis distinct_card distinct_append length_map map_append set_map)
  moreover have "card (e_key ` set l1) < card (insert k T)"
    using l assms(3,4) by (intro psubset_card_mono) auto
  ultimately have "length l1 < nat (mx - 1)" using assms(5) by linarith
  then obtain j where j: "nat (mx - 1) = Suc (length l1 + j)" using less_imp_Suc_add by blast
  show ?thesis by (rule behindI [of _ l1 _ "take j l2"]) (use l j in simp_all)
qed

lemma spec_keys_distinct: "distinct (map e_key es) \<Longrightarrow> distinct (map e_key (del_key k es))"
  by (simp add: del_key_def distinct_map_filter)

lemma behind_step:
  assumes "behind e T es" "distinct (map e_key es)" "harmless e op" "finite T" "int (card (T \<union> touches op)) < mx"
  shows "behind e (T \<union> touches op) (snd (spec_exec mx op es))"
proof (cases op)
  case (MGet t k)
  have "behind e (insert k T) (v # del_key k es)" if "e_key v = k" for v
    using behind_Cons [OF behind_del [OF assms(1)], of k v] assms(3) MGet that by simp
  moreover have "e_key v = k" if "find_key k es = Some v" for v using find_key_Some [OF assms(2)] that by blast
  ultimately show ?thesis using MGet assms(1,3) behind_del [OF assms(1), of k] behind_mono [of e T _ "insert k T"]
    by (auto simp: spec_Get_def split: option.splits)
next
  case (MSet v)
  have "behind e (insert (e_key v) T) (v # take (nat (mx - 1)) es)" if "find_key (e_key v) es = None"
    using that assms MSet by (intro behind_Cons behind_take [where k = "e_key v"]) (auto simp: find_key_None)
  moreover have "behind e (insert (e_key v) T) (v # del_key (e_key v) es)"
    using assms(1,3) MSet by (intro behind_Cons behind_del) auto
  ultimately show ?thesis using MSet by (simp add: spec_Set_def)
next
  case (MPromote t fn)
  have "promoted fn e = e" using assms(3) MPromote by (auto simp: promoted_def)
  then show ?thesis using assms(1,3) MPromote
    by (auto simp: spec_PromoteIf_def promoted_def intro!: behind_map behind_filter)
qed (use assms behind_del behind_filter behind_Entries in \<open>auto simp: case_prod_beta spec_Keys_def\<close>)


lemma finite_touches: "finite (touches op)"
  by (cases op) simp_all

lemma behind_run:
  assumes "store_inv m" "behind e T (lru_abs m)" "list_all (harmless e) ops" "finite T"
    and "int (card (T \<union> (\<Union>op\<in>set ops. touches op))) < maxSize m"
  shows "e \<in> set (lru_abs (snd (run_ops mem_exec ops m)))"
  using assms
proof (induction ops arbitrary: m T)
  case Nil
  then show ?case by (auto simp: behind_def)
next
  case (Cons op ops)
  let ?m = "snd (mem_exec op m)" and ?T = "T \<union> touches op"
  have ref: "store_inv ?m" "lru_abs ?m = snd (spec_exec (maxSize m) op (lru_abs m))" "maxSize ?m = maxSize m"
    using exec_refines [OF Cons.prems(1), of op] by auto
  have fin: "finite ?T" using Cons.prems(4) finite_touches by simp
  have "finite (T \<union> (\<Union>x\<in>set (op # ops). touches x))" using Cons.prems(4) finite_touches by simp
  then have "card ?T \<le> card (T \<union> (\<Union>x\<in>set (op # ops). touches x))" by (intro card_mono) auto
  then have "behind e ?T (lru_abs ?m)"
    unfolding ref(2) using Cons.prems abs_keys [OF Cons.prems(1)] by (intro behind_step) auto
  moreover have "?T \<union> (\<Union>x\<in>set ops. touches x) = T \<union> (\<Union>x\<in>set (op # ops). touches x)" by auto
  ultimately show ?case using Cons.IH [OF ref(1) _ _ fin] Cons.prems(3,5) ref(3) by (simp add: case_prod_beta)
qed


section \<open>Properties\<close>

text \<open>C32.  The store of a hash map and a linked list answers every sequence of calls as a plain list of
  entries in order of use does; along the way it stays within its size bound and its keys stay distinct.\<close>

theorem store_refines:
  "let r = run_ops mem_exec ops (NewMemoryStore n); s = run_ops (spec_exec (if n \<le> 0 then 2048 else n)) ops [] in
    fst r = fst s \<and> lru_abs (snd r) = snd s \<and> mem_Len (snd r) \<le> (if n \<le> 0 then 2048 else n) \<and>
    distinct (map e_key (lru_abs (snd r)))"
proof -
  have mx: "maxSize (NewMemoryStore n) = (if n \<le> 0 then 2048 else n)" by (simp add: NewMemoryStore_def)
  let ?r = "run_ops mem_exec ops (NewMemoryStore n)"
  have r: "store_inv (snd ?r)" "fst ?r = fst (run_ops (spec_exec (maxSize (NewMemoryStore n))) ops [])"
    "lru_abs (snd ?r) = snd (run_ops (spec_exec (maxSize (NewMemoryStore n))) ops [])" "maxSize (snd ?r) = maxSize (NewMemoryStore n)"
    using run_refines [OF NewMemoryStore_inv(1) [of n], of ops] by (simp_all add: Let_def NewMemoryStore_inv(2))
  show ?thesis
    using r(2-4) abs_keys [OF r(1)] store_invD(6) [OF r(1)] unfolding mx mem_Len_def Let_def by simp
qed

text \<open>Eviction is least recently used: an entry just used survives every sequence of calls that neither
  delete, replace, expire nor promote it, as long as the calls touch fewer distinct other keys than the store
  has room for.\<close>

theorem lru_retention:
  assumes "store_inv m" "lru_abs m = e # es" "list_all (harmless e) ops"
    and "int (card (\<Union>op\<in>set ops. touches op)) < maxSize m"
  shows "e \<in> set (lru_abs (snd (run_ops mem_exec ops m)))"
proof (rule behind_run [where T = "{}"])
  show "behind e {} (lru_abs m)" by (rule behindI [of _ "[]" _ es]) (simp_all add: assms(2))
qed (use assms in simp_all)

definition sampleEntry :: "string \<Rightarrow> Entry" where
  "sampleEntry k = \<lparr>e_key = k, e_status = 200, e_headers = [], e_body = k, e_created = 0, e_expires = None, e_gzipBody = None\<rparr>"

lemma lru_retention_witness:
  "sampleEntry ''a'' \<in> set (lru_abs (snd (run_ops mem_exec
     [MSet (sampleEntry ''b''), MGet 5 ''b'', MSet (sampleEntry ''b'')] (mem_Set ''a'' (sampleEntry ''a'') (NewMemoryStore 2)))))"
proof (rule lru_retention)
  let ?m = "mem_Set ''a'' (sampleEntry ''a'') (NewMemoryStore 2)"
  have m: "?m = \<lparr>items = [''a'' \<mapsto> 0], lru = [(0, sampleEntry ''a'')], maxSize = 2, next_addr = 1\<rparr>"
    using evict_small [of "NewMemoryStore 2"] by (simp add: mem_Set_def NewMemoryStore_def Let_def)
  show "store_inv ?m" using Set_refines [OF NewMemoryStore_inv(1), of "sampleEntry ''a''" 2] by (simp add: sampleEntry_def)
  show "lru_abs ?m = sampleEntry ''a'' # []" by (simp add: m lru_abs_def)
  show "int (card (\<Union>op\<in>set [MSet (sampleEntry ''b''), MGet 5 ''b'', MSet (sampleEntry ''b'')]. touches op)) < maxSize ?m"
    unfolding m by (simp add: sampleEntry_def)
qed (simp add: sampleEntry_def)

end
