(* ===== verification/Http_Forward.thy ===== *)
theory Http_Forward
  imports Cache_Key Session Memory_Store
begin

text \<open>
  What \<open>src/network/network.go\<close> does to a request on its way to an upstream and to a response on its way back:
  end-to-end headers, the forwarding chain, body limits, the replay of a peeked body, gzip encoding for the
  client, the obfuscated upstream name, retry delays, and the classification of statuses.

  A response body is the bytes that can still be read and whether reading then ends with an error, which a read
  call of its own reports.  Compression is the parameter \<open>gzip\<close>, its inverse the parameter \<open>gunzip\<close>.  A float64
  is a real number; the conversion of one outside the range of \<open>int64\<close> is left to the implementation by the
  language and is the parameter \<open>oob\<close>.
\<close>


section \<open>Bodies and responses\<close>

record http_Body =
  b_data :: string
  b_broken :: bool

record http_Response =
  StatusCode :: int
  rs_Header :: http_Header
  rs_Body :: http_Body

datatype read_error = ReadFailed | BodyTooLarge int

definition ReadAll :: "http_Body \<Rightarrow> read_error + string" where
  "ReadAll b = (if b_broken b then Inl ReadFailed else Inr (b_data b))"

text \<open>\<open>io.ReadAll (io.LimitReader b n)\<close>: the outcome and what is left of the body.\<close>

definition ReadLimited :: "nat \<Rightarrow> http_Body \<Rightarrow> (read_error + string) \<times> http_Body" where
  "ReadLimited n b =
     (if n \<le> length (b_data b) then (Inr (take n (b_data b)), b\<lparr>b_data := drop n (b_data b)\<rparr>)
      else (ReadAll b, b\<lparr>b_data := []\<rparr>))"

definition readBodyCapped :: "http_Body \<Rightarrow> int \<Rightarrow> read_error + string" where
  "readBodyCapped b limit =
     (if limit \<le> 0 then ReadAll b
      else case fst (ReadLimited (nat (limit + 1)) b) of
             Inl e \<Rightarrow> Inl e
           | Inr body \<Rightarrow> if int (length body) > limit then Inl (BodyTooLarge limit) else Inr body)"

definition itoa_int :: "int \<Rightarrow> string" where
  "itoa_int n = (if n < 0 then ''-'' @ itoa (nat (- n)) else itoa (nat n))"

definition finalizeResponseBody :: "http_Header \<Rightarrow> string \<Rightarrow> http_Header" where
  "finalizeResponseBody h body = Header_Set ''Content-Length'' (itoa (length body)) h"

text \<open>\<open>readAndFinalizeResponseBody\<close> for the response to a request with the given method.\<close>

definition readAndFinalizeResponseBody :: "string \<Rightarrow> http_Response \<Rightarrow> int \<Rightarrow> read_error + (string \<times> http_Response)" where
  "readAndFinalizeResponseBody method resp limit =
     (case readBodyCapped (rs_Body resp) limit of
        Inl e \<Rightarrow> Inl e
      | Inr body \<Rightarrow>
          if method = ''HEAD'' then Inr (body, resp)
          else Inr (body, resp\<lparr>rs_Header := finalizeResponseBody (rs_Header resp) body\<rparr>))"

text \<open>\<open>peekBodyForPruning\<close>: the peeked prefix, if the status and the target ask for one, and the response with
  the prefix put back in front of the rest.\<close>

definition peekBodyForPruning :: "http_Response \<Rightarrow> HistoricalTarget \<Rightarrow> (read_error + string option) \<times> http_Response" where
  "peekBodyForPruning resp target =
     (if StatusCode resp \<noteq> 400 \<or> ht_Kind target \<noteq> HistoricalKindBlobSidecars \<or> \<not> IsHistorical target \<or> ht_Named target \<noteq> []
      then (Inr None, resp)
      else case ReadLimited peerDASBodyPeekLimit (rs_Body resp) of
             (Inl e, rest) \<Rightarrow> (Inl e, resp\<lparr>rs_Body := rest\<rparr>)
           | (Inr peeked, rest) \<Rightarrow>
               (Inr (Some peeked), resp\<lparr>rs_Body := \<lparr>b_data = peeked @ b_data rest, b_broken = b_broken rest\<rparr>\<rparr>))"


section \<open>Headers\<close>

definition hopByHopHeaders :: "string list" where
  "hopByHopHeaders =
     [''Connection'', ''Keep-Alive'', ''Proxy-Authenticate'', ''Proxy-Authorization'',
      ''Proxy-Connection'', ''Te'', ''Trailer'', ''Trailers'', ''Transfer-Encoding'', ''Upgrade'',
      ''X-EBEACON-Use-Upstream'', ''X-EBEACON-Secret-Token'', ''X-API-Key'', ''Authorization'']"

definition hopByHopHeaderSet :: "string list" where
  "hopByHopHeaderSet = map ToLower hopByHopHeaders"

definition nominated_by :: "string \<Rightarrow> string list" where
  "nominated_by value = filter (\<lambda>n. n \<noteq> []) (map (\<lambda>t. ToLower (TrimSpace t)) (SplitByte (CHR '','') value))"

definition hopByHopHeadersFor :: "http_Header \<Rightarrow> string list" where
  "hopByHopHeadersFor headers =
     hopByHopHeaderSet @ filter (\<lambda>n. n \<notin> set hopByHopHeaderSet) (concat (map nominated_by (Header_Values headers ''Connection'')))"

definition add_values :: "string \<Rightarrow> string list \<Rightarrow> http_Header \<Rightarrow> http_Header" where
  "add_values k vv dst = foldl (\<lambda>h v. Header_Add k v h) dst vv"

definition copyEndToEndHeaders :: "http_Header \<Rightarrow> http_Header \<Rightarrow> http_Header" where
  "copyEndToEndHeaders dst src =
     (let skip = hopByHopHeadersFor src in
      foldl (\<lambda>h (k, vv). if ToLower k \<in> set skip then h else add_values k vv h) dst src)"


section \<open>Requests to an upstream\<close>

record out_Request =
  or_Method :: string
  or_URL :: string
  or_Header :: http_Header
  or_Body :: "string option"

definition set_all :: "(string \<times> string) list \<Rightarrow> http_Header \<Rightarrow> http_Header" where
  "set_all kvs h = foldl (\<lambda>h (k, v). Header_Set k v h) h kvs"

definition newUpstreamRequest :: "Upstream \<Rightarrow> string \<Rightarrow> http_Request \<Rightarrow> string option \<Rightarrow> out_Request" where
  "newUpstreamRequest u method r body =
     \<lparr>or_Method = method, or_URL = u_URL u @ pathAndQueryForUpstream (r_URL r),
      or_Header = set_all (u_Headers u) (copyEndToEndHeaders [] (r_Header r)), or_Body = body\<rparr>"

text \<open>The request that \<open>forward\<close> hands to the transport.\<close>

definition append_peer :: "string \<Rightarrow> http_Header \<Rightarrow> http_Header" where
  "append_peer peer h =
     (let existing = Header_Get h ''X-Forwarded-For'' in
      Header_Set ''X-Forwarded-For'' (if existing \<noteq> [] then existing @ '', '' @ peer else peer) h)"

definition forward_request :: "bool \<Rightarrow> Upstream \<Rightarrow> http_Request \<Rightarrow> string option \<Rightarrow> out_Request" where
  "forward_request gzipEnabled u r body =
     (let req = newUpstreamRequest u (r_Method r) r body;
          h1 = (if gzipEnabled \<and> \<not> isEventStream r then Header_Set ''Accept-Encoding'' ''gzip'' (or_Header req) else or_Header req);
          h2 = append_peer (remoteAddrHost r) h1
      in req\<lparr>or_Header := Header_Set ''X-Forwarded-Host'' (r_Host r) h2\<rparr>)"

text \<open>The decompression step of \<open>forward\<close>: \<^const>\<open>None\<close> when the body has no gzip header, in which case the
  body is closed and the exchange counts as failed.\<close>

definition decode_response :: "(http_Body \<Rightarrow> http_Body option) \<Rightarrow> http_Response \<Rightarrow> http_Response option" where
  "decode_response gunzip resp =
     (if Header_Get (rs_Header resp) ''Content-Encoding'' = ''gzip'' then
        (case gunzip (rs_Body resp) of
           None \<Rightarrow> None
         | Some b \<Rightarrow> Some (resp\<lparr>rs_Body := b,
             rs_Header := Header_Del ''Content-Length'' (Header_Del ''Content-Encoding'' (rs_Header resp))\<rparr>))
      else Some resp)"


section \<open>Responses to the client\<close>

record client_Response =
  w_Status :: int
  w_Header :: http_Header
  w_Body :: string

text \<open>\<open>writeBody\<close> on a writer with headers \<open>wh\<close>; the result is the response and the cache entry, which
  memoizes its compressed body.\<close>

definition wants_plain :: "bool \<Rightarrow> http_Request \<Rightarrow> http_Header \<Rightarrow> string \<Rightarrow> bool" where
  "wants_plain gzipEnabled r hdr body \<longleftrightarrow>
     \<not> gzipEnabled \<or> \<not> Contains (Header_Get (r_Header r) ''Accept-Encoding'') ''gzip'' \<or>
     Header_Get hdr ''Content-Encoding'' \<noteq> [] \<or> length body \<le> 1024 \<or>
     EqualFold (Header_Get hdr ''Content-Type'') ''application/octet-stream''"

definition writeBody ::
  "(string \<Rightarrow> string) \<Rightarrow> bool \<Rightarrow> http_Request \<Rightarrow> http_Header \<Rightarrow> int \<Rightarrow> http_Header \<Rightarrow> string \<Rightarrow> Entry option \<Rightarrow> client_Response \<times> Entry option" where
  "writeBody gzip gzipEnabled r wh status hdr body entry =
     (if wants_plain gzipEnabled r hdr body then (\<lparr>w_Status = status, w_Header = wh, w_Body = body\<rparr>, entry)
      else let wh' = Header_Del ''Content-Length'' (Header_Set ''Content-Encoding'' ''gzip'' wh) in
           (case entry of
              None \<Rightarrow> (\<lparr>w_Status = status, w_Header = wh', w_Body = gzip body\<rparr>, None)
            | Some e \<Rightarrow> (case GzipBody gzip e of
                (z, e') \<Rightarrow> (\<lparr>w_Status = status, w_Header = wh', w_Body = z\<rparr>, Some e'))))"

definition fnv32a :: "string \<Rightarrow> 32 word" where
  "fnv32a s = foldl (\<lambda>h c. (h XOR of_nat (of_char c)) * 16777619) 2166136261 s"

definition lowerhex :: "nat \<Rightarrow> char" where
  "lowerhex n = (if n < 10 then char_of (n + 48) else char_of (n + 87))"

definition hex8 :: "32 word \<Rightarrow> string" where
  "hex8 w = map (\<lambda>i. lowerhex (unat (drop_bit (4 * (7 - i)) w AND 0xF))) [0..<8]"

text \<open>\<open>ObfuscateUpstreamID\<close> with the shared table of the tokens computed so far.\<close>

definition ObfuscateUpstreamID :: "(string \<rightharpoonup> string) \<Rightarrow> string \<Rightarrow> string \<times> (string \<rightharpoonup> string)" where
  "ObfuscateUpstreamID memo i =
     (case memo i of
        Some v \<Rightarrow> (v, memo)
      | None \<Rightarrow> let token = hex8 (fnv32a i) in (token, memo(i \<mapsto> token)))"


section \<open>Retries and statuses\<close>

text \<open>Conversion of a float64 to a \<open>time.Duration\<close>: the fraction is discarded.\<close>

definition to_duration :: "(real \<Rightarrow> int) \<Rightarrow> real \<Rightarrow> duration" where
  "to_duration oob x =
     (let n = (if x < 0 then \<lceil>x\<rceil> else \<lfloor>x\<rfloor>) in if - (2 ^ 63) \<le> n \<and> n < 2 ^ 63 then n else oob x)"

definition backed_off :: "RetryConfig \<Rightarrow> nat \<Rightarrow> real" where
  "backed_off cfg attempt = ((\<lambda>d. d * rt_Backoff cfg) ^^ attempt) (real_of_int (rt_Delay cfg))"

definition retryDelay :: "(real \<Rightarrow> int) \<Rightarrow> real \<Rightarrow> RetryConfig \<Rightarrow> nat \<Rightarrow> duration" where
  "retryDelay oob rnd cfg attempt =
     (let delay = backed_off cfg attempt;
          capped = (if rt_MaxDelay cfg > 0 \<and> to_duration oob delay > rt_MaxDelay cfg then real_of_int (rt_MaxDelay cfg) else delay);
          jittered = (if rt_Jitter cfg > 0 then capped + rnd * real_of_int (rt_Jitter cfg) else capped)
      in to_duration oob jittered)"

definition httpStatusClass :: "int \<Rightarrow> string" where
  "httpStatusClass code =
     (if code div 100 = 1 then ''1xx'' else if code div 100 = 2 then ''2xx'' else if code div 100 = 3 then ''3xx''
      else if code div 100 = 4 then ''4xx'' else if code div 100 = 5 then ''5xx'' else ''0xx'')"

definition shouldTreatStatusAsPathError :: "string \<Rightarrow> int \<Rightarrow> bool" where
  "shouldTreatStatusAsPathError apiPath statusCode \<longleftrightarrow>
     (statusCode = 404 \<or> statusCode = 405 \<or> statusCode = 501) \<and>
     (Contains apiPath ''/beacon/rewards/'' \<or> Contains apiPath ''/beacon/blobs/'' \<or> Contains apiPath ''/beacon/blob_sidecars/'')"

definition settle_outcome :: "int \<Rightarrow> cbOutcome" where
  "settle_outcome status = (if status \<ge> 500 then cbSettleFailure else cbSettleSuccess)"

definition settleTokenForStatus :: "time \<Rightarrow> CBToken \<Rightarrow> int \<Rightarrow> Upstream \<Rightarrow> Upstream" where
  "settleTokenForStatus now tok status u = settle_tok now (settle_outcome status) tok u"



section \<open>Bodies\<close>

lemma readBodyCapped_spec:
  "readBodyCapped b limit =
     (if limit > 0 \<and> int (length (b_data b)) > limit then Inl (BodyTooLarge limit)
      else if b_broken b then Inl ReadFailed
      else Inr (b_data b))"
  by (auto simp: readBodyCapped_def ReadLimited_def ReadAll_def nat_le_iff)

text \<open>Peeking is invisible to the readers that follow.\<close>

lemma peek_replays: "fst (peekBodyForPruning resp target) = Inr x \<Longrightarrow> snd (peekBodyForPruning resp target) = resp"
  by (cases resp; cases "rs_Body resp")
    (auto simp: peekBodyForPruning_def ReadLimited_def ReadAll_def split: if_splits)

lemma peek_status [simp]:
  "StatusCode (snd (peekBodyForPruning resp target)) = StatusCode resp"
  "rs_Header (snd (peekBodyForPruning resp target)) = rs_Header resp"
  by (auto simp: peekBodyForPruning_def split: prod.splits sum.splits)


section \<open>Which headers travel\<close>

lemma lower_upper: "lower_char (upper_char c) = lower_char c"
proof (cases "97 \<le> (of_char c :: nat) \<and> (of_char c :: nat) \<le> 122")
  case True
  let ?m = "(of_char c :: nat) - 32"
  have m: "65 \<le> ?m \<and> ?m \<le> 90" "?m + 32 = of_char c" using True by linarith+
  have "(of_char (char_of ?m :: char) :: nat) = ?m" by (subst of_char_of, intro mod_less) (use m in linarith)
  then have "lower_char (char_of ?m) = char_of (?m + 32)" using m(1) by (simp only: lower_char_def) simp
  also have "\<dots> = c" by (simp only: m(2) char_of_char)
  finally show ?thesis using True by (simp add: lower_char_def upper_char_def)
next
  case False
  then show ?thesis by (auto simp: upper_char_def)
qed

lemma lower_canonical_loop: "ToLower (canonical_loop up s) = ToLower s"
  by (induction up s rule: canonical_loop.induct) (simp_all add: ToLower_def lower_upper)

lemma lower_canonical [simp]: "ToLower (CanonicalHeaderKey s) = ToLower s"
  by (simp add: CanonicalHeaderKey_def lower_canonical_loop)

text \<open>The names of a header, in lower case.\<close>

definition lower_keys :: "http_Header \<Rightarrow> string set" where
  "lower_keys h = ToLower ` fst ` set h"

lemma keys_update: "fst ` set (AList.update k v h) = insert k (fst ` set h)"
  by (simp add: dom_map_of_conv_image_fst [symmetric] update_conv')

lemma lower_keys_Add [simp]: "lower_keys (Header_Add k v h) = insert (ToLower k) (lower_keys h)"
  by (simp add: lower_keys_def Header_Add_def Let_def keys_update)

lemma lower_keys_Set [simp]: "lower_keys (Header_Set k v h) = insert (ToLower k) (lower_keys h)"
  by (simp add: lower_keys_def Header_Set_def keys_update)

lemma lower_keys_Nil [simp]: "lower_keys [] = {}"
  by (simp add: lower_keys_def)

lemma lower_keys_Cons [simp]: "lower_keys (x # h) = insert (ToLower (fst x)) (lower_keys h)"
  by (simp add: lower_keys_def)

lemma lower_keys_add_values: "lower_keys (add_values k vv h) \<subseteq> insert (ToLower k) (lower_keys h)"
proof (induction vv arbitrary: h)
  case (Cons v vv)
  show ?case using Cons.IH [of "Header_Add k v h"] by (simp add: add_values_def)
qed (simp add: add_values_def subset_insertI)

lemma copied_keys_acc:
  "lower_keys (foldl (\<lambda>h (k, vv). if ToLower k \<in> set skip then h else add_values k vv h) dst src)
     \<subseteq> lower_keys dst \<union> (lower_keys src - set skip)"
proof (induction src arbitrary: dst)
  case (Cons x src)
  show ?case
  proof (cases "ToLower (fst x) \<in> set skip")
    case True
    then show ?thesis using Cons.IH [of dst] by (auto simp: case_prod_beta)
  next
    case False
    then show ?thesis
      using Cons.IH [of "add_values (fst x) (snd x) dst"] lower_keys_add_values [of "fst x" "snd x" dst]
      by (simp add: case_prod_beta) blast
  qed
qed simp

lemma copied_keys: "lower_keys (copyEndToEndHeaders [] src) \<subseteq> lower_keys src - set (hopByHopHeadersFor src)"
  using copied_keys_acc [of "hopByHopHeadersFor src" "[]" src] by (simp add: copyEndToEndHeaders_def Let_def)

lemma lower_keys_set_all: "lower_keys (set_all kvs h) \<subseteq> lower_keys h \<union> ToLower ` fst ` set kvs"
proof (induction kvs arbitrary: h)
  case (Cons x kvs)
  show ?case using Cons.IH [of "Header_Set (fst x) (snd x) h"] by (simp add: set_all_def case_prod_beta)
qed (simp add: set_all_def)

lemma Header_Values_absent:
  assumes "ToLower k \<notin> lower_keys h"
  shows "Header_Values h k = []"
proof -
  have "CanonicalHeaderKey k \<notin> fst ` set h" using assms unfolding lower_keys_def by (metis image_eqI lower_canonical)
  then have "map_of h (CanonicalHeaderKey k) = None" by (simp only: map_of_eq_None_iff not_False_eq_True)
  then show ?thesis by (simp add: Header_Values_def)
qed

text \<open>A header the proxy keeps to itself reaches an upstream only if that upstream's configuration sets it.\<close>

lemma forward_strips:
  assumes "ToLower k \<in> set hopByHopHeaderSet" "ToLower k \<notin> ToLower ` fst ` set (u_Headers u)"
    and "ToLower k \<notin> set [''accept-encoding'', ''x-forwarded-for'', ''x-forwarded-host'']"
  shows "Header_Values (or_Header (forward_request gz u r body)) k = []"
proof (rule Header_Values_absent)
  have "set hopByHopHeaderSet \<subseteq> set (hopByHopHeadersFor (r_Header r))" by (simp add: hopByHopHeadersFor_def)
  then have "ToLower k \<notin> lower_keys (copyEndToEndHeaders [] (r_Header r))" using assms(1) copied_keys by blast
  then have base: "ToLower k \<notin> lower_keys (or_Header (newUpstreamRequest u m r body))" for m
    using assms(2) lower_keys_set_all by (fastforce simp: newUpstreamRequest_def)
  have names: "ToLower ''Accept-Encoding'' = ''accept-encoding''" "ToLower ''X-Forwarded-For'' = ''x-forwarded-for''"
    "ToLower ''X-Forwarded-Host'' = ''x-forwarded-host''" by code_simp+
  show "ToLower k \<notin> lower_keys (or_Header (forward_request gz u r body))"
    using base assms(3) by (simp add: forward_request_def append_peer_def Let_def names)
qed



section \<open>Which parameters travel\<close>

lemma upperhex_plain: "n < 16 \<Longrightarrow> upperhex n \<noteq> CHR ''?''"
proof -
  assume "n < 16"
  then have "(of_char (upperhex n) :: nat) \<noteq> 63" by (simp add: upperhex_def of_char_of)
  then show ?thesis by (auto simp: of_char_def)
qed

lemma EscapedPath_no_question: "CHR ''?'' \<notin> set (EscapedPath u)"
proof -
  have q: "shouldEscape encodePath (CHR ''?'')" by code_simp
  have "CHR ''?'' \<notin> set (escape_char encodePath c)" for c
    using q upperhex_plain [OF char_nibbles(1), of c] upperhex_plain [OF char_nibbles(2), of c]
    by (auto simp: escape_char_def)
  then have "CHR ''?'' \<notin> set (url_escape encodePath s)" for s by (auto simp: url_escape_def)
  moreover have "CHR ''?'' \<notin> set s" if ve: "validEncoded s" for s
  proof
    assume "CHR ''?'' \<in> set s"
    then show False using ve q by (auto simp only: validEncoded_def dest!: bspec) simp_all
  qed
  ultimately show ?thesis by (simp add: EscapedPath_def)
qed

lemma update_all: "list_all P q \<Longrightarrow> P (k, v) \<Longrightarrow> list_all P (AList.update k v q)"
  by (induction q) auto

lemma values_ok_Add: "values_ok q \<Longrightarrow> values_ok (Values_Add k v q)"
  using update_all [of "\<lambda>kv. snd kv \<noteq> []" q k] by (simp add: values_ok_def Values_Add_def distinct_update split: option.splits)

lemma values_ok_Query: "values_ok (Query u)"
proof -
  have "values_ok (foldl add_piece q ps)" if "values_ok q" for q ps
    using that by (induction ps arbitrary: q) (auto simp: add_piece_def values_ok_Add split: option.splits)
  then show ?thesis by (simp add: Query_def ParseQuery_def values_ok_def)
qed

lemma values_ok_filter: "values_ok q \<Longrightarrow> values_ok (filter P q)"
  by (auto simp: values_ok_def list_all_iff distinct_map_filter)

lemma forwardable_ok: "values_ok (forwardableQuery u)"
  using values_ok_Query [of u] by (simp add: forwardableQuery_def Values_Del_def values_ok_filter)

lemma forwardable_keys: "k \<in> set [''secret'', ''use-upstream'', ''token''] \<Longrightarrow> k \<notin> fst ` set (forwardableQuery u)"
  by (auto simp: forwardableQuery_def Values_Del_def)

text \<open>The query of the request as the upstream parses it, after the question mark.\<close>

lemma upstream_query:
  "\<exists>path query. pathAndQueryForUpstream u = path @ query \<and> CHR ''?'' \<notin> set path \<and>
     (query = [] \<or> (\<exists>enc. query = ''?'' @ enc \<and> ParseQuery enc = sort_key fst (forwardableQuery u)))"
proof -
  let ?path = "or_empty (EscapedPath u) ''/''"
  have "CHR ''?'' \<notin> set ?path" using EscapedPath_no_question by (simp add: or_empty_def)
  moreover have "pathAndQueryForUpstream u = ?path @ [] \<or>
      pathAndQueryForUpstream u = ?path @ ''?'' @ Encode (forwardableQuery u)"
    by (simp add: pathAndQueryForUpstream_def with_query_def Let_def)
  ultimately show ?thesis using ParseQuery_Encode [OF forwardable_ok, of u] by metis
qed


section \<open>Names, compression, delays\<close>

text \<open>The shared table is a memo: it only ever holds what would be computed.\<close>

definition memo_ok :: "(string \<rightharpoonup> string) \<Rightarrow> bool" where
  "memo_ok memo \<longleftrightarrow> (\<forall>i t. memo i = Some t \<longrightarrow> t = hex8 (fnv32a i))"

lemma obfuscate_transparent:
  "memo_ok memo \<Longrightarrow> fst (ObfuscateUpstreamID memo i) = hex8 (fnv32a i) \<and> memo_ok (snd (ObfuscateUpstreamID memo i))"
  by (auto simp: ObfuscateUpstreamID_def memo_ok_def Let_def split: option.splits)

definition entry_zip_ok :: "(string \<Rightarrow> string) \<Rightarrow> Entry \<Rightarrow> bool" where
  "entry_zip_ok gzip e \<longleftrightarrow> e_gzipBody e = None \<or> e_gzipBody e = Some (gzip (e_body e))"

lemma writeBody_entry:
  assumes "entry_zip_ok gzip e"
  shows "fst (writeBody gzip ge r wh status hdr (e_body e) (Some e)) = fst (writeBody gzip ge r wh status hdr (e_body e) None)"
    "\<exists>e'. snd (writeBody gzip ge r wh status hdr (e_body e) (Some e)) = Some e' \<and> entry_zip_ok gzip e' \<and> e_body e' = e_body e"
  using assms by (auto simp: writeBody_def GzipBody_def entry_zip_ok_def Let_def split: option.splits)

lemma backed_off_eq: "backed_off cfg attempt = real_of_int (rt_Delay cfg) * rt_Backoff cfg ^ attempt"
  by (induction attempt) (simp_all add: backed_off_def)

lemma to_duration_in: "0 \<le> x \<Longrightarrow> x < 2 ^ 63 \<Longrightarrow> to_duration oob x = \<lfloor>x\<rfloor>"
  by (simp add: to_duration_def Let_def floor_less_iff)

lemma retryDelay_bounded:
  assumes "0 \<le> rt_Delay cfg" "0 \<le> rt_Backoff cfg" "0 < rt_MaxDelay cfg" "0 \<le> rt_Jitter cfg" "0 \<le> rnd" "rnd < 1"
    and "backed_off cfg attempt < 2 ^ 63" "real_of_int (rt_MaxDelay cfg + rt_Jitter cfg) + 1 < 2 ^ 63"
  shows "0 \<le> retryDelay oob rnd cfg attempt \<and> retryDelay oob rnd cfg attempt \<le> rt_MaxDelay cfg + rt_Jitter cfg"
proof -
  let ?d = "backed_off cfg attempt"
  let ?c = "if to_duration oob ?d > rt_MaxDelay cfg then real_of_int (rt_MaxDelay cfg) else ?d"
  have d: "0 \<le> ?d" using assms by (simp add: backed_off_eq)
  have c: "0 \<le> ?c" "?c < real_of_int (rt_MaxDelay cfg) + 1" using d assms to_duration_in [OF d assms(7)] by (auto simp: floor_le_iff not_less)
  let ?j = "if rt_Jitter cfg > 0 then ?c + rnd * real_of_int (rt_Jitter cfg) else ?c"
  have "rnd * real_of_int (rt_Jitter cfg) \<le> real_of_int (rt_Jitter cfg)" using assms by (intro mult_left_le_one_le) simp_all
  moreover have "0 \<le> rnd * real_of_int (rt_Jitter cfg)" using assms by simp
  ultimately have j: "0 \<le> ?j" "?j < real_of_int (rt_MaxDelay cfg + rt_Jitter cfg) + 1" using c by (auto split: if_splits)
  have "retryDelay oob rnd cfg attempt = to_duration oob ?j" using assms(3) by (simp add: retryDelay_def Let_def)
  also have "\<dots> = \<lfloor>?j\<rfloor>" by (rule to_duration_in) (use j assms(8) in linarith)+
  finally have "retryDelay oob rnd cfg attempt = \<lfloor>?j\<rfloor>" .
  moreover have "0 \<le> \<lfloor>?j\<rfloor>" "\<lfloor>?j\<rfloor> \<le> rt_MaxDelay cfg + rt_Jitter cfg"
    unfolding zero_le_floor floor_le_iff by (rule j)+
  ultimately show ?thesis by (simp only: simp_thms)
qed

text \<open>Where an out-of-range conversion gives the smallest integer, as on amd64, the cap does not hold: a delay
  that has grown past the range is not capped but negative, and the retry is immediate.\<close>

lemma retryDelay_overflow:
  "retryDelay (\<lambda>_. - (2 ^ 63)) 0 \<lparr>rt_MaxAttempts = 60, rt_Delay = 100 * millisecond, rt_Backoff = 2, rt_Jitter = 0, rt_MaxDelay = second\<rparr> 40 < 0"
  by (simp add: retryDelay_def backed_off_eq to_duration_def Let_def)

end
