(* ===== verification/Health_Monitor.thy ===== *)
theory Health_Monitor
  imports Pool
begin

text \<open>
  The background health checks of \<open>src/upstream/health.go\<close> and the client types they detect.  A check is a step
  on the pool; what the network answered is its argument, the HTTP status together with the decoded document if
  it decodes.  Tickers and goroutines are the arbitrary order of the steps; gauges and logging are left out.

  Lemmas: a check touches only its own upstream, and the published health of an upstream is a function of the
  last answers to its two verdict checks.
\<close>


section \<open>Upstreams of a pool\<close>

text \<open>Every part of the program that works on an upstream holds a pointer to it; here it holds the identifier.\<close>

definition upd_up :: "string \<Rightarrow> (Upstream \<Rightarrow> Upstream) \<Rightarrow> Pool \<Rightarrow> Pool" where
  "upd_up i f p = p\<lparr>upstreams := map (\<lambda>u. if u_ID u = i then f u else u) (upstreams p)\<rparr>"

definition ids_ok :: "Pool \<Rightarrow> bool" where
  "ids_ok p \<longleftrightarrow> distinct (map u_ID (upstreams p))"

lemma upd_up_fields [simp]:
  "blockCache (upd_up i f p) = blockCache p" "hasArchive (upd_up i f p) = hasArchive p" "rrCounter (upd_up i f p) = rrCounter p"
  "routing (upd_up i f p) = routing p" "finalizedEpoch (upd_up i f p) = finalizedEpoch p"
  "slotsPerEpoch (upd_up i f p) = slotsPerEpoch p" "sharedState (upd_up i f p) = sharedState p"
  by (simp_all add: upd_up_def)

lemma ids_upd [simp]: "(\<And>u. u_ID (f u) = u_ID u) \<Longrightarrow> map u_ID (upstreams (upd_up i f p)) = map u_ID (upstreams p)"
  by (simp add: upd_up_def)

lemma ByID_upd:
  assumes "\<And>u. u_ID (f u) = u_ID u"
  shows "ByID (upd_up i f p) j = (if i = j then map_option f (ByID p j) else ByID p j)"
proof -
  have "find (\<lambda>u. u_ID u = j) (map (\<lambda>u. if u_ID u = i then f u else u) us) =
    (if i = j then map_option f (find (\<lambda>u. u_ID u = j) us) else find (\<lambda>u. u_ID u = j) us)" for us
    by (induction us) (auto simp: assms)
  then show ?thesis by (simp add: ByID_def upd_up_def)
qed

lemma ByID_ID: "ByID p i = Some u \<Longrightarrow> u_ID u = i"
  by (auto simp: ByID_def find_Some_iff)

lemma ByID_mem: "ByID p i = Some u \<Longrightarrow> u \<in> set (upstreams p)"
  by (auto simp: ByID_def find_Some_iff)

lemma ByID_some: "i \<in> u_ID ` set (upstreams p) \<Longrightarrow> \<exists>u. ByID p i = Some u"
  by (cases "ByID p i") (auto simp: ByID_def find_None_iff)


section \<open>Client types\<close>

definition clientTypePatterns :: "(string \<times> string) list" where
  "clientTypePatterns =
     [(''lighthouse/'', ''lighthouse''), (''prysm/'', ''prysm''), (''teku/'', ''teku''), (''nimbus/'', ''nimbus''),
      (''lodestar/'', ''lodestar''), (''grandine/'', ''grandine''), (''caplin/'', ''caplin'')]"

text \<open>The patterns are case-insensitive anchored literals, so a match is a prefix test on the lower-case version.\<close>

definition version_type :: "string \<Rightarrow> string" where
  "version_type version =
     (case find (\<lambda>(pat, name). HasPrefix (ToLower version) pat) clientTypePatterns of
        Some (_, name) \<Rightarrow> name
      | None \<Rightarrow> ClientUnknown)"

definition IsKnownClientType :: "string \<Rightarrow> bool" where
  "IsKnownClientType name = list_ex (\<lambda>(pat, typeName). typeName = ToLower name) clientTypePatterns"


section \<open>Checks\<close>

text \<open>No request could be built, the transport failed, or an answer with its status and decoded body.\<close>

datatype 'a answer = NoRequest | NoAnswer | Reply int "'a option"

record syncStatus =
  ss_HeadSlot :: string
  ss_SyncDistance :: string
  ss_IsSyncing :: bool
  ss_ElOffline :: bool

definition recordProbeSuccess :: "duration \<Rightarrow> Upstream \<Rightarrow> Upstream" where
  "recordProbeSuccess d = RecordSuccessForPath [] d"

definition recordProbeError :: "Upstream \<Rightarrow> Upstream" where
  "recordProbeError = RecordScoreErrorForPath []"

text \<open>\<open>getJSON\<close> decodes an answer with status 200.\<close>

fun getJSON :: "'a answer \<Rightarrow> 'a option" where
  "getJSON (Reply status doc) = (if status \<noteq> 200 then None else doc)"
| "getJSON _ = None"

definition sync_numbers :: "syncStatus \<Rightarrow> (u64 \<times> u64) option" where
  "sync_numbers s =
     (case (ParseUint (ss_HeadSlot s), ParseUint (ss_SyncDistance s)) of
        (Some slot, Some behind) \<Rightarrow> Some (slot, behind)
      | _ \<Rightarrow> None)"

definition checkSync :: "HealthConfig \<Rightarrow> duration \<Rightarrow> syncStatus answer \<Rightarrow> Upstream \<Rightarrow> Upstream" where
  "checkSync cfg d ans u =
     (case ans of
        NoRequest \<Rightarrow> setSyncVerdict HealthDown u
      | NoAnswer \<Rightarrow> recordProbeError (setSyncVerdict HealthDown u)
      | Reply status doc \<Rightarrow>
          if status \<noteq> 200 then recordProbeError (setSyncVerdict HealthDown u)
          else (case doc of
                  None \<Rightarrow> recordProbeError (setSyncVerdict HealthDown u)
                | Some s \<Rightarrow>
                    (case sync_numbers s of
                       None \<Rightarrow> recordProbeError (setSyncVerdict HealthDown u)
                     | Some (slot, behind) \<Rightarrow>
                         let syncing = (ss_IsSyncing s \<or> behind > hc_MaxSyncDistance cfg \<or> ss_ElOffline s) in
                         recordProbeSuccess d (UpdateSyncStatus syncing slot behind u))))"

definition checkFinality :: "time \<Rightarrow> duration \<Rightarrow> string answer \<Rightarrow> string \<Rightarrow> Pool \<Rightarrow> Pool" where
  "checkFinality now d ans i p =
     (case ByID p i of
        None \<Rightarrow> p
      | Some u \<Rightarrow>
          if \<not> IsHealthy u then p
          else (case Option.bind (getJSON ans) ParseUint of
                  None \<Rightarrow> upd_up i recordProbeError p
                | Some epoch \<Rightarrow>
                    let p1 = upd_up i (UpdateFinalizedEpoch epoch) p;
                        p2 = snd (pool_UpdateFinalizedEpoch now epoch p1)
                    in upd_up i (recordProbeSuccess d) p2))"

definition checkVersion :: "duration \<Rightarrow> string answer \<Rightarrow> Upstream \<Rightarrow> Upstream" where
  "checkVersion d ans u =
     (case getJSON ans of
        None \<Rightarrow> recordProbeError u
      | Some version \<Rightarrow> recordProbeSuccess d (SetClientType (version_type version) u))"

text \<open>The head document: slot, root and parent root.\<close>

definition checkHead :: "time \<Rightarrow> duration \<Rightarrow> (string \<times> string \<times> string) answer \<Rightarrow> string \<Rightarrow> Pool \<Rightarrow> Pool" where
  "checkHead now d ans i p =
     (case ByID p i of
        None \<Rightarrow> p
      | Some u \<Rightarrow>
          if \<not> IsHealthy u then p
          else (case getJSON ans of
                  None \<Rightarrow> upd_up i recordProbeError p
                | Some (slotText, rt, parentRoot) \<Rightarrow>
                    (case ParseUint slotText of
                       None \<Rightarrow> upd_up i recordProbeError p
                     | Some slot \<Rightarrow>
                         let p1 = upd_up i (UpdateHeadBlock slot rt) p;
                             p2 = p1\<lparr>blockCache := AddBlock now i slot rt parentRoot (blockCache p1)\<rparr>;
                             p3 = SyncCanonicalHead p2
                         in upd_up i (recordProbeSuccess d) p3)))"

definition checkNodeHealth :: "duration \<Rightarrow> unit answer \<Rightarrow> Upstream \<Rightarrow> Upstream" where
  "checkNodeHealth d ans u =
     (case ans of
        NoRequest \<Rightarrow> u
      | NoAnswer \<Rightarrow> recordProbeError (setNodeVerdict HealthDown u)
      | Reply status _ \<Rightarrow>
          if status = 200 then recordProbeSuccess d (setNodeVerdict HealthUp u)
          else if status = 206 then recordProbeSuccess d (setNodeVerdict HealthDegraded u)
          else if status = 503 then recordProbeError (setNodeVerdict HealthDown u)
          else setNodeVerdict HealthUp u)"


section \<open>Histories\<close>

datatype check =
    CheckSync string duration "syncStatus answer"
  | CheckFinality time string duration "string answer"
  | CheckVersion string duration "string answer"
  | CheckHead time string duration "(string \<times> string \<times> string) answer"
  | CheckNodeHealth string duration "unit answer"
  | CleanupBlocks

fun check_exec :: "HealthConfig \<Rightarrow> check \<Rightarrow> Pool \<Rightarrow> Pool" where
  "check_exec cfg (CheckSync i d ans) p = upd_up i (checkSync cfg d ans) p"
| "check_exec cfg (CheckFinality now i d ans) p = checkFinality now d ans i p"
| "check_exec cfg (CheckVersion i d ans) p = upd_up i (checkVersion d ans) p"
| "check_exec cfg (CheckHead now i d ans) p = checkHead now d ans i p"
| "check_exec cfg (CheckNodeHealth i d ans) p = upd_up i (checkNodeHealth d ans) p"
| "check_exec cfg CleanupBlocks p = p\<lparr>blockCache := Cleanup (blockCache p)\<rparr>"

text \<open>The verdicts that answers stand for.\<close>

fun sync_verdict :: "HealthConfig \<Rightarrow> syncStatus answer \<Rightarrow> HealthStatus" where
  "sync_verdict cfg (Reply status (Some s)) =
     (case (status = 200, sync_numbers s) of
        (True, Some (_, behind)) \<Rightarrow>
          if ss_IsSyncing s \<or> behind > hc_MaxSyncDistance cfg \<or> ss_ElOffline s then HealthDegraded else HealthUp
      | _ \<Rightarrow> HealthDown)"
| "sync_verdict cfg _ = HealthDown"

fun node_verdict :: "unit answer \<Rightarrow> HealthStatus option" where
  "node_verdict NoRequest = None"
| "node_verdict NoAnswer = Some HealthDown"
| "node_verdict (Reply status _) = Some (if status = 503 then HealthDown else if status = 206 then HealthDegraded else HealthUp)"

text \<open>The verdicts of one upstream after a history: those of the last answers.\<close>

fun verdicts :: "HealthConfig \<Rightarrow> string \<Rightarrow> check list \<Rightarrow> HealthStatus \<times> HealthStatus \<Rightarrow> HealthStatus \<times> HealthStatus" where
  "verdicts cfg i [] v = v"
| "verdicts cfg i (CheckSync j d ans # cs) v = verdicts cfg i cs (if j = i then (fst v, sync_verdict cfg ans) else v)"
| "verdicts cfg i (CheckNodeHealth j d ans # cs) v =
     verdicts cfg i cs (if j = i then (case node_verdict ans of None \<Rightarrow> v | Some n \<Rightarrow> (n, snd v)) else v)"
| "verdicts cfg i (_ # cs) v = verdicts cfg i cs v"



section \<open>Health follows the answers\<close>

lemma probe_fields [simp]:
  "u_ID (recordProbeSuccess d u) = u_ID u" "u_ID (recordProbeError u) = u_ID u"
  "nodeVerdict (recordProbeSuccess d u) = nodeVerdict u" "nodeVerdict (recordProbeError u) = nodeVerdict u"
  "syncVerdict (recordProbeSuccess d u) = syncVerdict u" "syncVerdict (recordProbeError u) = syncVerdict u"
  "health (recordProbeSuccess d u) = health u" "health (recordProbeError u) = health u"
  by (simp_all add: recordProbeSuccess_def recordProbeError_def RecordSuccessForPath_def RecordScoreErrorForPath_def
      routeScorer_update_def)

lemmas verdict_defs = setSyncVerdict_def setNodeVerdict_def UpdateSyncStatus_def recomputeHealthLocked_def
  UpdateFinalizedEpoch_def UpdateHeadBlock_def SetClientType_def

text \<open>The two verdicts, and that the health is the worse of them.\<close>

definition agrees :: "HealthStatus \<times> HealthStatus \<Rightarrow> Upstream \<Rightarrow> bool" where
  "agrees v u \<longleftrightarrow> nodeVerdict u = fst v \<and> syncVerdict u = snd v \<and> health u = min (fst v) (snd v)"

lemma checkSync_agrees: "agrees v u \<Longrightarrow> agrees (fst v, sync_verdict cfg ans) (checkSync cfg d ans u)"
  by (auto simp: agrees_def checkSync_def verdict_defs Let_def split: answer.splits option.splits prod.splits)

lemma checkNode_agrees:
  "agrees v u \<Longrightarrow> agrees (case node_verdict ans of None \<Rightarrow> v | Some n \<Rightarrow> (n, snd v)) (checkNodeHealth d ans u)"
  by (auto simp: agrees_def checkNodeHealth_def verdict_defs split: answer.splits)

lemma checkVersion_agrees: "agrees v u \<Longrightarrow> agrees v (checkVersion d ans u)"
  by (auto simp: agrees_def checkVersion_def verdict_defs split: option.splits)

lemma check_ids [simp]:
  "u_ID (checkSync cfg d ans u) = u_ID u" "u_ID (checkNodeHealth d nans u) = u_ID u" "u_ID (checkVersion d vans u) = u_ID u"
  by (auto simp: checkSync_def checkNodeHealth_def checkVersion_def verdict_defs Let_def
      split: answer.splits option.splits prod.splits)

lemma ByID_pool [simp]:
  "ByID (p\<lparr>blockCache := b\<rparr>) i = ByID p i" "ByID (SyncCanonicalHead p) i = ByID p i"
  "ByID (snd (pool_UpdateFinalizedEpoch now e p)) i = ByID p i"
  by (auto simp: ByID_def SyncCanonicalHead_def pool_UpdateFinalizedEpoch_def publish_def Let_def split: option.splits prod.splits)

lemma checkFinality_agrees:
  assumes "ByID p i = Some u" "agrees v u"
  shows "\<exists>u'. ByID (checkFinality now d ans j p) i = Some u' \<and> agrees v u'"
  using assms by (auto simp: checkFinality_def Let_def ByID_upd agrees_def verdict_defs split: option.splits)

lemma checkHead_agrees:
  assumes "ByID p i = Some u" "agrees v u"
  shows "\<exists>u'. ByID (checkHead now d ans j p) i = Some u' \<and> agrees v u'"
  using assms by (auto simp: checkHead_def Let_def ByID_upd agrees_def verdict_defs split: option.splits prod.splits)

lemma check_agrees:
  assumes "ByID p i = Some u" "agrees v u"
  shows "\<exists>u'. ByID (check_exec cfg c p) i = Some u' \<and> agrees (verdicts cfg i [c] v) u'"
proof (cases c)
  case (CheckSync j d ans)
  then show ?thesis using assms checkSync_agrees by (auto simp: ByID_upd)
next
  case (CheckNodeHealth j d ans)
  then show ?thesis using assms checkNode_agrees by (auto simp: ByID_upd)
next
  case (CheckVersion j d ans)
  then show ?thesis using assms checkVersion_agrees by (auto simp: ByID_upd)
qed (use assms checkFinality_agrees checkHead_agrees in simp_all)

lemma verdicts_Cons: "verdicts cfg i (c # cs) v = verdicts cfg i cs (verdicts cfg i [c] v)"
  by (cases c) simp_all

lemma checks_agree:
  "ByID p i = Some u \<Longrightarrow> agrees v u \<Longrightarrow> \<exists>u'. ByID (fold (check_exec cfg) cs p) i = Some u' \<and> agrees (verdicts cfg i cs v) u'"
proof (induction cs arbitrary: p u v)
  case (Cons c cs)
  obtain u' where "ByID (check_exec cfg c p) i = Some u'" "agrees (verdicts cfg i [c] v) u'"
    using check_agrees [OF Cons.prems] by blast
  then show ?case using Cons.IH [of "check_exec cfg c p" u' "verdicts cfg i [c] v"] by (simp add: verdicts_Cons [of cfg i c cs])
qed simp


section \<open>Properties\<close>

text \<open>C39 However the checks of all upstreams interleave, an upstream's published health is decided by the last
  answers of its own two verdict checks alone: the worse of the sync verdict and the node verdict.  In particular
  an upstream that was down is up again as soon as both checks were answered well once.\<close>

theorem health_follows_answers:
  assumes "ByID p i = Some u" "health u = min (nodeVerdict u) (syncVerdict u)"
  shows "\<exists>u'. ByID (fold (check_exec cfg) cs p) i = Some u' \<and>
      (nodeVerdict u', syncVerdict u') = verdicts cfg i cs (nodeVerdict u, syncVerdict u) \<and>
      health u' = min (nodeVerdict u') (syncVerdict u')"
proof -
  have "agrees (nodeVerdict u, syncVerdict u) u" using assms(2) by (simp add: agrees_def)
  from checks_agree [OF assms(1) this, of cfg cs] show ?thesis by (auto simp: agrees_def)
qed

lemma health_follows_answers_witness:
  "\<exists>u. ByID (fold (check_exec \<lparr>hc_CheckInterval = 1, hc_FinalityInterval = 1, hc_MaxSyncDistance = 2, hc_FollowDistance = 32, hc_MaxHeadDistance = 2\<rparr>)
       [CheckNodeHealth ''a'' 1 NoAnswer, CheckSync ''b'' 1 NoAnswer]
       (samplePool [zeroUpstreamConfig\<lparr>uc_ID := ''a''\<rparr>] (NewBlockCache 32 2))) ''a'' = Some u \<and> health u = HealthDown"
proof -
  let ?p = "samplePool [zeroUpstreamConfig\<lparr>uc_ID := ''a''\<rparr>] (NewBlockCache 32 2)"
  let ?u = "New 0 ''mainnet'' (zeroUpstreamConfig\<lparr>uc_ID := ''a''\<rparr>) None 10"
  have "ByID ?p ''a'' = Some ?u" "health ?u = min (nodeVerdict ?u) (syncVerdict ?u)"
    by (simp_all add: samplePool_def ByID_def New_def)
  from health_follows_answers [OF this, of "\<lparr>hc_CheckInterval = 1, hc_FinalityInterval = 1, hc_MaxSyncDistance = 2,
      hc_FollowDistance = 32, hc_MaxHeadDistance = 2\<rparr>" "[CheckNodeHealth ''a'' 1 NoAnswer, CheckSync ''b'' 1 NoAnswer]"]
  show ?thesis by (auto simp: New_def min_def less_eq_HealthStatus_def)
qed

end
