(* ===== verification/Dispatch.thy ===== *)
theory Dispatch
  imports Http_Forward Health_Monitor
begin

text \<open>
  One dispatched request: \<open>forward\<close> of \<open>src/network/network.go\<close> on the state of its upstream, and the accounts a
  dispatcher has to keep.

  What the network does to an attempt is the record \<open>attempt\<close>.  An admitted request owns a circuit-breaker token
  and, with its response, a body that counts as an active connection.  \<open>owes\<close> says that an upstream is balanced as
  soon as both are given back; \<open>acct\<close> says for a whole pool which upstreams still have something outstanding.  The
  dispatchers of the following theories are all verified against \<open>acct\<close>.

  A request is followed on its own: that the breaker's steps of concurrent requests do not disturb each other is the
  subject of the breaker's theory.
\<close>


section \<open>Attempts\<close>

datatype exchange = BuildError string | NetError string | Answer http_Response

text \<open>The clock at admission and at settlement, the exchange, and whether an error is the client's own cancellation.\<close>

record attempt =
  at_start :: time
  at_exchange :: exchange
  at_cancel :: bool
  at_settle :: time

datatype fwd_error = BuildFailed string | CircuitUnavailable | Transport string | InvalidGzip

type_synonym forwarded = "(fwd_error + http_Response \<times> trackedBody) \<times> CBToken"

definition forward :: "(http_Body \<Rightarrow> http_Body option) \<Rightarrow> attempt \<Rightarrow> Upstream \<Rightarrow> forwarded \<times> Upstream" where
  "forward gunzip a u =
     (case at_exchange a of
        BuildError m \<Rightarrow> ((Inl (BuildFailed m), zeroToken), u)
      | NetError m \<Rightarrow>
          (case Do (at_start a) (Inl m) u of
             ((_, tok, err), u1) \<Rightarrow>
               ((Inl (if err = Some ErrCircuitUnavailable then CircuitUnavailable else Transport m), tok), u1))
      | Answer resp \<Rightarrow>
          (case Do (at_start a) (Inr True) u of
             ((None, tok, _), u1) \<Rightarrow> ((Inl CircuitUnavailable, tok), u1)
           | ((Some body, tok, _), u1) \<Rightarrow>
               (case decode_response gunzip resp of
                  None \<Rightarrow> ((Inl InvalidGzip, tok), snd (closeBody body u1))
                | Some resp' \<Rightarrow> ((Inr (resp', body), tok), u1))))"

definition recordUpstreamFailure :: "time \<Rightarrow> CBToken \<Rightarrow> string \<Rightarrow> Upstream \<Rightarrow> Upstream" where
  "recordUpstreamFailure now tok apiPath u = RecordScoreErrorForPath apiPath (settle_tok now cbSettleFailure tok u)"


section \<open>Accounts of one upstream\<close>

definition up_ok :: "Upstream \<Rightarrow> bool" where
  "up_ok u \<longleftrightarrow> cb_inv (brk u) \<and> cb_cfg_ok (cbCfg (brk u))"

text \<open>Nothing is outstanding that was not outstanding before.\<close>

definition balanced :: "Upstream \<Rightarrow> Upstream \<Rightarrow> bool" where
  "balanced u u' \<longleftrightarrow> u_ID u' = u_ID u \<and> u_Archive u' = u_Archive u \<and> activeConns u' = activeConns u \<and>
     cbCfg (brk u') = cbCfg (brk u) \<and> cb_inv (brk u') \<and> cbProbeInFlight (brk u') = cbProbeInFlight (brk u)"

type_synonym hold = "trackedBody option \<times> CBToken"

definition give_back :: "time \<Rightarrow> cbOutcome \<Rightarrow> hold \<Rightarrow> Upstream \<Rightarrow> Upstream" where
  "give_back t out h u =
     settle_tok t out (snd h) (case fst h of None \<Rightarrow> u | Some b \<Rightarrow> snd (closeBody b u))"

definition owes :: "hold \<Rightarrow> Upstream \<Rightarrow> Upstream \<Rightarrow> bool" where
  "owes h u u' \<longleftrightarrow> (\<forall>t out. balanced u (give_back t out h u'))"

text \<open>Steps that touch neither the breaker nor the connection count.\<close>

definition neutral :: "(Upstream \<Rightarrow> Upstream) \<Rightarrow> bool" where
  "neutral f \<longleftrightarrow> (\<forall>u. u_ID (f u) = u_ID u \<and> u_Archive (f u) = u_Archive u \<and> activeConns (f u) = activeConns u \<and> brk (f u) = brk u)"

lemma neutral_records [simp, intro]:
  "neutral (RecordScoreErrorForPath p)" "neutral (RecordSuccessForPath p d)" "neutral (RecordResponseStatus now s)"
  "neutral (ConsumeRateToken now)"
  by (simp_all add: neutral_def RecordScoreErrorForPath_def RecordSuccessForPath_def routeScorer_update_def
      RecordResponseStatus_def ConsumeRateToken_def Let_def)

lemma balanced_refl: "up_ok u \<Longrightarrow> balanced u u"
  by (simp add: balanced_def up_ok_def)

lemma balanced_trans: "balanced u v \<Longrightarrow> balanced v w \<Longrightarrow> balanced u w"
  by (simp add: balanced_def)

lemma balanced_ok: "balanced u v \<Longrightarrow> up_ok u \<Longrightarrow> up_ok v"
  by (simp add: balanced_def up_ok_def)

lemma balanced_neutral: "neutral f \<Longrightarrow> balanced u v \<Longrightarrow> balanced u (f v)"
  by (simp add: balanced_def neutral_def)

lemma closeBody_fields [simp]:
  "brk (snd (closeBody b u)) = brk u" "u_ID (snd (closeBody b u)) = u_ID u" "u_Archive (snd (closeBody b u)) = u_Archive u"
  by (simp_all add: closeBody_def DecrActive_def)

lemma settle_tok_fields [simp]:
  "u_ID (settle_tok t out k u) = u_ID u" "u_Archive (settle_tok t out k u) = u_Archive u" "brk (settle_tok t out k u) = settle t out k (brk u)"
  by (simp_all add: settle_tok_def)

lemma give_back_fields [simp]:
  "u_ID (give_back t out h u) = u_ID u" "u_Archive (give_back t out h u) = u_Archive u"
  "brk (give_back t out h u) = settle t out (snd h) (brk u)"
  by (simp_all add: give_back_def split: option.splits)

lemma give_back_active:
  "activeConns (give_back t out h u) =
     activeConns u - (case fst h of Some b \<Rightarrow> if closed_once b then 0 else 1 | None \<Rightarrow> 0)"
  by (simp add: give_back_def closeBody_def DecrActive_def settle_tok_def split: option.splits)

lemma owes_neutral: "neutral f \<Longrightarrow> owes h u v \<Longrightarrow> owes h u (f v)"
  by (simp add: owes_def balanced_def neutral_def give_back_active)

lemma owes_give_back: "owes h u v \<Longrightarrow> balanced u (give_back t out h v)"
  by (simp add: owes_def)

text \<open>Admission and settlement from a breaker in order: the probe flag ends where it was.\<close>

lemma settle_after_acquire:
  assumes "cb_inv b" "cb_cfg_ok (cbCfg b)" "CBTryAcquire i now b = ((tok, ok), b')"
  shows "cb_inv (settle t out tok b')" "cbCfg (settle t out tok b') = cbCfg b"
    "cbProbeInFlight (settle t out tok b') = cbProbeInFlight b"
proof -
  have b': "b' = snd (CBTryAcquire i now b)" using assms(3) by simp
  show "cbCfg (settle t out tok b') = cbCfg b" by (simp add: b')
  show "cb_inv (settle t out tok b')" unfolding b' using assms(1,2) by (intro cb_inv_settle cb_inv_acquire) simp_all
  show "cbProbeInFlight (settle t out tok b') = cbProbeInFlight b"
    using assms by (cases "cbState b") (auto simp: cb_unfold cb_inv_def zeroToken_def split: cbOutcome.splits if_splits)
qed

text \<open>What \<open>Do\<close> and \<open>forward\<close> leave outstanding.\<close>

lemma Do_owes:
  assumes "up_ok u" "Do now x u = ((b, tok, err), u')"
  shows "owes (b, tok) u u'"
proof -
  obtain k ok b' where acq: "CBTryAcquire (u_ID u) now (brk u) = ((k, ok), b')" by (metis prod.exhaust)
  have tok: "tok = (if ok then k else zeroToken)" and b': "brk u' = b'"
    using assms(2) acq by (auto simp: Do_def Let_def TrackResponse_def IncrActive_def DecrActive_def ConsumeRateToken_def
        split: sum.splits prod.splits if_splits)
  have fields: "u_ID u' = u_ID u" "u_Archive u' = u_Archive u"
    using assms(2) acq by (auto simp: Do_def Let_def TrackResponse_def IncrActive_def DecrActive_def ConsumeRateToken_def
        split: sum.splits prod.splits if_splits)
  have act: "activeConns u' = activeConns u + (case b of None \<Rightarrow> 0 | Some _ \<Rightarrow> 1)"
    using Do_active [of now x u] assms(2) by (simp split: option.splits)
  have opened: "\<not> closed_once c" if "b = Some c" for c using Do_body_open [of now x u c] assms(2) that by simp
  have "tok = k" using tok acq refused_zero [of "u_ID u" now "brk u" k b'] by (cases ok) auto
  then show ?thesis unfolding owes_def balanced_def using settle_after_acquire [OF _ _ acq] assms(1) act opened fields b'
    by (auto simp: up_ok_def give_back_active split: option.splits)
qed

lemma forward_owes:
  assumes "up_ok u" "forward gunzip a u = ((r, tok), u')"
  shows "owes (case r of Inl _ \<Rightarrow> None | Inr (_, b) \<Rightarrow> Some b, tok) u u'"
proof (cases "at_exchange a")
  case (BuildError m)
  then show ?thesis using assms by (auto simp: forward_def owes_def balanced_def up_ok_def give_back_active)
next
  case (NetError m)
  obtain b k e u1 where d: "Do (at_start a) (Inl m) u = ((b, k, e), u1)" by (metis prod.exhaust)
  then have "b = None" by (auto simp: Do_def Let_def split: prod.splits if_splits)
  then show ?thesis using assms NetError d Do_owes [OF assms(1) d] by (auto simp: forward_def)
next
  case (Answer resp)
  obtain b k e u1 where d: "Do (at_start a) (Inr True) u = ((b, k, e), u1)" by (metis prod.exhaust)
  note o = Do_owes [OF assms(1) d]
  show ?thesis
  proof (cases b)
    case None
    then show ?thesis using assms Answer d o by (auto simp: forward_def)
  next
    case (Some c)
    have "owes (None, k) u (snd (closeBody c u1))" using o Some by (simp add: owes_def give_back_def)
    then show ?thesis using assms Answer d o Some by (auto simp: forward_def split: option.splits)
  qed
qed



section \<open>Accounts of a pool\<close>

text \<open>A dispatcher holds a pointer to the upstream it sends to, so the upstream is always found.\<close>

definition dispatch :: "(http_Body \<Rightarrow> http_Body option) \<Rightarrow> attempt \<Rightarrow> string \<Rightarrow> Pool \<Rightarrow> forwarded \<times> Pool" where
  "dispatch gunzip a i p =
     (case ByID p i of
        None \<Rightarrow> ((Inl (BuildFailed []), zeroToken), p)
      | Some u \<Rightarrow> (case forward gunzip a u of (r, u') \<Rightarrow> (r, upd_up i (\<lambda>_. u') p)))"

text \<open>Close a body, settle a token, note a status at upstream \<open>i\<close>.\<close>

definition close_at :: "string \<Rightarrow> trackedBody \<Rightarrow> Pool \<Rightarrow> Pool" where
  "close_at i b = upd_up i (\<lambda>u. snd (closeBody b u))"

definition settle_at :: "string \<Rightarrow> time \<Rightarrow> cbOutcome \<Rightarrow> CBToken \<Rightarrow> Pool \<Rightarrow> Pool" where
  "settle_at i t out tok = upd_up i (settle_tok t out tok)"

definition drop_at :: "string \<Rightarrow> time \<Rightarrow> cbOutcome \<Rightarrow> trackedBody \<Rightarrow> CBToken \<Rightarrow> Pool \<Rightarrow> Pool" where
  "drop_at i t out b tok p = settle_at i t out tok (close_at i b p)"

definition pool_ok :: "Pool \<Rightarrow> bool" where
  "pool_ok p \<longleftrightarrow> ids_ok p \<and> list_all up_ok (upstreams p)"

definition standing :: "(string \<rightharpoonup> hold) \<Rightarrow> string \<Rightarrow> Upstream \<Rightarrow> Upstream \<Rightarrow> bool" where
  "standing H i u u' \<longleftrightarrow> (case H i of None \<Rightarrow> balanced u u' | Some h \<Rightarrow> owes h u u')"

definition acct :: "Pool \<Rightarrow> Pool \<Rightarrow> (string \<rightharpoonup> hold) \<Rightarrow> bool" where
  "acct p0 p H \<longleftrightarrow> pool_ok p0 \<and> map u_ID (upstreams p) = map u_ID (upstreams p0) \<and> hasArchive p = hasArchive p0 \<and>
     (\<forall>i u. ByID p0 i = Some u \<longrightarrow> (\<exists>u'. ByID p i = Some u' \<and> standing H i u u'))"

lemma ByID_upd_at:
  assumes "\<And>u. u_ID u = i \<Longrightarrow> u_ID (f u) = i"
  shows "ByID (upd_up i f p) j = (if i = j then map_option f (ByID p j) else ByID p j)"
proof -
  have "find (\<lambda>u. u_ID u = j) (map (\<lambda>u. if u_ID u = i then f u else u) us) =
    (if i = j then map_option f (find (\<lambda>u. u_ID u = j) us) else find (\<lambda>u. u_ID u = j) us)" for us
    by (induction us) (auto simp: assms)
  then show ?thesis by (simp add: ByID_def upd_up_def)
qed

lemma ids_upd_at: "(\<And>u. u_ID u = i \<Longrightarrow> u_ID (f u) = i) \<Longrightarrow> map u_ID (upstreams (upd_up i f p)) = map u_ID (upstreams p)"
  by (simp add: upd_up_def)

lemma ByID_ids: "ByID p i = None \<longleftrightarrow> i \<notin> set (map u_ID (upstreams p))"
  by (auto simp: ByID_def find_None_iff)

lemma pool_ok_up: "pool_ok p \<Longrightarrow> ByID p i = Some u \<Longrightarrow> up_ok u"
  using ByID_mem by (fastforce simp: pool_ok_def list_all_iff)

lemma acct_refl: "pool_ok p \<Longrightarrow> acct p p Map.empty"
  by (auto simp: acct_def standing_def balanced_refl pool_ok_up)

lemma acct_find:
  assumes "acct p0 p H" "ByID p i = Some u"
  obtains u0 where "ByID p0 i = Some u0" "up_ok u0" "standing H i u0 u"
proof -
  have "ByID p0 i \<noteq> None" using assms by (metis ByID_ids acct_def option.distinct(1))
  then obtain u0 where "ByID p0 i = Some u0" by auto
  moreover from this obtain u' where "ByID p i = Some u'" "standing H i u0 u'" using assms(1) unfolding acct_def by blast
  moreover have "up_ok u0" using assms(1) calculation(1) pool_ok_up unfolding acct_def by blast
  ultimately show thesis using that assms(2) by simp
qed

lemma acct_upd:
  assumes "acct p0 p H" "\<And>u. u_ID u = i \<Longrightarrow> u_ID (f u) = i"
    and "\<And>u0 u. ByID p i = Some u \<Longrightarrow> up_ok u0 \<Longrightarrow> standing H i u0 u \<Longrightarrow> standing H' i u0 (f u)"
    and "\<And>j. j \<noteq> i \<Longrightarrow> H' j = H j"
  shows "acct p0 (upd_up i f p) H'"
proof -
  have "\<exists>u'. ByID (upd_up i f p) j = Some u' \<and> standing H' j u u'" if j: "ByID p0 j = Some u" for j u
  proof -
    obtain u' where u': "ByID p j = Some u'" "standing H j u u'" using assms(1) j by (auto simp: acct_def)
    have "up_ok u" using assms(1) j pool_ok_up by (auto simp: acct_def)
    then show ?thesis using u' assms(2,3,4) by (cases "j = i") (auto simp: ByID_upd_at standing_def)
  qed
  then show ?thesis using assms(1,2) by (simp add: acct_def ids_upd_at)
qed

lemma owes_after_balanced: "balanced u0 u \<Longrightarrow> owes h u u' \<Longrightarrow> owes h u0 u'"
  unfolding owes_def using balanced_trans by blast

text \<open>The four moves of a dispatcher: send, give back, forget an empty token, take note.\<close>

definition held_by :: "forwarded \<Rightarrow> hold" where
  "held_by r = (case fst r of Inl _ \<Rightarrow> None | Inr (_, b) \<Rightarrow> Some b, snd r)"

lemma forward_ID: "forward gunzip a u = (r, u') \<Longrightarrow> u_ID u' = u_ID u"
  by (auto simp: forward_def Do_def Let_def TrackResponse_def IncrActive_def DecrActive_def ConsumeRateToken_def closeBody_def
      split: exchange.splits prod.splits sum.splits option.splits if_splits)

lemma acct_dispatch:
  assumes "acct p0 p H" "H i = None" "dispatch gunzip a i p = (r, p')"
  shows "acct p0 p' (H(i \<mapsto> held_by r))"
proof (cases "ByID p i")
  case None
  then have "ByID p0 i = None" using assms(1) by (metis ByID_ids acct_def)
  then have "standing (H(i \<mapsto> h)) j = standing H j" if "ByID p0 j = Some u" for h j u using that by (auto simp: standing_def fun_eq_iff)
  then show ?thesis using assms None by (auto simp: dispatch_def acct_def)
next
  case (Some u)
  obtain r' u' where f: "forward gunzip a u = (r', u')" by (metis surj_pair)
  then have p': "p' = upd_up i (\<lambda>_. u') p" "r' = r" using assms(3) Some by (auto simp: dispatch_def)
  have "u_ID u' = i" using forward_ID [OF f] ByID_ID [OF Some] by simp
  moreover have "standing (H(i \<mapsto> held_by r)) i u0 u'" if "up_ok u0" "standing H i u0 u" for u0
  proof -
    have bal: "balanced u0 u" using that assms(2) by (simp add: standing_def)
    have "owes (held_by r) u u'" using forward_owes [of u gunzip a "fst r" "snd r" u'] f p'(2) balanced_ok [OF bal that(1)]
      by (simp add: held_by_def split: sum.splits)
    then show ?thesis using owes_after_balanced [OF bal] by (simp add: standing_def)
  qed
  ultimately show ?thesis unfolding p'(1) using assms(1) Some by (intro acct_upd) auto
qed

lemma acct_give_back:
  assumes "acct p0 p H" "H i = Some h"
  shows "acct p0 (upd_up i (give_back t out h) p) (H(i := None))"
  using assms by (intro acct_upd) (auto simp: standing_def owes_give_back)

lemma give_back_simps:
  "give_back t out (None, tok) = settle_tok t out tok" "give_back t out (Some b, tok) = (\<lambda>u. settle_tok t out tok (snd (closeBody b u)))"
  "give_back t out (None, zeroToken) = (\<lambda>u. u)"
  by (simp_all add: give_back_def settle_tok_def fun_eq_iff)

lemma acct_settle: "acct p0 p H \<Longrightarrow> H i = Some (None, tok) \<Longrightarrow> acct p0 (settle_at i t out tok p) (H(i := None))"
  using acct_give_back [of p0 p H i "(None, tok)" t out] by (simp add: settle_at_def give_back_simps)

lemma upd_up_upd_up: "(\<And>u. u_ID u = i \<Longrightarrow> u_ID (g u) = i) \<Longrightarrow> upd_up i f (upd_up i g p) = upd_up i (f \<circ> g) p"
  by (simp add: upd_up_def)

lemma acct_drop: "acct p0 p H \<Longrightarrow> H i = Some (Some b, tok) \<Longrightarrow> acct p0 (drop_at i t out b tok p) (H(i := None))"
  using acct_give_back [of p0 p H i "(Some b, tok)" t out]
  by (simp add: drop_at_def settle_at_def close_at_def give_back_simps upd_up_upd_up comp_def)

lemma acct_forget:
  assumes "acct p0 p H" "H i = Some (None, zeroToken)"
  shows "acct p0 p (H(i := None))"
proof -
  have "upd_up i (\<lambda>u. u) p = p" by (simp add: upd_up_def)
  then show ?thesis using acct_give_back [OF assms] unfolding give_back_simps(3) by simp
qed

lemma acct_neutral: "acct p0 p H \<Longrightarrow> neutral f \<Longrightarrow> acct p0 (upd_up i f p) H"
  by (rule acct_upd) (auto simp: neutral_def standing_def balanced_neutral owes_neutral split: option.splits)

lemma acct_counter: "acct p0 p H \<Longrightarrow> acct p0 (p\<lparr>rrCounter := c\<rparr>) H"
  by (simp add: acct_def ByID_def)

end
