(* ===== verification/Consensus.thy ===== *)
theory Consensus
  imports Dispatch
begin

text \<open>
  The consensus policy of \<open>src/network/consensus.go\<close>: a request goes to several upstreams, and the largest group of
  equal answers wins if it is large enough.  The participants run concurrently, each on its own upstream, so the
  order in which their steps are taken does not matter and they are taken in participant order.  The digest is the
  parameter \<open>sha\<close>; where a statement needs that it tells the bodies at hand apart, that is a hypothesis.
\<close>

record ConsensusPolicy =
  MaxParticipants :: int
  AgreementThreshold :: int
  MaxBodyBytes :: int

definition NewConsensusPolicy :: "ConsensusConfig option \<Rightarrow> ConsensusPolicy option" where
  "NewConsensusPolicy cfg =
     (case cfg of
        None \<Rightarrow> None
      | Some c \<Rightarrow>
          if \<not> cs_Enabled c then None
          else Some \<lparr>MaxParticipants = (if cs_MaxParticipants c \<le> 0 then 3 else cs_MaxParticipants c),
                     AgreementThreshold = (if cs_AgreementThreshold c \<le> 0 then 2 else cs_AgreementThreshold c),
                     MaxBodyBytes = 0\<rparr>)"

datatype part_error = PForward fwd_error | PRead read_error

record consensusResult =
  cr_upstream :: string
  cr_answer :: "part_error + (int \<times> http_Header \<times> string)"

text \<open>One participant; the deferred release runs after the settlement of the branch taken.\<close>

definition consult :: "attempt \<Rightarrow> int \<Rightarrow> Upstream \<Rightarrow> (part_error + (int \<times> http_Header \<times> string)) \<times> Upstream" where
  "consult a limit u =
     (case at_exchange a of
        BuildError m \<Rightarrow> (Inl (PForward (BuildFailed m)), u)
      | NetError m \<Rightarrow>
          (case Do (at_start a) (Inl m) u of
             ((_, tok, err), u1) \<Rightarrow>
               let u2 = (if at_cancel a then u1 else settle_tok (at_settle a) cbSettleFailure tok u1) in
               (Inl (PForward (if err = Some ErrCircuitUnavailable then CircuitUnavailable else Transport m)),
                settle_tok (at_settle a) cbSettleRelease tok u2))
      | Answer resp \<Rightarrow>
          (case Do (at_start a) (Inr True) u of
             ((None, tok, _), u1) \<Rightarrow>
               (Inl (PForward CircuitUnavailable),
                settle_tok (at_settle a) cbSettleRelease tok (if at_cancel a then u1 else settle_tok (at_settle a) cbSettleFailure tok u1))
           | ((Some b, tok, _), u1) \<Rightarrow>
               let u2 = RecordResponseStatus (at_settle a) (StatusCode resp) (snd (closeBody b u1)) in
               (case readBodyCapped (rs_Body resp) limit of
                  Inl e \<Rightarrow> (Inl (PRead e), settle_tok (at_settle a) cbSettleRelease tok (settle_tok (at_settle a) cbSettleFailure tok u2))
                | Inr body \<Rightarrow>
                    (Inr (StatusCode resp, rs_Header resp, body),
                     settle_tok (at_settle a) cbSettleRelease tok (settleTokenForStatus (at_settle a) tok (StatusCode resp) u2)))))"

definition consult_at :: "attempt \<Rightarrow> int \<Rightarrow> string \<Rightarrow> Pool \<Rightarrow> consensusResult \<times> Pool" where
  "consult_at a limit i p =
     (case ByID p i of
        None \<Rightarrow> (\<lparr>cr_upstream = i, cr_answer = Inl (PForward (BuildFailed []))\<rparr>, p)
      | Some u \<Rightarrow> (case consult a limit u of (r, u') \<Rightarrow> (\<lparr>cr_upstream = i, cr_answer = r\<rparr>, upd_up i (\<lambda>_. u') p)))"

fun consult_all :: "(nat \<Rightarrow> attempt) \<Rightarrow> int \<Rightarrow> nat \<Rightarrow> string list \<Rightarrow> Pool \<Rightarrow> consensusResult list \<times> Pool" where
  "consult_all env limit k [] p = ([], p)"
| "consult_all env limit k (i # is) p =
     (case consult_at (env k) limit i p of
        (r, p1) \<Rightarrow> (case consult_all env limit (Suc k) is p1 of (rs, p2) \<Rightarrow> (r # rs, p2)))"

text \<open>The key an answer is counted under.\<close>

definition body_key :: "(string \<Rightarrow> string) \<Rightarrow> consensusResult \<Rightarrow> (int \<times> string) option" where
  "body_key sha r = (case cr_answer r of Inl _ \<Rightarrow> None | Inr (status, _, body) \<Rightarrow> Some (status, sha body))"

definition agreeing :: "(string \<Rightarrow> string) \<Rightarrow> consensusResult list \<Rightarrow> consensusResult \<Rightarrow> nat" where
  "agreeing sha rs r = (if body_key sha r = None then 0 else length (filter (\<lambda>x. body_key sha x = body_key sha r) rs))"

text \<open>The walk over the results in participant order: the best result so far and the size of its group.\<close>

fun pick_best :: "(consensusResult \<Rightarrow> nat) \<Rightarrow> consensusResult list \<Rightarrow> consensusResult option \<times> nat \<Rightarrow> consensusResult option \<times> nat" where
  "pick_best cnt [] best = best"
| "pick_best cnt (r # rs) best = pick_best cnt rs (if cnt r > snd best then (Some r, cnt r) else best)"

datatype consensus_error = NoParticipants | ConsensusGated nat nat int | ConsensusNotReached nat int

definition gated :: "consensusResult list \<Rightarrow> nat" where
  "gated rs = length (filter (\<lambda>r. cr_answer r = Inl (PForward CircuitUnavailable)) rs)"

definition decide :: "(string \<Rightarrow> string) \<Rightarrow> ConsensusPolicy \<Rightarrow> consensusResult list \<Rightarrow> consensus_error + http_Response \<times> string" where
  "decide sha cp rs =
     (let n = length rs; (best, bestCount) = pick_best (agreeing sha rs) rs (None, 0) in
      case (if int bestCount \<ge> AgreementThreshold cp then best else None) of
        Some r \<Rightarrow>
          (case cr_answer r of
             Inr (status, headers, body) \<Rightarrow>
               Inr (\<lparr>StatusCode = status, rs_Header = headers, rs_Body = \<lparr>b_data = body, b_broken = False\<rparr>\<rparr>, cr_upstream r)
           | Inl _ \<Rightarrow> Inl (ConsensusNotReached n (AgreementThreshold cp)))
      | None \<Rightarrow>
          if gated rs > 0 \<and> int n - int (gated rs) < AgreementThreshold cp
          then Inl (ConsensusGated (gated rs) n (AgreementThreshold cp))
          else Inl (ConsensusNotReached n (AgreementThreshold cp)))"

definition consensus_Execute ::
  "(string \<Rightarrow> string) \<Rightarrow> (nat \<Rightarrow> attempt) \<Rightarrow> ConsensusPolicy \<Rightarrow> string list \<Rightarrow> Pool \<Rightarrow> (consensus_error + http_Response \<times> string) \<times> Pool" where
  "consensus_Execute sha env cp ups p =
     (let participants = take (nat (MaxParticipants cp)) ups in
      if participants = [] then (Inl NoParticipants, p)
      else case consult_all env (MaxBodyBytes cp) 0 participants p of (rs, p1) \<Rightarrow> (decide sha cp rs, p1))"


section \<open>Accounts\<close>

lemma consult_balanced:
  assumes "up_ok u" "consult a limit u = (r, u')"
  shows "balanced u u'"
proof (cases "at_exchange a")
  case (BuildError m)
  then show ?thesis using assms by (auto simp: consult_def balanced_refl)
next
  case (NetError m)
  obtain b k e u1 where d: "Do (at_start a) (Inl m) u = ((b, k, e), u1)" by (metis prod.exhaust)
  then have "b = None" by (auto simp: Do_def Let_def split: prod.splits if_splits)
  then have "balanced u (settle_tok t out k u1)" for t out using Do_owes [OF assms(1) d] by (simp add: owes_def give_back_simps)
  moreover have "settle_tok t cbSettleRelease k (settle_tok t' out k u1) = settle_tok t' out k u1" for t t' out
    by (simp add: settle_tok_def breaker_admission.settled_release)
  ultimately show ?thesis using assms(2) NetError d by (auto simp: consult_def Let_def)
next
  case (Answer resp)
  obtain b k e u1 where d: "Do (at_start a) (Inr True) u = ((b, k, e), u1)" by (metis prod.exhaust)
  note o = Do_owes [OF assms(1) d]
  have rel: "settle_tok t cbSettleRelease k (settle_tok t' out k v) = settle_tok t' out k v" for t t' out v
    by (simp add: settle_tok_def breaker_admission.settled_release)
  show ?thesis
  proof (cases b)
    case None
    then have "balanced u (settle_tok t out k u1)" for t out using o by (simp add: owes_def give_back_simps)
    then show ?thesis using assms(2) Answer d None by (auto simp: consult_def rel)
  next
    case (Some c)
    have "owes (None, k) u (snd (closeBody c u1))" using o Some by (simp add: owes_def give_back_simps)
    then have "owes (None, k) u (RecordResponseStatus t s (snd (closeBody c u1)))" for t s by (rule owes_neutral [OF neutral_records(3)])
    then have "balanced u (settle_tok t out k (RecordResponseStatus t' s (snd (closeBody c u1))))" for t t' s out
      by (simp add: owes_def give_back_simps)
    then show ?thesis using assms(2) Answer d Some
      by (auto simp: consult_def Let_def rel settleTokenForStatus_def split: sum.splits)
  qed
qed

lemma consult_all_acct:
  "acct p0 p Map.empty \<Longrightarrow> consult_all env limit k is p = (rs, p') \<Longrightarrow> acct p0 p' Map.empty"
proof (induction env limit k "is" p arbitrary: rs p' rule: consult_all.induct)
  case (2 env limit k i "is" p)
  obtain r p1 where c: "consult_at (env k) limit i p = (r, p1)" by (metis surj_pair)
  obtain rs' where c': "consult_all env limit (Suc k) is p1 = (rs', p')" using 2(3) c by (auto split: prod.splits)
  have "acct p0 p1 Map.empty"
  proof (cases "ByID p i")
    case (Some u)
    obtain a u' where cu: "consult (env k) limit u = (a, u')" by (metis surj_pair)
    then have p1: "p1 = upd_up i (\<lambda>_. u') p" using c Some by (simp add: consult_at_def)
    have "up_ok u" using acct_find [OF 2(2) Some] by (metis balanced_ok option.simps(4) standing_def)
    then have bal: "balanced u u'" using consult_balanced cu by blast
    then have "u_ID u' = i" using ByID_ID [OF Some] by (simp add: balanced_def)
    then show ?thesis unfolding p1 using 2(2) Some bal balanced_trans by (intro acct_upd) (auto simp: standing_def)
  qed (use c 2(2) in \<open>simp add: consult_at_def\<close>)
  then show ?case using 2(1) [OF c [symmetric]] c' by blast
qed simp

lemma consensus_acct:
  "acct p0 p Map.empty \<Longrightarrow> consensus_Execute sha env cp ups p = (r, p') \<Longrightarrow> acct p0 p' Map.empty"
  by (auto simp: consensus_Execute_def Let_def dest: consult_all_acct split: if_splits prod.splits)


section \<open>The decision\<close>

lemma consult_all_upstreams: "map cr_upstream (fst (consult_all env limit k is p)) = is"
proof (induction env limit k "is" p rule: consult_all.induct)
  case (2 env limit k i "is" p)
  then show ?case by (auto simp: consult_at_def split: prod.splits option.splits)
qed simp

text \<open>The participants that answered with the status and the body of \<open>r\<close>.\<close>

definition same_answer :: "consensusResult \<Rightarrow> consensusResult \<Rightarrow> bool" where
  "same_answer r x =
     (case (cr_answer r, cr_answer x) of
        (Inr (s, _, b), Inr (s', _, b')) \<Rightarrow> s = s' \<and> b = b'
      | _ \<Rightarrow> False)"

definition group_size :: "consensusResult list \<Rightarrow> consensusResult \<Rightarrow> nat" where
  "group_size rs r = length (filter (same_answer r) rs)"

definition answer_bodies :: "consensusResult list \<Rightarrow> string set" where
  "answer_bodies rs = {b. \<exists>r \<in> set rs. \<exists>s h. cr_answer r = Inr (s, h, b)}"

lemma agreeing_group:
  assumes "inj_on sha (answer_bodies rs)" "r \<in> set rs"
  shows "agreeing sha rs r = group_size rs r"
proof (cases "cr_answer r")
  case (Inl e)
  then show ?thesis by (simp add: agreeing_def group_size_def body_key_def same_answer_def)
next
  case (Inr a)
  obtain s h b where a: "a = (s, h, b)" by (metis prod.exhaust)
  have b: "b \<in> answer_bodies rs" using assms(2) Inr a by (auto simp: answer_bodies_def)
  have "(body_key sha x = body_key sha r) = same_answer r x" if "x \<in> set rs" for x
  proof (cases "cr_answer x")
    case (Inr a')
    obtain s' h' b' where a': "a' = (s', h', b')" by (metis prod.exhaust)
    have "b' \<in> answer_bodies rs" using that Inr a' by (auto simp: answer_bodies_def)
    then have "sha b' = sha b \<longleftrightarrow> b' = b" using assms(1) b by (auto dest: inj_onD)
    then show ?thesis using \<open>cr_answer r = Inr a\<close> Inr a a' by (auto simp: body_key_def same_answer_def)
  qed (use Inr a in \<open>simp add: body_key_def same_answer_def\<close>)
  then have "filter (\<lambda>x. body_key sha x = body_key sha r) rs = filter (same_answer r) rs" by (intro filter_cong) auto
  then show ?thesis using Inr a by (simp add: agreeing_def group_size_def body_key_def)
qed

lemma pick_best_max: "snd best \<le> snd (pick_best cnt rs best) \<and> (\<forall>x \<in> set rs. cnt x \<le> snd (pick_best cnt rs best))"
proof (induction rs arbitrary: best)
  case (Cons r rs)
  show ?case using Cons [of best] Cons [of "(Some r, cnt r)"] by auto
qed simp

lemma pick_best_unbeaten: "\<forall>x \<in> set rs. cnt x \<le> snd best \<Longrightarrow> pick_best cnt rs best = best"
  by (induction rs) (simp_all add: not_less)

lemma pick_best_first:
  assumes "snd best < n" "snd (pick_best cnt rs best) = n"
  shows "\<exists>xs r ys. rs = xs @ r # ys \<and> pick_best cnt rs best = (Some r, n) \<and> cnt r = n \<and> (\<forall>x \<in> set xs. cnt x < n)"
  using assms
proof (induction rs arbitrary: best)
  case (Cons r rs)
  show ?case
  proof (cases "cnt r = n")
    case True
    then have "pick_best cnt rs (Some r, cnt r) = (Some r, n)"
      using Cons(2,3) pick_best_max [where best = "(Some r, cnt r)" and rs = rs and cnt = cnt] by (subst pick_best_unbeaten) auto
    then show ?thesis using True Cons(2) by (intro exI [of _ "[]"]) simp
  next
    case False
    let ?b = "if cnt r > snd best then (Some r, cnt r) else best"
    have "snd (pick_best cnt rs ?b) = n" using Cons(3) by simp
    moreover from this have "cnt r < n" "snd ?b < n" using False Cons(2) pick_best_max [where best = ?b and rs = rs and cnt = cnt]
      by (auto split: if_splits)
    moreover obtain xs q ys where "rs = xs @ q # ys \<and> pick_best cnt rs ?b = (Some q, n) \<and> cnt q = n \<and> (\<forall>x \<in> set xs. cnt x < n)"
      using Cons(1) [of ?b] calculation by blast
    ultimately have "r # rs = (r # xs) @ q # ys \<and> pick_best cnt (r # rs) best = (Some q, n) \<and> cnt q = n \<and> (\<forall>x \<in> set (r # xs). cnt x < n)"
      by (cases "snd best < cnt r") auto
    then show ?thesis by blast
  qed
qed simp

text \<open>What makes an answer the verdict of the participants \<open>rs\<close> under threshold \<open>th\<close>.\<close>

definition verdict :: "consensusResult list \<Rightarrow> int \<Rightarrow> http_Response \<times> string \<Rightarrow> bool" where
  "verdict rs th a \<longleftrightarrow>
     (\<exists>xs r ys. rs = xs @ r # ys \<and> cr_upstream r = snd a \<and>
        cr_answer r = Inr (StatusCode (fst a), rs_Header (fst a), b_data (rs_Body (fst a))) \<and>
        th \<le> int (group_size rs r) \<and>
        (\<forall>x \<in> set rs. group_size rs x \<le> group_size rs r) \<and> (\<forall>x \<in> set xs. group_size rs x < group_size rs r))"

lemma group_answered: "0 < group_size rs r \<Longrightarrow> \<exists>s h b. cr_answer r = Inr (s, h, b)"
  by (cases "cr_answer r") (auto simp: group_size_def same_answer_def)

lemma decide_sound:
  assumes "inj_on sha (answer_bodies rs)" "0 < AgreementThreshold cp"
  shows "case decide sha cp rs of
      Inr a \<Rightarrow> verdict rs (AgreementThreshold cp) a
    | Inl _ \<Rightarrow> \<forall>r \<in> set rs. int (group_size rs r) < AgreementThreshold cp"
proof -
  obtain b n where pb: "pick_best (agreeing sha rs) rs (None, 0) = (b, n)" by (metis surj_pair)
  have le: "group_size rs x \<le> n" if "x \<in> set rs" for x
    using pick_best_max [of "(None, 0)" "agreeing sha rs" rs] pb that agreeing_group [OF assms(1) that] by auto
  show ?thesis
  proof (cases "int n \<ge> AgreementThreshold cp")
    case True
    then have "n \<noteq> 0" using assms(2) by auto
    then obtain xs r ys where r: "rs = xs @ r # ys" "b = Some r" "agreeing sha rs r = n" "\<forall>x \<in> set xs. agreeing sha rs x < n"
      using pick_best_first [of "(None, 0)" n "agreeing sha rs" rs] pb by auto
    then have g: "group_size rs r = n" "\<forall>x \<in> set xs. group_size rs x < n" using agreeing_group [OF assms(1)] by auto
    then obtain s h d where a: "cr_answer r = Inr (s, h, d)" using group_answered [of rs r] \<open>n \<noteq> 0\<close> by auto
    have "verdict rs (AgreementThreshold cp) (\<lparr>StatusCode = s, rs_Header = h, rs_Body = \<lparr>b_data = d, b_broken = False\<rparr>\<rparr>, cr_upstream r)"
      unfolding verdict_def using r(1) g True a le by (intro exI [of _ xs] exI [of _ r] exI [of _ ys]) simp
    then show ?thesis using True pb r(2) a by (simp add: decide_def)
  next
    case False
    then have "\<forall>r \<in> set rs. int (group_size rs r) < AgreementThreshold cp" using le by fastforce
    then show ?thesis using False pb by (simp add: decide_def Let_def)
  qed
qed

lemma policy_threshold: "NewConsensusPolicy cfg = Some cp \<Longrightarrow> 0 < AgreementThreshold cp \<and> 0 < MaxParticipants cp"
  by (auto simp: NewConsensusPolicy_def split: option.splits if_splits)

text \<open>C12. Consensus: the answer returned is one that at least the threshold of the consulted upstreams gave, status and
  body, no other answer was given by more of them, and among equally large groups it is the one of the earliest
  participant.  If an error is returned instead, no answer was given by that many.  The consulted upstreams are the
  first ones of the selection.  That the digest separates the bodies at hand is assumed.
\<close>

theorem consensus_sound:
  assumes "NewConsensusPolicy cfg = Some cp" "ups \<noteq> []"
    and "consult_all env limit 0 (take (nat (MaxParticipants cp)) ups) p = (rs, p1)" "inj_on sha (answer_bodies rs)"
  shows "map cr_upstream rs = take (nat (MaxParticipants cp)) ups \<and>
    (case fst (consensus_Execute sha env (cp\<lparr>MaxBodyBytes := limit\<rparr>) ups p) of
       Inr a \<Rightarrow> verdict rs (AgreementThreshold cp) a
     | Inl _ \<Rightarrow> \<forall>r \<in> set rs. int (group_size rs r) < AgreementThreshold cp)"
proof
  show "map cr_upstream rs = take (nat (MaxParticipants cp)) ups" using consult_all_upstreams assms(3) by (metis fst_conv)
  have "take (nat (MaxParticipants cp)) ups \<noteq> []" using assms(2) policy_threshold [OF assms(1)] by simp
  then have "fst (consensus_Execute sha env (cp\<lparr>MaxBodyBytes := limit\<rparr>) ups p) = decide sha (cp\<lparr>MaxBodyBytes := limit\<rparr>) rs"
    using assms(3) by (simp add: consensus_Execute_def)
  then show "case fst (consensus_Execute sha env (cp\<lparr>MaxBodyBytes := limit\<rparr>) ups p) of
       Inr a \<Rightarrow> verdict rs (AgreementThreshold cp) a
     | Inl _ \<Rightarrow> \<forall>r \<in> set rs. int (group_size rs r) < AgreementThreshold cp"
    using decide_sound [OF assms(4), of "cp\<lparr>MaxBodyBytes := limit\<rparr>"] policy_threshold [OF assms(1)]
    by (auto split: sum.splits)
qed

definition answering :: "int \<Rightarrow> string \<Rightarrow> attempt" where
  "answering status body =
     \<lparr>at_start = second, at_exchange = Answer \<lparr>StatusCode = status, rs_Header = [], rs_Body = \<lparr>b_data = body, b_broken = False\<rparr>\<rparr>,
      at_cancel = False, at_settle = 2 * second\<rparr>"

definition samplePolicy :: ConsensusPolicy where
  "samplePolicy = \<lparr>MaxParticipants = 3, AgreementThreshold = 2, MaxBodyBytes = 0\<rparr>"

definition sampleThree :: Pool where
  "sampleThree = samplePool [zeroUpstreamConfig\<lparr>uc_ID := ''a''\<rparr>, zeroUpstreamConfig\<lparr>uc_ID := ''b''\<rparr>, zeroUpstreamConfig\<lparr>uc_ID := ''c''\<rparr>] (NewBlockCache 32 2)"

definition outvoted :: "nat \<Rightarrow> attempt" where
  "outvoted k = (if k = 0 then answering 200 ''x'' else answering 200 ''y'')"

lemma outvoted_result: "map_sum id snd (fst (consensus_Execute id outvoted samplePolicy [''a'', ''b'', ''c''] sampleThree)) = Inr ''b''"
  by code_simp

lemma consensus_sound_witness:
  "\<exists>a. fst (consensus_Execute id outvoted samplePolicy [''a'', ''b'', ''c''] sampleThree) = Inr a \<and> snd a = ''b'' \<and>
     verdict (fst (consult_all outvoted 0 0 [''a'', ''b'', ''c''] sampleThree)) 2 a"
proof -
  obtain rs p1 where "consult_all outvoted 0 0 [''a'', ''b'', ''c''] sampleThree = (rs, p1)" by (metis surj_pair)
  moreover obtain a where "fst (consensus_Execute id outvoted samplePolicy [''a'', ''b'', ''c''] sampleThree) = Inr a" "snd a = ''b''"
    using outvoted_result by (auto simp: map_sum_def split: sum.splits)
  moreover have "NewConsensusPolicy (Some \<lparr>cs_Enabled = True, cs_MaxParticipants = 0, cs_AgreementThreshold = 0\<rparr>) = Some samplePolicy"
    by (simp add: NewConsensusPolicy_def samplePolicy_def)
  ultimately show ?thesis using consensus_sound [of _ samplePolicy "[''a'', ''b'', ''c'']" outvoted 0 sampleThree rs p1 id]
    by (simp add: samplePolicy_def)
qed

end
