(* ===== verification/Sequential.thy ===== *)
theory Sequential
  imports Consensus
begin

text \<open>
  The sequential dispatchers of \<open>src/network/network.go\<close>: the retry loop over the selected upstreams with its promotion
  to archive upstreams, the loop over the candidates of a required selector, and the archive pass that follows a
  hedged request.

  What happens outside the program is the record \<open>env\<close>: the answers to the successive attempts, whether the request
  context ends while the loop waits before an attempt, and the clock at each selection.  The schedule of a hedged
  request is in it too; it is used by the next theory.
\<close>

datatype hedge_event = EvResult nat | EvTimer | EvDone

record env =
  e_tokens :: "limiter \<Rightarrow> time \<Rightarrow> real"
  e_gunzip :: "http_Body \<Rightarrow> http_Body option"
  e_sha :: "string \<Rightarrow> string"
  e_now :: "nat \<Rightarrow> time"
  e_try :: "nat \<Rightarrow> attempt"
  e_wait :: "nat \<Rightarrow> bool"
  e_cons :: "nat \<Rightarrow> attempt"
  e_hedge :: "nat \<Rightarrow> attempt"
  e_events :: "hedge_event list"
  e_arch :: "nat \<Rightarrow> attempt"

datatype cause = CauseForward fwd_error | CauseStatus int | CausePruned int | CauseContext

datatype exec_error =
    SelectedUnavailable string "cause option"
  | NoUpstreams
  | AllFailed nat "cause option"
  | Cancelled fwd_error
  | ContextDone
  | ConsensusFailed consensus_error
  | HedgedFailed "cause option"
  | HedgePruningUnreadable read_error

text \<open>
  The outcome of a dispatch.  A served response comes with what its consumer owns: the tracked body, unless the
  dispatcher has read it already, and the breaker token.  A slice expression with a negative bound panics.
\<close>

datatype outcome = Served http_Response "trackedBody option" string CBToken | Failed exec_error | Panicked

text \<open>\<open>isClientCancel\<close> on the error of an attempt.  A request that could not be built and one the breaker refused
  never ran, so their errors do not stem from the context.\<close>

definition isClientCancel :: "attempt \<Rightarrow> fwd_error \<Rightarrow> bool" where
  "isClientCancel a e =
     (at_cancel a \<and> (case e of Transport _ \<Rightarrow> True | InvalidGzip \<Rightarrow> True | BuildFailed _ \<Rightarrow> False | CircuitUnavailable \<Rightarrow> False))"

text \<open>Peek at a response and classify it.\<close>

definition peek_pruned :: "http_Response \<Rightarrow> HistoricalTarget \<Rightarrow> bool \<times> http_Response" where
  "peek_pruned resp target =
     (case peekBodyForPruning resp target of
        (peeked, resp') \<Rightarrow>
          (isPruningError (StatusCode resp) (case peeked of Inr (Some s) \<Rightarrow> s | _ \<Rightarrow> []) target, resp'))"


section \<open>Preferred upstream\<close>

definition trimUpstreamSlice :: "'a list \<Rightarrow> int \<Rightarrow> 'a list" where
  "trimUpstreamSlice ups maxLen = (if maxLen > 0 \<and> int (length ups) > maxLen then take (nat maxLen) ups else ups)"

fun index_of :: "string \<Rightarrow> string list \<Rightarrow> nat option" where
  "index_of x [] = None"
| "index_of x (y # ys) = (if y = x then Some 0 else map_option Suc (index_of x ys))"

definition ensurePreferredUpstreamFirst :: "time \<Rightarrow> Pool \<Rightarrow> string list \<Rightarrow> string \<Rightarrow> int \<Rightarrow> string list" where
  "ensurePreferredUpstreamFirst now p ups preferID maxLen =
     (if preferID = [] \<or> ups = [] then ups
      else case index_of preferID ups of
             Some i \<Rightarrow>
               if IsForked (blockCache p) preferID then ups
               else trimUpstreamSlice (if i \<noteq> 0 then (ups[0 := ups ! i])[i := ups ! 0] else ups) maxLen
           | None \<Rightarrow>
               (case ByID p preferID of
                  Some pu \<Rightarrow>
                    if IsReady now pu \<and> \<not> IsForked (blockCache p) (u_ID pu) then trimUpstreamSlice (preferID # ups) maxLen else ups
                | None \<Rightarrow> ups))"


section \<open>The retry loop\<close>

text \<open>What the loop reads of the request.\<close>

record seq_cfg =
  q_fs :: FailsafeConfig
  q_apiPath :: string
  q_target :: HistoricalTarget
  q_method :: string
  q_maxResponseBytes :: int

text \<open>
  One pass through the loop body from the call of \<open>forward\<close> on, for upstream \<open>j\<close> at position \<open>i\<close> of \<open>ups\<close> with \<open>rest\<close> after
  it: the dispatch is over, or it goes on with the given rest.  A promotion replaces the rest by archive upstreams.
\<close>

datatype seq_next = Stop outcome Pool | Continue "string list" bool cause Pool

definition seq_body :: "env \<Rightarrow> seq_cfg \<Rightarrow> nat \<Rightarrow> string \<Rightarrow> string list \<Rightarrow> bool \<Rightarrow> Pool \<Rightarrow> seq_next" where
  "seq_body e q i j rest archiveBiased p =
     (let a = e_try e i; t = at_settle a in
      case dispatch (e_gunzip e) a j p of
        ((Inr (resp, b), tok), p1) \<Rightarrow>
          if StatusCode resp < 500 then
            (case peek_pruned resp (q_target q) of
               (pruned, resp') \<Rightarrow>
                 if \<not> archiveBiased \<and> pruned \<and> hasArchive p1 then
                   (case SelectForPathArchive (e_tokens e) t p1 (q_apiPath q) (nat (max (MaxAttempts (q_fs q) - (int i + 1)) 1)) of
                      (archiveUps, p2) \<Rightarrow>
                        if archiveUps \<noteq> [] then
                          Continue (map u_ID archiveUps) True (CausePruned (StatusCode resp))
                            (upd_up j (RecordResponseStatus t (StatusCode resp)) (drop_at j t cbSettleRelease b tok p2))
                        else Stop (Served resp' (Some b) j tok) p2)
                 else Stop (Served resp' (Some b) j tok) p1)
          else
            Continue rest archiveBiased (CauseStatus (StatusCode resp))
              (upd_up j (recordUpstreamFailure t tok (q_apiPath q)) (close_at j b p1))
      | ((Inl err, tok), p1) \<Rightarrow>
          if isClientCancel a err then Stop (Failed (Cancelled err)) (settle_at j t cbSettleRelease tok p1)
          else if err = CircuitUnavailable then Continue rest archiveBiased (CauseForward err) p1
          else Continue rest archiveBiased (CauseForward err) (upd_up j (recordUpstreamFailure t tok (q_apiPath q)) p1))"

lemma seq_body_shrinks:
  "seq_body e q i j rest biased p = Continue rest' biased' err p' \<Longrightarrow> rest' = rest \<and> biased' = biased \<or> \<not> biased \<and> biased'"
  by (auto simp: seq_body_def Let_def split: prod.splits sum.splits if_splits)

text \<open>The loop; \<open>tried\<close> lists the upstreams contacted so far, the latest first, and is part of the result.\<close>

function seq_loop ::
  "env \<Rightarrow> seq_cfg \<Rightarrow> nat \<Rightarrow> string list \<Rightarrow> bool \<Rightarrow> string list \<Rightarrow> cause option \<Rightarrow> Pool \<Rightarrow> outcome \<times> string list \<times> Pool" where
  "seq_loop e q i [] archiveBiased tried lastErr p = (Failed (AllFailed i lastErr), tried, p)"
| "seq_loop e q i (j # rest) archiveBiased tried lastErr p =
     (if j \<in> set tried then seq_loop e q (Suc i) rest archiveBiased tried lastErr p
      else if i > 0 \<and> fs_Retry (q_fs q) \<noteq> None \<and> e_wait e i then (Failed ContextDone, tried, p)
      else case seq_body e q i j rest archiveBiased p of
             Stop out p' \<Rightarrow> (out, j # tried, p')
           | Continue rest' biased' err p' \<Rightarrow> seq_loop e q (Suc i) rest' biased' (j # tried) (Some err) p')"
  by pat_completeness auto
termination
  by (relation "(\<lambda>(e, q, i, rest, biased, tried, lastErr, p). if biased then 0 else 1) <*mlex*>
      measure (\<lambda>(e, q, i, rest, biased, tried, lastErr, p). length rest)")
    (auto simp: mlex_prod_def wf_mlex dest: seq_body_shrinks)


section \<open>Candidates of a required selector\<close>

type_synonym buffered = "http_Response \<times> trackedBody \<times> string \<times> CBToken"

definition dropBuffered :: "time \<Rightarrow> buffered option \<Rightarrow> Pool \<Rightarrow> Pool" where
  "dropBuffered t buf p = (case buf of None \<Rightarrow> p | Some (_, b, i, tok) \<Rightarrow> drop_at i t cbSettleRelease b tok p)"

datatype cand_next = StopC outcome Pool | ContinueC "buffered option" cause Pool

definition cand_body :: "env \<Rightarrow> seq_cfg \<Rightarrow> nat \<Rightarrow> string \<Rightarrow> bool \<Rightarrow> buffered option \<Rightarrow> Pool \<Rightarrow> cand_next" where
  "cand_body e q i j others buf p =
     (let a = e_try e i; t = at_settle a in
      case dispatch (e_gunzip e) a j p of
        ((Inr (resp, b), tok), p1) \<Rightarrow>
          if StatusCode resp < 500 then
            (case peek_pruned resp (q_target q) of
               (pruned, resp') \<Rightarrow>
                 if others \<and> pruned then
                   ContinueC (Some (resp', b, j, tok)) (CausePruned (StatusCode resp))
                     (dropBuffered t buf (upd_up j (RecordResponseStatus t (StatusCode resp)) p1))
                 else StopC (Served resp' (Some b) j tok) (dropBuffered t buf p1))
          else
            ContinueC (Some (resp, b, j, zeroToken)) (CauseStatus (StatusCode resp))
              (dropBuffered t buf
                (let p2 = settle_at j t cbSettleFailure tok p1
                 in if others then upd_up j (RecordScoreErrorForPath (q_apiPath q)) p2 else p2))
      | ((Inl err, tok), p1) \<Rightarrow>
          if isClientCancel a err then StopC (Failed (Cancelled err)) (dropBuffered t buf (settle_at j t cbSettleRelease tok p1))
          else if err = CircuitUnavailable then ContinueC buf (CauseForward err) p1
          else ContinueC buf (CauseForward err) (upd_up j (recordUpstreamFailure t tok (q_apiPath q)) p1))"

fun candidates_loop ::
  "env \<Rightarrow> seq_cfg \<Rightarrow> string \<Rightarrow> nat \<Rightarrow> string list \<Rightarrow> buffered option \<Rightarrow> cause option \<Rightarrow> Pool \<Rightarrow> outcome \<times> Pool" where
  "candidates_loop e q sel i [] buf lastErr p =
     (case buf of
        Some (resp, b, u, tok) \<Rightarrow> Served resp (Some b) u tok
      | None \<Rightarrow> Failed (SelectedUnavailable sel lastErr), p)"
| "candidates_loop e q sel i (j # rest) buf lastErr p =
     (if i > 0 \<and> fs_Retry (q_fs q) \<noteq> None \<and> e_wait e i
      then (Failed (SelectedUnavailable sel (Some CauseContext)), dropBuffered (at_start (e_try e i)) buf p)
      else case cand_body e q i j (rest \<noteq> []) buf p of
             StopC out p' \<Rightarrow> (out, p')
           | ContinueC buf' err p' \<Rightarrow> candidates_loop e q sel (Suc i) rest buf' (Some err) p')"

definition executeSelectedFS :: "env \<Rightarrow> seq_cfg \<Rightarrow> Selector \<Rightarrow> Pool \<Rightarrow> outcome \<times> Pool" where
  "executeSelectedFS e q required p =
     (if sel_ID required \<noteq> [] then
        (case ByID p (sel_ID required) of
           None \<Rightarrow> (Failed (SelectedUnavailable (String required) None), p)
         | Some _ \<Rightarrow>
             let j = sel_ID required; a = e_try e 0; t = at_settle a in
             (case dispatch (e_gunzip e) a j p of
                ((Inr (resp, b), tok), p1) \<Rightarrow> (Served resp (Some b) j tok, p1)
              | ((Inl err, tok), p1) \<Rightarrow>
                  (Failed (SelectedUnavailable (String required) (Some (CauseForward err))),
                   if isClientCancel a err then settle_at j t cbSettleRelease tok p1
                   else if err = CircuitUnavailable then p1
                   else upd_up j (recordUpstreamFailure t tok (q_apiPath q)) p1)))
      else if MaxAttempts (q_fs q) < 0 then (Panicked, p)
      else case SelectMatching (e_tokens e) (e_now e 0) p required (q_apiPath q) (nat (MaxAttempts (q_fs q))) of
             (ups, p1) \<Rightarrow>
               if ups = [] then (Failed (SelectedUnavailable (String required) None), p1)
               else candidates_loop e q (String required) 0 (map u_ID ups) None None p1)"


section \<open>The archive pass\<close>

definition archive_body :: "env \<Rightarrow> seq_cfg \<Rightarrow> nat \<Rightarrow> string \<Rightarrow> Pool \<Rightarrow> outcome option option \<times> Pool" where
  "archive_body e q i j p =
     (let a = e_arch e i; t = at_settle a in
      case dispatch (e_gunzip e) a j p of
        ((Inl err, tok), p1) \<Rightarrow>
          if isClientCancel a err then (Some None, settle_at j t cbSettleRelease tok p1)
          else if err = CircuitUnavailable then (None, p1)
          else (None, settle_at j t cbSettleFailure tok p1)
      | ((Inr (resp, b), tok), p1) \<Rightarrow>
          if StatusCode resp \<ge> 500 then (None, drop_at j t cbSettleFailure b tok p1)
          else (case peek_pruned resp (q_target q) of
                  (pruned, resp') \<Rightarrow>
                    if pruned then (None, drop_at j t cbSettleRelease b tok p1)
                    else (Some (Some (Served resp' (Some b) j tok)), p1)))"

fun archive_loop :: "env \<Rightarrow> seq_cfg \<Rightarrow> string list \<Rightarrow> nat \<Rightarrow> string list \<Rightarrow> Pool \<Rightarrow> outcome option \<times> Pool" where
  "archive_loop e q tried i [] p = (None, p)"
| "archive_loop e q tried i (j # rest) p =
     (if j \<in> set tried then archive_loop e q tried (Suc i) rest p
      else case archive_body e q i j p of
             (Some out, p') \<Rightarrow> (out, p')
           | (None, p') \<Rightarrow> archive_loop e q tried (Suc i) rest p')"

definition promoteToArchive :: "env \<Rightarrow> seq_cfg \<Rightarrow> string list \<Rightarrow> int \<Rightarrow> Pool \<Rightarrow> outcome option \<times> Pool" where
  "promoteToArchive e q tried maxAttempts p =
     (case SelectForPathArchive (e_tokens e) (e_now e 3) p (q_apiPath q) (nat (max maxAttempts 1)) of
        (archiveUps, p1) \<Rightarrow> archive_loop e q tried 0 (map u_ID archiveUps) p1)"


section \<open>Accounts\<close>

definition owed_by :: "outcome \<Rightarrow> (string \<rightharpoonup> hold)" where
  "owed_by out = (case out of Served _ b i tok \<Rightarrow> [i \<mapsto> (b, tok)] | Failed _ \<Rightarrow> Map.empty | Panicked \<Rightarrow> Map.empty)"

lemma owed_by_simps [simp]:
  "owed_by (Served r b i tok) = [i \<mapsto> (b, tok)]" "owed_by (Failed err) = Map.empty" "owed_by Panicked = Map.empty"
  by (simp_all add: owed_by_def)

lemma selection_counts:
  "snd (SelectForPath tokens now p path n) = p\<lparr>rrCounter := rrCounter p + 1\<rparr>"
  "snd (SelectForPathPreferCanonicalHead tokens now p path n) = p\<lparr>rrCounter := rrCounter p + 1\<rparr>"
  "snd (SelectMatching tokens now p sel path n) = p\<lparr>rrCounter := rrCounter p + 1\<rparr>"
  "\<exists>c. snd (SelectForPathArchive tokens now p path n) = p\<lparr>rrCounter := c\<rparr>"
proof -
  have *: "snd (selectFromCandidatesForPath tokens now p all n path b) = p\<lparr>rrCounter := rrCounter p + 1\<rparr>" for all b
    by (simp add: selectFromCandidatesForPath_def Let_def case_prod_beta orderForPath_pool)
  show "snd (SelectForPath tokens now p path n) = p\<lparr>rrCounter := rrCounter p + 1\<rparr>"
    "snd (SelectForPathPreferCanonicalHead tokens now p path n) = p\<lparr>rrCounter := rrCounter p + 1\<rparr>"
    "snd (SelectMatching tokens now p sel path n) = p\<lparr>rrCounter := rrCounter p + 1\<rparr>"
    by (simp_all add: * SelectForPath_def SelectForPathPreferCanonicalHead_def SelectMatching_def)
  have "p = p\<lparr>rrCounter := rrCounter p\<rparr>" by simp
  then show "\<exists>c. snd (SelectForPathArchive tokens now p path n) = p\<lparr>rrCounter := c\<rparr>"
    by (cases "filter IsArchive (upstreams p) = []") (auto simp: SelectForPathArchive_def * intro: exI [of _ "rrCounter p"])
qed

lemma acct_counted: "snd s = p\<lparr>rrCounter := c\<rparr> \<Longrightarrow> acct p0 p H \<Longrightarrow> s = (us, p') \<Longrightarrow> acct p0 p' H"
  using acct_counter by auto

lemma acct_selection:
  assumes "acct p0 p H"
  shows "SelectForPath tokens now p path n = (us, p') \<Longrightarrow> acct p0 p' H"
    "SelectForPathPreferCanonicalHead tokens now p path n = (us, p') \<Longrightarrow> acct p0 p' H"
    "SelectMatching tokens now p sel path n = (us, p') \<Longrightarrow> acct p0 p' H"
    "SelectForPathArchive tokens now p path n = (us, p') \<Longrightarrow> acct p0 p' H"
proof -
  obtain c where c: "snd (SelectForPathArchive tokens now p path n) = p\<lparr>rrCounter := c\<rparr>" using selection_counts(4) by blast
  show "SelectForPath tokens now p path n = (us, p') \<Longrightarrow> acct p0 p' H" by (rule acct_counted [OF selection_counts(1) assms])
  show "SelectForPathPreferCanonicalHead tokens now p path n = (us, p') \<Longrightarrow> acct p0 p' H" by (rule acct_counted [OF selection_counts(2) assms])
  show "SelectMatching tokens now p sel path n = (us, p') \<Longrightarrow> acct p0 p' H" by (rule acct_counted [OF selection_counts(3) assms])
  show "SelectForPathArchive tokens now p path n = (us, p') \<Longrightarrow> acct p0 p' H" by (rule acct_counted [OF c assms])
qed

lemma acct_close:
  assumes "acct p0 p H" "H i = Some (Some b, tok)"
  shows "acct p0 (close_at i b p) (H(i \<mapsto> (None, tok)))"
  unfolding close_at_def using assms by (intro acct_upd) (auto simp: standing_def owes_def give_back_simps)

lemma acct_settle_early:
  assumes "acct p0 p H" "H i = Some (Some b, tok)"
  shows "acct p0 (settle_at i t out tok p) (H(i \<mapsto> (Some b, zeroToken)))"
proof -
  have "give_back t' o' (Some b, zeroToken) (settle_tok t out tok u) = give_back t out (Some b, tok) u" for t' o' u
    by (simp add: give_back_simps settle_tok_def closeBody_def DecrActive_def)
  then show ?thesis unfolding settle_at_def using assms by (intro acct_upd) (auto simp: standing_def owes_def)
qed

lemma acct_failure:
  assumes "acct p0 p H" "H i = Some (None, tok)"
  shows "acct p0 (upd_up i (recordUpstreamFailure t tok path) p) (H(i := None))"
proof -
  have "upd_up i (recordUpstreamFailure t tok path) p = upd_up i (RecordScoreErrorForPath path) (settle_at i t cbSettleFailure tok p)"
    unfolding settle_at_def by (subst upd_up_upd_up) (simp_all add: recordUpstreamFailure_def [abs_def] comp_def)
  then show ?thesis using acct_neutral [OF acct_settle [OF assms]] by simp
qed

lemma acct_close_failure:
  assumes "acct p0 p H" "H i = Some (Some b, tok)"
  shows "acct p0 (upd_up i (recordUpstreamFailure t tok path) (close_at i b p)) (H(i := None))"
  using acct_failure [OF acct_close [OF assms], of i tok t path] by simp

lemma refused_token: "dispatch gunzip a i p = ((Inl CircuitUnavailable, tok), p') \<Longrightarrow> tok = zeroToken"
  by (auto simp: dispatch_def forward_def Do_def Let_def TrackResponse_def split: option.splits exchange.splits prod.splits if_splits sum.splits)

text \<open>A dispatch from clean accounts, by its result.\<close>

lemma acct_sent:
  assumes "acct p0 p H" "H j = None" "dispatch gunzip a j p = ((r, tok), p1)"
  shows "r = Inr (resp, b) \<Longrightarrow> acct p0 p1 (H(j \<mapsto> (Some b, tok)))"
    "r = Inl err \<Longrightarrow> acct p0 p1 (H(j \<mapsto> (None, tok)))"
    "r = Inl CircuitUnavailable \<Longrightarrow> acct p0 p1 H"
proof -
  note d = acct_dispatch [OF assms]
  show "r = Inr (resp, b) \<Longrightarrow> acct p0 p1 (H(j \<mapsto> (Some b, tok)))" "r = Inl err \<Longrightarrow> acct p0 p1 (H(j \<mapsto> (None, tok)))"
    using d by (simp_all add: held_by_def)
  assume "r = Inl CircuitUnavailable"
  then have "acct p0 p1 (H(j \<mapsto> (None, zeroToken)))" using d refused_token [of gunzip a j p tok p1] assms(3) by (simp add: held_by_def)
  then have "acct p0 p1 (H(j := None))" using acct_forget [of p0 p1 "H(j \<mapsto> (None, zeroToken))" j] by simp
  then show "acct p0 p1 H" using assms(2) by (metis fun_upd_triv)
qed


lemma seq_body_acct:
  assumes "acct p0 p Map.empty"
  shows "seq_body e q i j rest biased p = Stop out p' \<Longrightarrow> acct p0 p' (owed_by out)"
    "seq_body e q i j rest biased p = Continue rest' biased' err p' \<Longrightarrow> acct p0 p' Map.empty"
proof -
  obtain r tok p1 where d: "dispatch (e_gunzip e) (e_try e i) j p = ((r, tok), p1)" by (metis prod.exhaust)
  note sent = acct_sent [OF assms _ d, simplified]
  have "(\<forall>out p'. seq_body e q i j rest biased p = Stop out p' \<longrightarrow> acct p0 p' (owed_by out)) \<and>
    (\<forall>rest' biased' err p'. seq_body e q i j rest biased p = Continue rest' biased' err p' \<longrightarrow> acct p0 p' Map.empty)"
  proof (cases r)
    case (Inl err)
    have "acct p0 (settle_at j t out tok p1) Map.empty" "acct p0 (upd_up j (recordUpstreamFailure t tok path) p1) Map.empty" for t out path
      using acct_settle [OF sent(2) [OF Inl], of j tok t out] acct_failure [OF sent(2) [OF Inl], of j tok t path] by simp_all
    then show ?thesis using sent(3) Inl by (auto simp: seq_body_def Let_def d)
  next
    case (Inr x)
    obtain resp b where x: "x = (resp, b)" by force
    then have one: "acct p0 p1 [j \<mapsto> (Some b, tok)]" using sent(1) Inr by simp
    obtain us p2 where sel: "SelectForPathArchive (e_tokens e) (at_settle (e_try e i)) p1 (q_apiPath q)
        (nat (max (MaxAttempts (q_fs q) - (int i + 1)) 1)) = (us, p2)" by force
    have two: "acct p0 p2 [j \<mapsto> (Some b, tok)]" using acct_selection(4) [OF one sel] .
    have "acct p0 (upd_up j (recordUpstreamFailure t tok path) (close_at j b p1)) Map.empty"
      "acct p0 (upd_up j (RecordResponseStatus t s) (drop_at j t cbSettleRelease b tok p2)) Map.empty" for t path s
      using acct_close_failure [OF one, of j b tok t path] acct_neutral [OF acct_drop [OF two, of j b tok t cbSettleRelease] neutral_records(3)]
      by simp_all
    then show ?thesis using one two sel by (auto simp: seq_body_def Let_def d Inr x split: prod.splits if_splits)
  qed
  then show "seq_body e q i j rest biased p = Stop out p' \<Longrightarrow> acct p0 p' (owed_by out)"
    "seq_body e q i j rest biased p = Continue rest' biased' err p' \<Longrightarrow> acct p0 p' Map.empty" by blast+
qed

lemma seq_acct:
  "acct p0 p Map.empty \<Longrightarrow> seq_loop e q i ups biased tried lastErr p = (out, tr, p') \<Longrightarrow> acct p0 p' (owed_by out)"
proof (induction e q i ups biased tried lastErr p arbitrary: out tr p' rule: seq_loop.induct)
  case (2 e q i j rest biased tried lastErr p)
  then show ?case using seq_body_acct [OF 2(3)] by (fastforce split: if_splits seq_next.splits)
qed auto

text \<open>The candidates of a selector; what is buffered stays outstanding until it is dropped or returned.\<close>

definition held_buffer :: "buffered option \<Rightarrow> (string \<rightharpoonup> hold)" where
  "held_buffer buf = (case buf of None \<Rightarrow> Map.empty | Some (_, b, i, tok) \<Rightarrow> [i \<mapsto> (Some b, tok)])"

definition buffer_id :: "buffered option \<Rightarrow> string option" where
  "buffer_id buf = map_option (\<lambda>(_, _, i, _). i) buf"

lemma held_buffer_simps [simp]:
  "held_buffer None = Map.empty" "held_buffer (Some (resp, b, i, tok)) = [i \<mapsto> (Some b, tok)]"
  "buffer_id None = None" "buffer_id (Some (resp, b, i, tok)) = Some i"
  by (simp_all add: held_buffer_def buffer_id_def)

lemma held_buffer_other: "buffer_id buf \<noteq> Some j \<Longrightarrow> held_buffer buf j = None"
  by (auto simp: held_buffer_def buffer_id_def split: option.splits)

lemma acct_dropBuffered:
  assumes "acct p0 p (held_buffer buf ++ H)" "\<And>i. buffer_id buf = Some i \<Longrightarrow> H i = None"
  shows "acct p0 (dropBuffered t buf p) H"
proof (cases buf)
  case (Some x)
  obtain resp b i tok where x: "x = (resp, b, i, tok)" using prod_cases4 by blast
  have H: "H i = None" using assms(2) Some x by simp
  then have "([i \<mapsto> (Some b, tok)] ++ H) i = Some (Some b, tok)" by (simp add: map_add_def)
  moreover have "([i \<mapsto> (Some b, tok)] ++ H)(i := None) = H" using H by (auto simp: map_add_def fun_eq_iff split: option.splits)
  ultimately show ?thesis using acct_drop [of p0 p "[i \<mapsto> (Some b, tok)] ++ H" i b tok t cbSettleRelease] assms(1) Some x
    by (simp add: dropBuffered_def)
qed (use assms in \<open>simp add: dropBuffered_def\<close>)

lemma cand_body_acct:
  assumes "acct p0 p (held_buffer buf)" "buffer_id buf \<noteq> Some j"
  shows "cand_body e q i j others buf p = StopC out p' \<Longrightarrow> acct p0 p' (owed_by out)"
    "cand_body e q i j others buf p = ContinueC buf' err p' \<Longrightarrow>
       acct p0 p' (held_buffer buf') \<and> (buffer_id buf' = buffer_id buf \<or> buffer_id buf' = Some j)"
proof -
  obtain r tok p1 where d: "dispatch (e_gunzip e) (e_try e i) j p = ((r, tok), p1)" by (metis prod.exhaust)
  have free: "held_buffer buf j = None" using held_buffer_other [OF assms(2)] .
  note sent = acct_sent [OF assms(1) free d]
  have dropped: "acct p0 (dropBuffered t buf x) [j \<mapsto> h]" if "acct p0 x ((held_buffer buf)(j \<mapsto> h))" for t x h
    using that assms(2) by (intro acct_dropBuffered) auto
  have empty: "acct p0 (dropBuffered t buf x) Map.empty" if "acct p0 x (held_buffer buf)" for t x
    using that by (intro acct_dropBuffered) auto
  have same: "(held_buffer buf)(j \<mapsto> h, j := None) = held_buffer buf" for h using free by (simp add: fun_upd_idem)
  have "(\<forall>out p'. cand_body e q i j others buf p = StopC out p' \<longrightarrow> acct p0 p' (owed_by out)) \<and>
    (\<forall>buf' err p'. cand_body e q i j others buf p = ContinueC buf' err p' \<longrightarrow>
       acct p0 p' (held_buffer buf') \<and> (buffer_id buf' = buffer_id buf \<or> buffer_id buf' = Some j))"
  proof (cases r)
    case (Inl err)
    have "acct p0 (settle_at j t out tok p1) (held_buffer buf)"
      "acct p0 (upd_up j (recordUpstreamFailure t tok path) p1) (held_buffer buf)" for t out path
      using acct_settle [OF sent(2) [OF Inl], of j tok t out] acct_failure [OF sent(2) [OF Inl], of j tok t path] same by simp_all
    then show ?thesis using sent(3) Inl empty by (auto simp: cand_body_def Let_def d)
  next
    case (Inr x)
    obtain resp b where x: "x = (resp, b)" by force
    then have one: "acct p0 p1 ((held_buffer buf)(j \<mapsto> (Some b, tok)))" using sent(1) Inr by simp
    note early = acct_settle_early [OF one, of j b tok, simplified]
    show ?thesis using dropped [OF one] dropped [OF acct_neutral [OF one neutral_records(3)]] dropped [OF early]
        dropped [OF acct_neutral [OF early neutral_records(1)]]
      by (auto simp: cand_body_def Let_def d Inr x split: prod.splits if_splits)
  qed
  then show "cand_body e q i j others buf p = StopC out p' \<Longrightarrow> acct p0 p' (owed_by out)"
    "cand_body e q i j others buf p = ContinueC buf' err p' \<Longrightarrow>
       acct p0 p' (held_buffer buf') \<and> (buffer_id buf' = buffer_id buf \<or> buffer_id buf' = Some j)" by blast+
qed

lemma candidates_acct:
  assumes "acct p0 p (held_buffer buf)" "distinct ups" "\<And>k. buffer_id buf = Some k \<Longrightarrow> k \<notin> set ups"
    and "candidates_loop e q sel i ups buf lastErr p = (out, p')"
  shows "acct p0 p' (owed_by out)"
  using assms
proof (induction e q sel i ups buf lastErr p arbitrary: out p' rule: candidates_loop.induct)
  case (1 e q sel i buf lastErr p)
  then show ?case by (auto split: option.splits)
next
  case (2 e q sel i j rest buf lastErr p)
  have other: "buffer_id buf \<noteq> Some j" using 2(4) by auto
  show ?case
  proof (cases "i > 0 \<and> fs_Retry (q_fs q) \<noteq> None \<and> e_wait e i")
    case True
    then show ?thesis using 2(5) acct_dropBuffered [of p0 p buf Map.empty] 2(2) by auto
  next
    case False
    show ?thesis
    proof (cases "cand_body e q i j (rest \<noteq> []) buf p")
      case (StopC o' p1)
      then show ?thesis using False 2(5) cand_body_acct(1) [OF 2(2) other StopC] by auto
    next
      case (ContinueC buf' err p1)
      note next_ok = cand_body_acct(2) [OF 2(2) other ContinueC]
      have "k \<notin> set rest" if "buffer_id buf' = Some k" for k using next_ok 2(3,4) that by auto
      moreover have "candidates_loop e q sel (Suc i) rest buf' (Some err) p1 = (out, p')" using 2(5) False ContinueC by auto
      ultimately show ?thesis using 2(1) [OF False ContinueC] next_ok 2(3) by simp
    qed
  qed
qed

text \<open>Selections name every upstream at most once.\<close>

lemma select_ids:
  assumes "ids_ok p" "set all \<subseteq> set (upstreams p)" "distinct all" "selectFromCandidatesForPath tokens now p all n path b = (us, p')"
  shows "distinct (map u_ID us)" "set us \<subseteq> set (upstreams p)" "length us \<le> n"
proof -
  have us: "us = take n (fst (orderForPath p (rate_tier tokens now (head_tier p b (base_tier now p all))) path))"
    using assms(4) by (auto simp: selectFromCandidatesForPath_def Let_def split: prod.splits)
  let ?c = "rate_tier tokens now (head_tier p b (base_tier now p all))"
  have c: "distinct ?c" "set ?c \<subseteq> set all"
    using assms(3) by (auto simp: rate_tier_def head_tier_def base_tier_def Let_def split: option.splits)
  have "mset (fst (orderForPath p ?c path)) = mset ?c" using orderForPath_spec by blast
  then have o: "distinct (fst (orderForPath p ?c path))" "set (fst (orderForPath p ?c path)) = set ?c"
    using c(1) by (metis mset_eq_imp_distinct_iff) (metis \<open>mset (fst (orderForPath p ?c path)) = mset ?c\<close> set_mset_mset)
  show "set us \<subseteq> set (upstreams p)" using us o(2) c(2) assms(2) set_take_subset by fastforce
  moreover have "distinct us" using us o(1) by simp
  ultimately show "distinct (map u_ID us)" using assms(1) by (auto simp: ids_ok_def distinct_map intro: inj_on_subset)
  show "length us \<le> n" using us by simp
qed

lemma acct_ids: "acct p0 p H \<Longrightarrow> ids_ok p"
  by (simp add: acct_def pool_ok_def ids_ok_def)

lemma selection_ids:
  assumes "ids_ok p"
  shows "SelectForPath tokens now p path n = (us, p') \<Longrightarrow> distinct (map u_ID us) \<and> length us \<le> n"
    "SelectForPathPreferCanonicalHead tokens now p path n = (us, p') \<Longrightarrow> distinct (map u_ID us) \<and> length us \<le> n"
    "SelectMatching tokens now p sel path n = (us, p') \<Longrightarrow> distinct (map u_ID us) \<and> length us \<le> n"
    "SelectForPathArchive tokens now p path n = (us, p') \<Longrightarrow> distinct (map u_ID us) \<and> length us \<le> n"
proof -
  have d: "distinct (upstreams p)" using assms by (simp add: ids_ok_def distinct_map)
  note * = select_ids [OF assms]
  show "SelectForPath tokens now p path n = (us, p') \<Longrightarrow> distinct (map u_ID us) \<and> length us \<le> n"
    "SelectForPathPreferCanonicalHead tokens now p path n = (us, p') \<Longrightarrow> distinct (map u_ID us) \<and> length us \<le> n"
    using d *(1,3) [of "upstreams p"] by (auto simp: SelectForPath_def SelectForPathPreferCanonicalHead_def)
  show "SelectMatching tokens now p sel path n = (us, p') \<Longrightarrow> distinct (map u_ID us) \<and> length us \<le> n"
    using d *(1,3) [of "filter (selects sel) (upstreams p)"] by (auto simp: SelectMatching_def)
  show "SelectForPathArchive tokens now p path n = (us, p') \<Longrightarrow> distinct (map u_ID us) \<and> length us \<le> n"
    using d *(1,3) [of "filter IsArchive (upstreams p)"] by (auto simp: SelectForPathArchive_def Let_def split: if_splits)
qed

lemma selected_acct:
  assumes "acct p0 p Map.empty" "executeSelectedFS e q required p = (out, p')"
  shows "acct p0 p' (owed_by out)"
proof (cases "sel_ID required = []")
  case True
  obtain ups p1 where s: "SelectMatching (e_tokens e) (e_now e 0) p required (q_apiPath q) (nat (MaxAttempts (q_fs q))) = (ups, p1)" by force
  have "acct p0 p1 Map.empty" using acct_selection(3) [OF assms(1) s] .
  then have "acct p0 p1 (held_buffer None)" by simp
  then show ?thesis using True assms s candidates_acct selection_ids(3) [OF acct_ids [OF assms(1)] s]
    by (fastforce simp: executeSelectedFS_def split: if_splits)
next
  case False
  obtain r tok p1 where d: "dispatch (e_gunzip e) (e_try e 0) (sel_ID required) p = ((r, tok), p1)" by (metis prod.exhaust)
  note sent = acct_sent [OF assms(1) _ d, simplified]
  show ?thesis
  proof (cases r)
    case (Inl err)
    have "acct p0 (settle_at (sel_ID required) t x tok p1) Map.empty"
      "acct p0 (upd_up (sel_ID required) (recordUpstreamFailure t tok path) p1) Map.empty" for t x path
      using acct_settle [OF sent(2) [OF Inl], of "sel_ID required" tok t x] acct_failure [OF sent(2) [OF Inl], of "sel_ID required" tok t path]
      by simp_all
    then show ?thesis using assms False sent(3) Inl by (auto simp: executeSelectedFS_def Let_def d split: option.splits if_splits)
  next
    case (Inr x)
    then show ?thesis using assms False sent(1) by (cases x) (auto simp: executeSelectedFS_def Let_def d split: option.splits if_splits)
  qed
qed

lemma archive_body_acct:
  assumes "acct p0 p Map.empty" "archive_body e q i j p = (res, p')"
  shows "acct p0 p' (case res of Some (Some out) \<Rightarrow> owed_by out | _ \<Rightarrow> Map.empty)"
proof -
  obtain r tok p1 where d: "dispatch (e_gunzip e) (e_arch e i) j p = ((r, tok), p1)" by (metis prod.exhaust)
  note sent = acct_sent [OF assms(1) _ d, simplified]
  show ?thesis
  proof (cases r)
    case (Inl err)
    have "acct p0 (settle_at j t x tok p1) Map.empty" for t x
      using acct_settle [OF sent(2) [OF Inl], of j tok t x] by simp
    then show ?thesis using assms(2) sent(3) Inl by (auto simp: archive_body_def Let_def d split: if_splits)
  next
    case (Inr x)
    obtain resp b where x: "x = (resp, b)" by force
    then have one: "acct p0 p1 [j \<mapsto> (Some b, tok)]" using sent(1) Inr by simp
    then have "acct p0 (drop_at j t out b tok p1) Map.empty" for t out using acct_drop [OF one, of j b tok t out] by simp
    then show ?thesis using assms(2) one Inr x by (auto simp: archive_body_def Let_def d split: prod.splits if_splits)
  qed
qed

lemma archive_acct:
  "acct p0 p Map.empty \<Longrightarrow> archive_loop e q tried i ups p = (res, p') \<Longrightarrow>
   acct p0 p' (case res of Some out \<Rightarrow> owed_by out | None \<Rightarrow> Map.empty)"
proof (induction e q tried i ups p arbitrary: res p' rule: archive_loop.induct)
  case (2 e q tried i j rest p)
  show ?case
  proof (cases "j \<in> set tried")
    case True
    then show ?thesis using 2 by simp
  next
    case False
    obtain x p1 where b: "archive_body e q i j p = (x, p1)" by force
    show ?thesis using 2(2) [OF False b [symmetric]] 2(3,4) False b archive_body_acct [OF 2(3) b] by (cases x) auto
  qed
qed auto

lemma promote_acct:
  assumes "acct p0 p Map.empty" "promoteToArchive e q tried n p = (res, p')"
  shows "acct p0 p' (case res of Some out \<Rightarrow> owed_by out | None \<Rightarrow> Map.empty)"
  using assms(2) archive_acct acct_selection(4) [OF assms(1)] by (fastforce simp: promoteToArchive_def split: prod.splits)


section \<open>The retry loop contacts every upstream at most once\<close>

text \<open>How many more upstreams the loop can contact from a given point on.\<close>

definition attempts_left :: "seq_cfg \<Rightarrow> nat \<Rightarrow> string list \<Rightarrow> bool \<Rightarrow> nat" where
  "attempts_left q i ups biased =
     (if biased \<or> ups = [] then length ups else max (nat (MaxAttempts (q_fs q)) - i) (Suc (length ups)))"

lemma archive_budget:
  assumes "ids_ok p" "SelectForPathArchive tokens t p path (nat (max (m - (int i + 1)) 1)) = (us, p')"
  shows "length us \<le> max (nat m - Suc i) 1"
proof -
  have "nat (max (m - (int i + 1)) 1) = max (nat m - Suc i) 1" by linarith
  then show ?thesis using selection_ids(4) [OF assms] by simp
qed

lemma seq_body_budget:
  assumes "acct p0 p Map.empty" "seq_body e q i j rest biased p = Continue rest' biased' err p'"
  shows "Suc (attempts_left q (Suc i) rest' biased') \<le> attempts_left q i (j # rest) biased"
proof -
  obtain r tok p1 where d: "dispatch (e_gunzip e) (e_try e i) j p = ((r, tok), p1)" by (metis prod.exhaust)
  have "ids_ok p1" using acct_ids [OF acct_dispatch [OF assms(1) _ d]] by simp
  note budget = archive_budget [OF this]
  show ?thesis
  proof (cases "rest' = rest \<and> biased' = biased")
    case True
    then show ?thesis by (auto simp: attempts_left_def)
  next
    case False
    then have "\<not> biased" "biased'" using seq_body_shrinks [OF assms(2)] by auto
    moreover have "length rest' \<le> max (nat (MaxAttempts (q_fs q)) - Suc i) 1"
      using assms(2) False budget
      by (auto simp: seq_body_def Let_def d split: prod.splits sum.splits if_splits)
    ultimately show ?thesis by (auto simp: attempts_left_def)
  qed
qed

lemma seq_contacts:
  assumes "acct p0 p Map.empty" "distinct tried" "seq_loop e q i ups biased tried lastErr p = (out, tr, p')"
  shows "distinct tr \<and> length tr \<le> length tried + attempts_left q i ups biased"
  using assms
proof (induction e q i ups biased tried lastErr p arbitrary: out tr p' rule: seq_loop.induct)
  case (2 e q i j rest biased tried lastErr p)
  have less: "attempts_left q (Suc i) rest biased \<le> attempts_left q i (j # rest) biased" "1 \<le> attempts_left q i (j # rest) biased"
    by (auto simp: attempts_left_def)
  show ?case
  proof (cases "j \<in> set tried \<or> i > 0 \<and> fs_Retry (q_fs q) \<noteq> None \<and> e_wait e i")
    case True
    then show ?thesis using 2(1,3,4,5) less(1) by (force split: if_splits)
  next
    case False
    show ?thesis
    proof (cases "seq_body e q i j rest biased p")
      case (Continue rest' biased' err p1)
      have "seq_loop e q (Suc i) rest' biased' (j # tried) (Some err) p1 = (out, tr, p')" using 2(5) False Continue by auto
      then have "distinct tr \<and> length tr \<le> Suc (length tried) + attempts_left q (Suc i) rest' biased'"
        using 2(2) [OF _ _ Continue seq_body_acct(2) [OF 2(3) Continue]] False 2(4) by auto
      then show ?thesis using seq_body_budget [OF 2(3) Continue] by simp
    qed (use 2(4,5) False less(2) in auto)
  qed
qed simp

lemma seq_served:
  "seq_loop e q i ups biased tried lastErr p = (Served resp b j tok, tr, p') \<Longrightarrow> StatusCode resp < 500 \<and> b \<noteq> None \<and> tr \<noteq> [] \<and> hd tr = j"
proof (induction e q i ups biased tried lastErr p rule: seq_loop.induct)
  case (2 e q i j' rest biased tried lastErr p)
  have "seq_body e q i j' rest biased p = Stop (Served resp b j tok) p1 \<Longrightarrow> StatusCode resp < 500 \<and> b \<noteq> None \<and> j = j'" for p1
    by (auto simp: seq_body_def Let_def peek_pruned_def peekBodyForPruning_def ReadLimited_def split: prod.splits sum.splits if_splits)
  then show ?case using 2 by (auto split: if_splits seq_next.splits)
qed simp


section \<open>The retry loop serves the first acceptable answer\<close>

text \<open>
  The reference: go through the candidates in order, put the attempt to each of them as the pool stood at the start,
  and take the first answer below 500.
\<close>

definition good_answer :: "env \<Rightarrow> seq_cfg \<Rightarrow> Pool \<Rightarrow> nat \<Rightarrow> string \<Rightarrow> (http_Response \<times> trackedBody \<times> CBToken) option" where
  "good_answer e q p i j =
     (case fst (dispatch (e_gunzip e) (e_try e i) j p) of
        (Inr (resp, b), tok) \<Rightarrow> if StatusCode resp < 500 then Some (snd (peek_pruned resp (q_target q)), b, tok) else None
      | (Inl _, _) \<Rightarrow> None)"

fun first_good :: "env \<Rightarrow> seq_cfg \<Rightarrow> Pool \<Rightarrow> nat \<Rightarrow> string list \<Rightarrow> outcome option" where
  "first_good e q p i [] = None"
| "first_good e q p i (j # js) =
     (case good_answer e q p i j of
        Some (resp, b, tok) \<Rightarrow> Some (Served resp (Some b) j tok)
      | None \<Rightarrow> first_good e q p (Suc i) js)"

lemma ByID_selection: "ByID (p\<lparr>rrCounter := c\<rparr>) k = ByID p k"
  by (simp add: ByID_def)

lemma dispatch_local:
  assumes "dispatch gunzip a j p = (r, p')"
  shows "k \<noteq> j \<Longrightarrow> ByID p' k = ByID p k" "hasArchive p' = hasArchive p"
proof -
  have "(k \<noteq> j \<longrightarrow> ByID p' k = ByID p k) \<and> hasArchive p' = hasArchive p"
  proof (cases "ByID p j")
    case None
    then show ?thesis using assms by (simp add: dispatch_def)
  next
    case (Some u)
    obtain r' u' where f: "forward gunzip a u = (r', u')" by (metis surj_pair)
    then have "u_ID u' = j" using forward_ID ByID_ID [OF Some] by simp
    moreover have "p' = upd_up j (\<lambda>_. u') p" using assms Some f by (simp add: dispatch_def)
    ultimately show ?thesis using ByID_upd_at [of j "\<lambda>_. u'" p k] by simp
  qed
  then show "k \<noteq> j \<Longrightarrow> ByID p' k = ByID p k" "hasArchive p' = hasArchive p" by auto
qed

lemma failure_local:
  "k \<noteq> j \<Longrightarrow> ByID (upd_up j (recordUpstreamFailure t tok path) p) k = ByID p k" "k \<noteq> j \<Longrightarrow> ByID (close_at j b p) k = ByID p k"
proof -
  have "u_ID (recordUpstreamFailure t tok path u) = u_ID u" for u
    by (simp add: recordUpstreamFailure_def RecordScoreErrorForPath_def routeScorer_update_def Let_def)
  then show "k \<noteq> j \<Longrightarrow> ByID (upd_up j (recordUpstreamFailure t tok path) p) k = ByID p k"
    "k \<noteq> j \<Longrightarrow> ByID (close_at j b p) k = ByID p k" by (simp_all add: ByID_upd close_at_def)
qed

text \<open>One pass, when no promotion is possible and the client stays.\<close>

lemma seq_body_plain:
  assumes "biased \<or> \<not> hasArchive p" "\<not> at_cancel (e_try e i)"
  shows "(case good_answer e q p i j of
      Some (resp, b, tok) \<Rightarrow> \<exists>p'. seq_body e q i j rest biased p = Stop (Served resp (Some b) j tok) p'
    | None \<Rightarrow> \<exists>err p'. seq_body e q i j rest biased p = Continue rest biased err p' \<and> hasArchive p' = hasArchive p \<and>
        (\<forall>k. k \<noteq> j \<longrightarrow> ByID p' k = ByID p k))"
proof -
  obtain r tok p1 where d: "dispatch (e_gunzip e) (e_try e i) j p = ((r, tok), p1)" by (metis prod.exhaust)
  note local = dispatch_local [OF d] and cancel = assms(2)
  have "hasArchive (close_at j b x) = hasArchive x" for b x by (simp add: close_at_def)
  then show ?thesis using assms(1) local cancel failure_local
    by (cases r) (auto simp: good_answer_def seq_body_def Let_def d isClientCancel_def split: prod.splits)
qed

lemma first_good_cong:
  "(\<And>k. k \<in> set ups \<Longrightarrow> ByID p' k = ByID p k) \<Longrightarrow> first_good e q p' i ups = first_good e q p i ups"
proof (induction ups arbitrary: i)
  case (Cons j js)
  have "fst (dispatch (e_gunzip e) (e_try e i) j p') = fst (dispatch (e_gunzip e) (e_try e i) j p)"
    using Cons(2) [of j] by (simp add: dispatch_def split: option.splits prod.splits)
  then show ?case using Cons by (simp add: good_answer_def split: option.splits)
qed simp

lemma seq_first_good:
  assumes "biased \<or> \<not> hasArchive p" "\<And>k. \<not> at_cancel (e_try e k)" "\<And>k. \<not> e_wait e k" "distinct ups" "set ups \<inter> set tried = {}"
  shows "case first_good e q p i ups of
      Some out \<Rightarrow> fst (seq_loop e q i ups biased tried lastErr p) = out
    | None \<Rightarrow> \<exists>err. fst (seq_loop e q i ups biased tried lastErr p) = Failed (AllFailed (i + length ups) err)"
  using assms(1,4,5)
proof (induction ups arbitrary: i tried lastErr p)
  case (Cons j js)
  have j: "j \<notin> set tried" and js: "distinct js" "set js \<inter> set (j # tried) = {}" using Cons(3,4) by auto
  note plain = seq_body_plain [OF Cons(2) assms(2), where q = q and i = i and j = j and rest = js]
  show ?case
  proof (cases "good_answer e q p i j")
    case (Some x)
    then show ?thesis using plain j assms(3) by (cases x) auto
  next
    case None
    then obtain err p' where b: "seq_body e q i j js biased p = Continue js biased err p'" "hasArchive p' = hasArchive p"
      "\<forall>k. k \<noteq> j \<longrightarrow> ByID p' k = ByID p k" using plain by auto
    have "first_good e q p' (Suc i) js = first_good e q p (Suc i) js" using b(3) Cons(3) by (intro first_good_cong) auto
    then show ?thesis using Cons(1) [of p' "j # tried" "Suc i" "Some err"] Cons(2) js b j assms(3) None
      by (auto split: option.splits)
  qed
qed simp

text \<open>C13. Failover: the retry loop, once no promotion is left to it and while its client stays, answers with the first answer below 500
  among its candidates, in their order, and reports failure only if there is none; nothing the earlier attempts do
  changes what a later candidate is asked.
\<close>

theorem retry_serves_first_good:
  assumes "biased \<or> \<not> hasArchive p" "\<And>k. \<not> at_cancel (e_try e k) \<and> \<not> e_wait e k" "distinct ups"
  shows "case first_good e q p 0 ups of
      Some out \<Rightarrow> fst (seq_loop e q 0 ups biased [] None p) = out
    | None \<Rightarrow> \<exists>err. fst (seq_loop e q 0 ups biased [] None p) = Failed (AllFailed (length ups) err)"
  using seq_first_good [OF assms(1), of e ups "[]" q 0 None] assms(2,3) by (auto split: option.splits)


section \<open>Sample runs\<close>

definition quietEnv :: "(nat \<Rightarrow> attempt) \<Rightarrow> env" where
  "quietEnv tries = \<lparr>e_tokens = \<lambda>_ _. 1, e_gunzip = Some, e_sha = id, e_now = \<lambda>_. second, e_try = tries, e_wait = \<lambda>_. False,
     e_cons = tries, e_hedge = tries, e_events = [], e_arch = tries\<rparr>"

definition retryTwice :: FailsafeConfig where
  "retryTwice = \<lparr>fs_Timeout = None, fs_Retry = Some \<lparr>rt_MaxAttempts = 2, rt_Delay = 0, rt_Backoff = 1, rt_Jitter = 0, rt_MaxDelay = 0\<rparr>,
     fs_Hedge = None, fs_CircuitBreaker = None, fs_Consensus = None\<rparr>"

definition sampleSeq :: "string \<Rightarrow> seq_cfg" where
  "sampleSeq path = \<lparr>q_fs = retryTwice, q_apiPath = normalizeAPIPath path, q_target = classifyHistoricalTarget path, q_method = ''GET'',
     q_maxResponseBytes = 0\<rparr>"

definition failsOnce :: "nat \<Rightarrow> attempt" where
  "failsOnce k = (if k = 0 then answering 503 [] else answering 200 ''ok'')"

lemma sampleThree_ok: "pool_ok sampleThree"
  by code_simp

lemma failover_first_good:
  "(case first_good (quietEnv failsOnce) (sampleSeq ''/eth/v1/node/version'') sampleThree 0 [''a'', ''b''] of
      Some (Served resp _ j _) \<Rightarrow> StatusCode resp = 200 \<and> j = ''b''
    | _ \<Rightarrow> False)"
  by code_simp

lemma retry_serves_first_good_witness:
  "(case fst (seq_loop (quietEnv failsOnce) (sampleSeq ''/eth/v1/node/version'') 0 [''a'', ''b''] False [] None sampleThree) of
      Served resp _ j _ \<Rightarrow> StatusCode resp = 200 \<and> j = ''b''
    | _ \<Rightarrow> False)"
proof -
  have "\<not> at_cancel (e_try (quietEnv failsOnce) k) \<and> \<not> e_wait (quietEnv failsOnce) k" for k
    by (simp add: quietEnv_def failsOnce_def answering_def)
  moreover have "\<not> hasArchive sampleThree" by (simp add: sampleThree_def samplePool_def)
  ultimately show ?thesis
    using retry_serves_first_good [of False sampleThree "quietEnv failsOnce" "[''a'', ''b'']" "sampleSeq ''/eth/v1/node/version''"] failover_first_good
    by (simp split: option.splits)
qed


text \<open>
  An answer that looks pruned from the only archive upstream: the loop promotes to the archives, finds the one it has
  just asked, and reports failure instead of the answer it had.
\<close>

lemma only_archive_404:
  "fst (seq_loop (quietEnv (\<lambda>_. answering 404 [])) (sampleSeq ''/eth/v1/beacon/blob_sidecars/123'') 0 [''a''] False [] None
     ((samplePool [zeroUpstreamConfig\<lparr>uc_ID := ''a'', uc_Archive := True\<rparr>] (NewBlockCache 32 2))\<lparr>hasArchive := True\<rparr>)) =
   Failed (AllFailed 2 (Some (CausePruned 404)))"
  by code_simp

text \<open>A buffered answer that looks pruned does not survive a later candidate's server error.\<close>

lemma buffered_answer_lost:
  "(case fst (candidates_loop (quietEnv (\<lambda>k. answering (if k = 0 then 404 else 503) [])) (sampleSeq ''/eth/v1/beacon/blob_sidecars/123'') ''client:teku''
      0 [''a'', ''b''] None None sampleThree) of
      Served resp _ j _ \<Rightarrow> StatusCode resp = 503 \<and> j = ''b''
    | _ \<Rightarrow> False)"
  by code_simp

end
