(* ===== verification/Hedge.thy ===== *)
theory Hedge
  imports Sequential
begin

text \<open>
  Hedged requests, \<open>executeHedgeFS\<close> of \<open>src/network/network.go\<close>: a second upstream is asked when the first takes too
  long, and the first real answer wins.

  The \<open>select\<close> of the loop is driven by the schedule \<open>e_events\<close>: a result is received, the hedge timer fires, the request
  context ends.  An attempt is dispatched when it is fired; its result waits in \<open>hs_flight\<close> until the loop, or the
  goroutine that drains the losers, receives it.  If the schedule ends before the loop does, the loop is still waiting
  and its value is \<open>None\<close>.
\<close>

type_synonym flight = "(nat \<times> string \<times> forwarded) list"

record hedge_state =
  hs_pool :: Pool
  hs_fired :: nat
  hs_flight :: flight
  hs_pruning :: "buffered option"
  hs_tried :: "string list"
  hs_lastErr :: "cause option"

text \<open>What stays fixed during the loop.\<close>

record hedge_cfg =
  g_ups :: "string list"
  g_maxFire :: nat
  g_archiveBiased :: bool

datatype hedge_next = Returns outcome Pool | Loops hedge_state

definition fire :: "env \<Rightarrow> hedge_cfg \<Rightarrow> hedge_state \<Rightarrow> hedge_state" where
  "fire e g st =
     (let k = hs_fired st; i = g_ups g ! k in
      case dispatch (e_gunzip e) (e_hedge e k) i (hs_pool st) of
        (r, p1) \<Rightarrow> st\<lparr>hs_pool := p1, hs_fired := Suc k, hs_flight := (k, i, r) # hs_flight st\<rparr>)"

text \<open>\<open>drainResults\<close>: the bodies and tokens of all attempts still in flight are given back.\<close>

definition drain_one :: "env \<Rightarrow> nat \<times> string \<times> forwarded \<Rightarrow> Pool \<Rightarrow> Pool" where
  "drain_one e x p =
     (case x of
        (k, i, Inr (_, b), tok) \<Rightarrow> drop_at i (at_settle (e_hedge e k)) cbSettleRelease b tok p
      | (k, i, Inl _, tok) \<Rightarrow> settle_at i (at_settle (e_hedge e k)) cbSettleRelease tok p)"

definition drainResults :: "env \<Rightarrow> flight \<Rightarrow> Pool \<Rightarrow> Pool" where
  "drainResults e = fold (drain_one e)"

definition on_result :: "env \<Rightarrow> seq_cfg \<Rightarrow> hedge_cfg \<Rightarrow> nat \<Rightarrow> string \<Rightarrow> forwarded \<Rightarrow> hedge_state \<Rightarrow> hedge_next" where
  "on_result e q g k i res st =
     (let a = e_hedge e k; t = at_settle a; p = hs_pool st in
      case res of
        (Inr (resp, b), tok) \<Rightarrow>
          if StatusCode resp < 500 then
            (case peek_pruned resp (q_target q) of
               (pruned, resp') \<Rightarrow>
                 if \<not> g_archiveBiased g \<and> hasArchive p \<and> pruned then
                   let st1 = (case hs_pruning st of
                                None \<Rightarrow> st\<lparr>hs_pruning := Some (resp', b, i, tok)\<rparr>
                              | Some _ \<Rightarrow> st\<lparr>hs_pool := drop_at i t cbSettleRelease b tok p\<rparr>)
                   in Loops (st1\<lparr>hs_tried := i # hs_tried st,
                                 hs_pool := upd_up i (RecordResponseStatus t (StatusCode resp)) (hs_pool st1)\<rparr>)
                 else Returns (Served resp' (Some b) i tok) (dropBuffered t (hs_pruning st) (drainResults e (hs_flight st) p)))
          else
            Loops (st\<lparr>hs_pool := upd_up i (recordUpstreamFailure t tok (q_apiPath q)) (close_at i b p),
                      hs_tried := i # hs_tried st, hs_lastErr := Some (CauseStatus (StatusCode resp))\<rparr>)
      | (Inl err, tok) \<Rightarrow>
          Loops (st\<lparr>hs_tried := i # hs_tried st, hs_lastErr := Some (CauseForward err),
                    hs_pool := (if isClientCancel a err then settle_at i t cbSettleRelease tok p
                                else if err = CircuitUnavailable then p
                                else upd_up i (recordUpstreamFailure t tok (q_apiPath q)) p)\<rparr>))"

definition hedge_step :: "env \<Rightarrow> seq_cfg \<Rightarrow> hedge_cfg \<Rightarrow> hedge_event \<Rightarrow> hedge_state \<Rightarrow> hedge_next" where
  "hedge_step e q g ev st =
     (case ev of
        EvResult k \<Rightarrow>
          (case map_of (hs_flight st) k of
             None \<Rightarrow> Loops st
           | Some (i, res) \<Rightarrow> on_result e q g k i res (st\<lparr>hs_flight := filter (\<lambda>x. fst x \<noteq> k) (hs_flight st)\<rparr>))
      | EvTimer \<Rightarrow> Loops (if hs_fired st < g_maxFire g then fire e g st else st)
      | EvDone \<Rightarrow>
          Returns (Failed ContextDone)
            (dropBuffered (e_now e 1) (hs_pruning st) (drainResults e (hs_flight st) (hs_pool st))))"

text \<open>After the loop: a buffered answer that looks pruned is read, and the archives are tried before it is returned.\<close>

definition hedge_finish :: "env \<Rightarrow> seq_cfg \<Rightarrow> hedge_cfg \<Rightarrow> hedge_state \<Rightarrow> outcome \<times> Pool" where
  "hedge_finish e q g st =
     (case hs_pruning st of
        None \<Rightarrow> (Failed (HedgedFailed (hs_lastErr st)), hs_pool st)
      | Some (resp, b, i, tok) \<Rightarrow>
          let body = readAndFinalizeResponseBody (q_method q) resp (q_maxResponseBytes q);
              p1 = settle_at i (e_now e 1) (case body of Inl _ \<Rightarrow> cbSettleFailure | Inr _ \<Rightarrow> cbSettleSuccess) tok (close_at i b (hs_pool st))
          in case promoteToArchive e q (hs_tried st) (max (int (g_maxFire g)) (MaxAttempts (q_fs q))) p1 of
               (Some out, p2) \<Rightarrow> (out, p2)
             | (None, p2) \<Rightarrow>
                 (case body of
                    Inl err \<Rightarrow> (Failed (HedgePruningUnreadable err), p2)
                  | Inr (d, resp') \<Rightarrow> (Served (resp'\<lparr>rs_Body := \<lparr>b_data = d, b_broken = False\<rparr>\<rparr>) None i zeroToken, p2)))"

fun hedge_loop :: "env \<Rightarrow> seq_cfg \<Rightarrow> hedge_cfg \<Rightarrow> hedge_event list \<Rightarrow> hedge_state \<Rightarrow> (outcome \<times> Pool) option" where
  "hedge_loop e q g [] st = (if hs_flight st = [] \<and> g_maxFire g \<le> hs_fired st then Some (hedge_finish e q g st) else None)"
| "hedge_loop e q g (ev # evs) st =
     (if hs_flight st = [] \<and> g_maxFire g \<le> hs_fired st then Some (hedge_finish e q g st)
      else case hedge_step e q g ev st of
             Returns out p \<Rightarrow> Some (out, p)
           | Loops st' \<Rightarrow> hedge_loop e q g evs st')"

text \<open>Where the loop starts: the number of attempts, the preferred upstream in front, and the first attempt fired.\<close>

definition hedge_setup :: "env \<Rightarrow> HedgeConfig \<Rightarrow> string list \<Rightarrow> string \<Rightarrow> bool \<Rightarrow> Pool \<Rightarrow> hedge_cfg \<times> hedge_state" where
  "hedge_setup e hedge ups preferID archiveBiased p =
     (let maxFire = min (hd_MaxCount hedge + 1) (int (length ups));
          g = \<lparr>g_ups = ensurePreferredUpstreamFirst (e_now e 1) p ups preferID maxFire, g_maxFire = nat maxFire, g_archiveBiased = archiveBiased\<rparr>
      in (g, fire e g \<lparr>hs_pool = p, hs_fired = 0, hs_flight = [], hs_pruning = None, hs_tried = [], hs_lastErr = None\<rparr>))"

definition executeHedgeFS :: "env \<Rightarrow> seq_cfg \<Rightarrow> HedgeConfig \<Rightarrow> string list \<Rightarrow> string \<Rightarrow> bool \<Rightarrow> Pool \<Rightarrow> (outcome \<times> Pool) option" where
  "executeHedgeFS e q hedge ups preferID archiveBiased p =
     (case hedge_setup e hedge ups preferID archiveBiased p of (g, st) \<Rightarrow> hedge_loop e q g (e_events e) st)"


section \<open>Preferred upstream\<close>

lemma index_of_Some: "index_of x ys = Some i \<Longrightarrow> i < length ys \<and> ys ! i = x"
  by (induction ys arbitrary: i) (auto split: if_splits)

lemma index_of_None: "index_of x ys = None \<longleftrightarrow> x \<notin> set ys"
  by (induction ys) auto

lemma prefer_ok:
  assumes "distinct ups"
  shows "distinct (ensurePreferredUpstreamFirst now p ups pref m)"
    "m \<le> int (length ups) \<Longrightarrow> m \<le> int (length (ensurePreferredUpstreamFirst now p ups pref m))"
    "0 < m \<Longrightarrow> int (length ups) \<le> m \<Longrightarrow> int (length (ensurePreferredUpstreamFirst now p ups pref m)) \<le> m"
proof -
  have swap: "distinct ((ups[0 := ups ! i])[i := ups ! 0])" if "i < length ups" for i
    using assms that distinct_swap [of 0 ups i] by fastforce
  show "distinct (ensurePreferredUpstreamFirst now p ups pref m)"
    using assms swap index_of_Some [of pref ups] index_of_None [of pref ups]
    by (auto simp: ensurePreferredUpstreamFirst_def trimUpstreamSlice_def split: option.splits)
  show "m \<le> int (length ups) \<Longrightarrow> m \<le> int (length (ensurePreferredUpstreamFirst now p ups pref m))"
    "0 < m \<Longrightarrow> int (length ups) \<le> m \<Longrightarrow> int (length (ensurePreferredUpstreamFirst now p ups pref m)) \<le> m"
    by (auto simp: ensurePreferredUpstreamFirst_def trimUpstreamSlice_def split: option.splits)
qed


section \<open>Accounts of the loop\<close>

definition flight_holds :: "flight \<Rightarrow> (string \<rightharpoonup> hold)" where
  "flight_holds fl = map_of (map (\<lambda>x. (fst (snd x), held_by (snd (snd x)))) fl)"

definition flight_ids :: "flight \<Rightarrow> string list" where
  "flight_ids fl = map (\<lambda>x. fst (snd x)) fl"

text \<open>A refused attempt carries the empty token, which needs no settlement.\<close>

definition refused_ok :: "forwarded \<Rightarrow> bool" where
  "refused_ok r \<longleftrightarrow> (fst r = Inl CircuitUnavailable \<longrightarrow> snd r = zeroToken)"

definition hedge_inv :: "Pool \<Rightarrow> hedge_cfg \<Rightarrow> hedge_state \<Rightarrow> bool" where
  "hedge_inv p0 g st \<longleftrightarrow>
     distinct (g_ups g) \<and> g_maxFire g \<le> length (g_ups g) \<and> hs_fired st \<le> length (g_ups g) \<and>
     distinct (flight_ids (hs_flight st)) \<and> distinct (map fst (hs_flight st)) \<and>
     set (map fst (hs_flight st)) \<subseteq> {..<hs_fired st} \<and> list_all (\<lambda>x. refused_ok (snd (snd x))) (hs_flight st) \<and>
     set (flight_ids (hs_flight st)) \<subseteq> set (take (hs_fired st) (g_ups g)) \<and>
     (\<forall>i. buffer_id (hs_pruning st) = Some i \<longrightarrow> i \<notin> set (flight_ids (hs_flight st)) \<and> i \<in> set (take (hs_fired st) (g_ups g))) \<and>
     acct p0 (hs_pool st) (held_buffer (hs_pruning st) ++ flight_holds (hs_flight st))"

lemma flight_holds_dom: "flight_holds fl i = None \<longleftrightarrow> i \<notin> set (flight_ids fl)"
  by (induction fl) (auto simp: flight_holds_def flight_ids_def)

lemma flight_remove_holds:
  "distinct (map fst fl) \<Longrightarrow> distinct (flight_ids fl) \<Longrightarrow> map_of fl k = Some (i, r) \<Longrightarrow>
   flight_holds fl = (flight_holds (filter (\<lambda>x. fst x \<noteq> k) fl))(i \<mapsto> held_by r)"
proof (induction fl)
  case (Cons x fl)
  obtain k' i' r' where x: "x = (k', i', r')" using prod_cases3 by blast
  show ?case
  proof (cases "k' = k")
    case True
    then have "filter (\<lambda>x. fst x \<noteq> k) fl = fl" using Cons(2) x by (auto simp: filter_id_conv)
    then show ?thesis using True Cons(4) x by (auto simp: flight_holds_def)
  next
    case False
    then have "(k, i, r) \<in> set fl" using Cons(4) x by (auto dest: map_of_SomeD)
    then have "i' \<noteq> i" using Cons(3) x by (force simp: flight_ids_def)
    then show ?thesis using Cons False x by (auto simp: flight_holds_def flight_ids_def fun_eq_iff)
  qed
qed simp

lemma flight_remove:
  assumes "distinct (map fst fl)" "distinct (flight_ids fl)" "map_of fl k = Some (i, r)"
  shows "i \<notin> set (flight_ids (filter (\<lambda>x. fst x \<noteq> k) fl))" "i \<in> set (flight_ids fl)" "length (filter (\<lambda>x. fst x \<noteq> k) fl) < length fl"
proof -
  have m: "(k, i, r) \<in> set fl" using assms(3) by (rule map_of_SomeD)
  have "x = (k, i, r)" if "x \<in> set fl" "fst (snd x) = i" for x
    using assms(2) m that inj_onD [of "\<lambda>x. fst (snd x)" "set fl" x "(k, i, r)"] by (simp add: flight_ids_def distinct_map)
  then show "i \<notin> set (flight_ids (filter (\<lambda>x. fst x \<noteq> k) fl))" by (fastforce simp: flight_ids_def)
  show "i \<in> set (flight_ids fl)" using m by (force simp: flight_ids_def)
  show "length (filter (\<lambda>x. fst x \<noteq> k) fl) < length fl" using m by (intro length_filter_less) auto
qed

lemma acct_drain_one:
  assumes "acct p0 p H" "H i = Some (held_by r)"
  shows "acct p0 (drain_one e (k, i, r) p) (H(i := None))"
proof (cases r)
  case (Pair x tok)
  show ?thesis
  proof (cases x)
    case (Inl err)
    then show ?thesis using assms Pair acct_settle [of p0 p H i tok] by (simp add: drain_one_def held_by_def)
  next
    case (Inr y)
    then show ?thesis using assms Pair acct_drop [of p0 p H i "snd y" tok] by (cases y) (simp add: drain_one_def held_by_def)
  qed
qed

lemma flight_holds_Cons [simp]: "flight_holds ((k, i, r) # fl) = (flight_holds fl)(i \<mapsto> held_by r)"
  "flight_ids ((k, i, r) # fl) = i # flight_ids fl" "flight_holds [] = Map.empty" "flight_ids [] = []"
  by (simp_all add: flight_holds_def flight_ids_def)

lemma drain_acct:
  "acct p0 p (H ++ flight_holds fl) \<Longrightarrow> distinct (flight_ids fl) \<Longrightarrow> \<forall>i \<in> set (flight_ids fl). H i = None \<Longrightarrow>
   acct p0 (drainResults e fl p) H"
proof (induction fl arbitrary: p)
  case (Cons x fl)
  obtain k i r where x: "x = (k, i, r)" using prod_cases3 by blast
  have "acct p0 p ((H ++ flight_holds fl)(i \<mapsto> held_by r))" using Cons(2) by (simp only: x flight_holds_Cons map_add_upd)
  then have "acct p0 (drain_one e x p) ((H ++ flight_holds fl)(i \<mapsto> held_by r, i := None))" 
    unfolding x by (rule acct_drain_one) simp
  moreover have "(H ++ flight_holds fl)(i \<mapsto> held_by r, i := None) = H ++ flight_holds fl"
    using Cons(3,4) x flight_holds_dom [of fl i] by (auto simp: fun_eq_iff map_add_def)
  ultimately have "acct p0 (drainResults e fl (drain_one e x p)) H" using Cons(1,3,4) x by simp
  then show ?case by (simp add: drainResults_def)
qed (simp add: drainResults_def)

lemma fire_inv:
  assumes "hedge_inv p0 g st" "hs_fired st < g_maxFire g"
  shows "hedge_inv p0 g (fire e g st)"
proof -
  let ?n = "hs_fired st"
  have n: "?n < length (g_ups g)" using assms by (simp add: hedge_inv_def)
  have new: "g_ups g ! ?n \<notin> set (take ?n (g_ups g))"
    using assms(1) n by (auto simp: hedge_inv_def in_set_conv_nth distinct_conv_nth)
  obtain r p1 where d: "dispatch (e_gunzip e) (e_hedge e ?n) (g_ups g ! ?n) (hs_pool st) = (r, p1)" by (metis surj_pair)
  have take: "take (Suc ?n) (g_ups g) = take ?n (g_ups g) @ [g_ups g ! ?n]" using n by (simp add: take_Suc_conv_app_nth)
  let ?H = "held_buffer (hs_pruning st) ++ flight_holds (hs_flight st)"
  have "?H (g_ups g ! ?n) = None"
    using assms(1) new held_buffer_other [of "hs_pruning st" "g_ups g ! ?n"] flight_holds_dom [of "hs_flight st" "g_ups g ! ?n"]
    by (auto simp: hedge_inv_def map_add_def split: option.splits)
  then have "acct p0 p1 (?H(g_ups g ! ?n \<mapsto> held_by r))" using acct_dispatch [OF _ _ d] assms(1) by (simp add: hedge_inv_def)
  moreover have "refused_ok r" using refused_token d by (cases r) (auto simp: refused_ok_def)
  ultimately show ?thesis using assms(1) n new d take
    by (auto simp: hedge_inv_def fire_def Let_def map_add_upd)
qed

text \<open>A result has been taken out of the flight: what the loop holds, and what upstream \<open>i\<close> is owed.\<close>

definition received :: "Pool \<Rightarrow> hedge_cfg \<Rightarrow> string \<Rightarrow> forwarded \<Rightarrow> hedge_state \<Rightarrow> bool" where
  "received p0 g i res st \<longleftrightarrow>
     (\<forall>p'. acct p0 p' (held_buffer (hs_pruning st) ++ flight_holds (hs_flight st)) \<longrightarrow> hedge_inv p0 g (st\<lparr>hs_pool := p'\<rparr>)) \<and>
     i \<notin> set (flight_ids (hs_flight st)) \<and> buffer_id (hs_pruning st) \<noteq> Some i \<and> i \<in> set (take (hs_fired st) (g_ups g)) \<and>
     distinct (flight_ids (hs_flight st)) \<and> (\<forall>j. buffer_id (hs_pruning st) = Some j \<longrightarrow> j \<notin> set (flight_ids (hs_flight st))) \<and>
     refused_ok res \<and>
     acct p0 (hs_pool st) ((held_buffer (hs_pruning st) ++ flight_holds (hs_flight st))(i \<mapsto> held_by res))"

lemma take_result:
  assumes "hedge_inv p0 g st" "map_of (hs_flight st) k = Some (i, res)"
  shows "received p0 g i res (st\<lparr>hs_flight := filter (\<lambda>x. fst x \<noteq> k) (hs_flight st)\<rparr>)"
proof -
  let ?fl = "filter (\<lambda>x. fst x \<noteq> k) (hs_flight st)"
  have d: "distinct (map fst (hs_flight st))" "distinct (flight_ids (hs_flight st))" using assms(1) by (simp_all add: hedge_inv_def)
  note rm = flight_remove [OF d assms(2)] and holds = flight_remove_holds [OF d assms(2)]
  have sub: "set (flight_ids ?fl) \<subseteq> set (flight_ids (hs_flight st))" "set (map fst ?fl) \<subseteq> set (map fst (hs_flight st))"
    by (auto simp: flight_ids_def)
  have "distinct (flight_ids ?fl)" "distinct (map fst ?fl)" using d by (auto simp: flight_ids_def distinct_map_filter)
  moreover have "acct p0 (hs_pool st) ((held_buffer (hs_pruning st) ++ flight_holds ?fl)(i \<mapsto> held_by res))"
    using assms(1) holds by (simp add: hedge_inv_def)
  moreover have "refused_ok res" using assms map_of_SomeD [OF assms(2)] by (auto simp: hedge_inv_def list_all_iff)
  ultimately show ?thesis using assms(1) rm sub by (auto simp: received_def hedge_inv_def list_all_iff)
qed

lemma on_result_acct:
  assumes "received p0 g i res st"
  shows "(\<forall>out p'. on_result e q g k i res st = Returns out p' \<longrightarrow> acct p0 p' (owed_by out)) \<and>
    (\<forall>st'. on_result e q g k i res st = Loops st' \<longrightarrow>
       hedge_inv p0 g st' \<and> hs_flight st' = hs_flight st \<and> hs_fired st' = hs_fired st)"
proof -
  let ?H = "held_buffer (hs_pruning st) ++ flight_holds (hs_flight st)" and ?p = "hs_pool st"
  note r = assms [unfolded received_def]
  have free: "?H i = None" using r held_buffer_other [of "hs_pruning st" i] flight_holds_dom [of "hs_flight st" i]
    by (auto simp: map_add_def)
  have undo: "?H(i \<mapsto> h, i := None) = ?H" for h using free by (simp add: fun_upd_idem)
  have inv: "hedge_inv p0 g st'"
    if "acct p0 (hs_pool st') ?H" "hs_fired st' = hs_fired st" "hs_flight st' = hs_flight st" "hs_pruning st' = hs_pruning st" for st'
    using conjunct1 [OF r, rule_format, OF that(1)] that by (auto simp: hedge_inv_def)
  obtain x tok where res: "res = (x, tok)" by force
  show ?thesis
  proof (cases x)
    case (Inl err)
    have one: "acct p0 ?p (?H(i \<mapsto> (None, tok)))" using r res Inl by (simp add: held_by_def)
    have "acct p0 (settle_at i t out tok ?p) ?H" "acct p0 (upd_up i (recordUpstreamFailure t tok path) ?p) ?H" for t out path
      using acct_settle [OF one, of i tok t out] acct_failure [OF one, of i tok t path] undo by simp_all
    moreover have "acct p0 ?p ?H" if "err = CircuitUnavailable"
      using acct_forget [of p0 ?p "?H(i \<mapsto> (None, tok))" i] one r that res Inl undo by (simp add: refused_ok_def)
    ultimately show ?thesis by (auto simp: on_result_def Let_def res Inl intro!: inv)
  next
    case (Inr y)
    obtain resp b where y: "y = (resp, b)" by force
    have one: "acct p0 ?p (?H(i \<mapsto> (Some b, tok)))" using r res Inr y by (simp add: held_by_def)
    have failed: "acct p0 (upd_up i (recordUpstreamFailure t tok path) (close_at i b ?p)) ?H" for t path
      using acct_close_failure [OF one, of i b tok t path] undo by simp
    have dropped: "acct p0 (upd_up i (RecordResponseStatus t' s) (drop_at i t out b tok ?p)) ?H" for t t' s out
      using acct_neutral [OF acct_drop [OF one, of i b tok t out] neutral_records(3)] undo by simp
    have buffered: "hedge_inv p0 g (st\<lparr>hs_pruning := Some (resp', b, i, tok), hs_tried := tr,
        hs_pool := upd_up i (RecordResponseStatus t s) ?p\<rparr>)" if "hs_pruning st = None" for resp' tr t s
    proof -
      have "[i \<mapsto> (Some b, tok)] ++ flight_holds (hs_flight st) = ?H(i \<mapsto> (Some b, tok))"
        using r that flight_holds_dom [of "hs_flight st" i] by (auto simp: map_add_def fun_eq_iff split: option.splits)
      moreover have "\<exists>p'. hedge_inv p0 g (st\<lparr>hs_pool := p'\<rparr>)" using inv [of "st\<lparr>hs_pool := _\<rparr>"] failed by fastforce
      ultimately show ?thesis using acct_neutral [OF one neutral_records(3)] r that by (auto simp: hedge_inv_def)
    qed
    have won: "acct p0 (dropBuffered t (hs_pruning st) (drainResults e (hs_flight st) ?p)) [i \<mapsto> (Some b, tok)]" for t
    proof -
      have "?H(i \<mapsto> (Some b, tok)) = (held_buffer (hs_pruning st) ++ [i \<mapsto> (Some b, tok)]) ++ flight_holds (hs_flight st)"
        using r flight_holds_dom [of "hs_flight st" i] by (auto simp: map_add_def fun_eq_iff split: option.splits)
      moreover have "\<forall>j \<in> set (flight_ids (hs_flight st)). (held_buffer (hs_pruning st) ++ [i \<mapsto> (Some b, tok)]) j = None"
        using r held_buffer_other by (fastforce simp: map_add_def)
      ultimately have "acct p0 (drainResults e (hs_flight st) ?p) (held_buffer (hs_pruning st) ++ [i \<mapsto> (Some b, tok)])"
        using drain_acct one r by simp
      then show ?thesis using r by (intro acct_dropBuffered) auto
    qed
    show ?thesis using failed dropped buffered won
      by (auto simp: on_result_def Let_def res Inr y split: prod.splits option.splits if_splits intro!: inv)
  qed
qed

lemma hedge_abandon_acct:
  assumes "hedge_inv p0 g st"
  shows "acct p0 (dropBuffered t (hs_pruning st) (drainResults e (hs_flight st) (hs_pool st))) Map.empty"
proof -
  have "\<forall>i \<in> set (flight_ids (hs_flight st)). held_buffer (hs_pruning st) i = None"
    using assms held_buffer_other by (simp add: hedge_inv_def) blast
  then have "acct p0 (drainResults e (hs_flight st) (hs_pool st)) (held_buffer (hs_pruning st))"
    using assms drain_acct by (simp add: hedge_inv_def)
  then show ?thesis by (intro acct_dropBuffered) simp_all
qed

lemma hedge_receive_acct:
  assumes "hedge_inv p0 g st"
  shows "(\<forall>out p'. hedge_step e q g (EvResult k) st = Returns out p' \<longrightarrow> acct p0 p' (owed_by out)) \<and>
    (\<forall>st'. hedge_step e q g (EvResult k) st = Loops st' \<longrightarrow> hedge_inv p0 g st')"
proof (cases "map_of (hs_flight st) k")
  case None
  then show ?thesis using assms by (auto simp: hedge_step_def)
next
  case (Some x)
  obtain i res where x: "x = (i, res)" by (cases x)
  have "hedge_step e q g (EvResult k) st = on_result e q g k i res (st\<lparr>hs_flight := filter (\<lambda>x. fst x \<noteq> k) (hs_flight st)\<rparr>)"
    by (simp add: hedge_step_def Some x)
  then show ?thesis using on_result_acct [OF take_result [OF assms Some [unfolded x]], of e q k] by metis
qed

lemma hedge_step_acct:
  assumes "hedge_inv p0 g st"
  shows "hedge_step e q g ev st = Returns out p' \<Longrightarrow> acct p0 p' (owed_by out)"
    "hedge_step e q g ev st = Loops st' \<Longrightarrow> hedge_inv p0 g st'"
proof -
  show "hedge_step e q g ev st = Returns out p' \<Longrightarrow> acct p0 p' (owed_by out)"
    using hedge_receive_acct [OF assms] hedge_abandon_acct [OF assms] by (cases ev) (auto simp: hedge_step_def [of _ _ _ EvTimer] hedge_step_def [of _ _ _ EvDone])
  show "hedge_step e q g ev st = Loops st' \<Longrightarrow> hedge_inv p0 g st'"
    using hedge_receive_acct [OF assms] fire_inv [OF assms] assms
    by (cases ev) (auto simp: hedge_step_def [of _ _ _ EvTimer] hedge_step_def [of _ _ _ EvDone] split: if_splits)
qed

lemma hedge_finish_acct:
  assumes "hedge_inv p0 g st" "hs_flight st = []" "hedge_finish e q g st = (out, p')"
  shows "acct p0 p' (owed_by out)"
proof (cases "hs_pruning st")
  case None
  then show ?thesis using assms by (auto simp: hedge_finish_def hedge_inv_def)
next
  case (Some x)
  obtain resp b i tok where x: "x = (resp, b, i, tok)" using prod_cases4 by blast
  have one: "acct p0 (hs_pool st) [i \<mapsto> (Some b, tok)]" using assms(1,2) Some x by (simp add: hedge_inv_def)
  have clean: "acct p0 (settle_at i t o' tok (close_at i b (hs_pool st))) Map.empty" for t o'
    using acct_settle [OF acct_close [OF one, of i b tok], of i tok t o'] by simp
  have empty: "acct p0 p [i \<mapsto> (None, zeroToken)]" if "acct p0 p Map.empty" for p
    using that by (auto simp: acct_def standing_def owes_def give_back_simps settle_tok_def)
  let ?body = "readAndFinalizeResponseBody (q_method q) resp (q_maxResponseBytes q)"
  obtain res p2 where pr: "promoteToArchive e q (hs_tried st) (max (int (g_maxFire g)) (MaxAttempts (q_fs q)))
      (settle_at i (e_now e 1) (case ?body of Inl _ \<Rightarrow> cbSettleFailure | Inr _ \<Rightarrow> cbSettleSuccess) tok (close_at i b (hs_pool st))) = (res, p2)"
    by (metis surj_pair)
  note promoted = promote_acct [OF clean pr]
  show ?thesis
  proof (cases res)
    case None
    then show ?thesis using assms(3) promoted empty pr by (auto simp: hedge_finish_def Some x Let_def split: sum.splits)
  next
    case (Some out')
    then show ?thesis using assms(3) promoted pr \<open>hs_pruning st = Some x\<close> by (simp add: hedge_finish_def x Let_def)
  qed
qed

lemma hedge_loop_acct:
  "hedge_inv p0 g st \<Longrightarrow> hedge_loop e q g evs st = Some (out, p') \<Longrightarrow> acct p0 p' (owed_by out)"
proof (induction e q g evs st rule: hedge_loop.induct)
  case (1 e q g st)
  then show ?case using hedge_finish_acct by (auto split: if_splits)
next
  case (2 e q g ev evs st)
  show ?case
  proof (cases "hs_flight st = [] \<and> g_maxFire g \<le> hs_fired st")
    case True
    then show ?thesis using 2(2,3) hedge_finish_acct by auto
  next
    case False
    then show ?thesis using 2 hedge_step_acct [OF 2(2)] by (cases "hedge_step e q g ev st") auto
  qed
qed

lemma hedge_start_inv:
  assumes "acct p0 p Map.empty" "distinct (g_ups g)" "0 < g_maxFire g" "g_maxFire g \<le> length (g_ups g)"
  shows "hedge_inv p0 g (fire e g \<lparr>hs_pool = p, hs_fired = 0, hs_flight = [], hs_pruning = None, hs_tried = tr, hs_lastErr = err\<rparr>)"
  using assms by (intro fire_inv) (auto simp: hedge_inv_def)

lemma hedge_setup_inv:
  assumes "acct p0 p Map.empty" "distinct ups" "1 < length ups" "0 \<le> hd_MaxCount hedge" "hedge_setup e hedge ups pref biased p = (g, st)"
  shows "hedge_inv p0 g st" "g_maxFire g = nat (min (hd_MaxCount hedge + 1) (int (length ups)))" "hs_fired st = 1" "length (hs_flight st) = 1"
proof -
  let ?m = "min (hd_MaxCount hedge + 1) (int (length ups))"
  let ?g = "\<lparr>g_ups = ensurePreferredUpstreamFirst (e_now e 1) p ups pref ?m, g_maxFire = nat ?m, g_archiveBiased = biased\<rparr>"
  have "hedge_inv p0 ?g (fire e ?g \<lparr>hs_pool = p, hs_fired = 0, hs_flight = [], hs_pruning = None, hs_tried = [], hs_lastErr = None\<rparr>)"
    using assms(3,4) prefer_ok(2) [OF assms(2), of ?m "e_now e 1" p pref]
    by (intro hedge_start_inv assms(1)) (auto simp: prefer_ok(1) [OF assms(2)])
  then show "hedge_inv p0 g st" using assms(5) by (auto simp: hedge_setup_def Let_def)
  show "g_maxFire g = nat ?m" using assms(5) by (auto simp: hedge_setup_def Let_def)
  show "hs_fired st = 1" "length (hs_flight st) = 1" using assms(5) by (auto simp: hedge_setup_def Let_def fire_def split: prod.splits)
qed

lemma hedge_acct:
  assumes "acct p0 p Map.empty" "distinct ups" "1 < length ups" "0 \<le> hd_MaxCount hedge"
    and "executeHedgeFS e q hedge ups pref biased p = Some (out, p')"
  shows "acct p0 p' (owed_by out)"
proof -
  obtain g st where s: "hedge_setup e hedge ups pref biased p = (g, st)" by (metis surj_pair)
  then have "hedge_loop e q g (e_events e) st = Some (out, p')" using assms(5) by (simp add: executeHedgeFS_def)
  then show ?thesis by (rule hedge_loop_acct [OF hedge_setup_inv(1) [OF assms(1-4) s]])
qed


section \<open>The loop ends\<close>

text \<open>
  An event is due if it can occur: a result only once its attempt is in flight, the timer only while it is armed.
  Every due event uses up one of the results still to come or one of the attempts still to be fired.
\<close>

definition due :: "hedge_cfg \<Rightarrow> hedge_event \<Rightarrow> hedge_state \<Rightarrow> bool" where
  "due g ev st =
     (case ev of
        EvResult k \<Rightarrow> map_of (hs_flight st) k \<noteq> None
      | EvTimer \<Rightarrow> hs_fired st < g_maxFire g
      | EvDone \<Rightarrow> True)"

fun all_due :: "env \<Rightarrow> seq_cfg \<Rightarrow> hedge_cfg \<Rightarrow> hedge_event list \<Rightarrow> hedge_state \<Rightarrow> bool" where
  "all_due e q g [] st = True"
| "all_due e q g (ev # evs) st =
     (due g ev st \<and> (case hedge_step e q g ev st of Returns _ _ \<Rightarrow> True | Loops st' \<Rightarrow> all_due e q g evs st'))"

definition work_left :: "hedge_cfg \<Rightarrow> hedge_state \<Rightarrow> nat" where
  "work_left g st = 2 * (g_maxFire g - hs_fired st) + length (hs_flight st)"

lemma hedge_progress:
  assumes "hedge_inv p0 g st" "due g ev st" "hedge_step e q g ev st = Loops st'"
  shows "work_left g st' < work_left g st"
proof (cases ev)
  case (EvResult k)
  then obtain i res where m: "map_of (hs_flight st) k = Some (i, res)" using assms(2) by (auto simp: due_def)
  let ?st = "st\<lparr>hs_flight := filter (\<lambda>x. fst x \<noteq> k) (hs_flight st)\<rparr>"
  have "on_result e q g k i res ?st = Loops st'" using assms(3) by (simp add: hedge_step_def EvResult m)
  then have "hs_flight st' = hs_flight ?st \<and> hs_fired st' = hs_fired ?st"
    using on_result_acct [OF take_result [OF assms(1) m], of e q k] by blast
  moreover have "length (filter (\<lambda>x. fst x \<noteq> k) (hs_flight st)) < length (hs_flight st)"
    using flight_remove(3) [OF _ _ m] assms(1) by (simp add: hedge_inv_def)
  ultimately show ?thesis by (simp add: work_left_def)
next
  case EvTimer
  then have "st' = fire e g st" "hs_fired st < g_maxFire g" using assms(2,3) by (auto simp: due_def hedge_step_def)
  then show ?thesis by (auto simp: work_left_def fire_def Let_def split: prod.splits)
qed (use assms(3) in \<open>simp add: hedge_step_def\<close>)

lemma hedge_loop_ends:
  "hedge_inv p0 g st \<Longrightarrow> all_due e q g evs st \<Longrightarrow> work_left g st \<le> length evs \<Longrightarrow> \<exists>r. hedge_loop e q g evs st = Some r"
proof (induction e q g evs st rule: hedge_loop.induct)
  case (2 e q g ev evs st)
  show ?case
  proof (cases "hedge_step e q g ev st")
    case (Loops st')
    then have "work_left g st' < work_left g st" using hedge_progress [OF 2(2) _ Loops] 2(3) by simp
    then show ?thesis using 2 Loops hedge_step_acct(2) [OF 2(2) Loops] by auto
  qed auto
qed (auto simp: work_left_def)

text \<open>C11. A hedged request ends: whatever order results, timer and cancellation come in, once two events per attempt but
  one have occurred that could occur, the loop has returned.  Then every attempt fired has its body closed and its
  breaker token settled, except for the response handed on.
\<close>

theorem hedge_returns:
  assumes "pool_ok p" "distinct ups" "1 < length ups" "0 \<le> hd_MaxCount hedge"
    and "hedge_setup e hedge ups pref biased p = (g, st)" "all_due e q g (e_events e) st" "2 * g_maxFire g - 1 \<le> length (e_events e)"
  shows "\<exists>out p'. executeHedgeFS e q hedge ups pref biased p = Some (out, p') \<and> acct p p' (owed_by out)"
proof -
  note start = hedge_setup_inv [OF acct_refl [OF assms(1)] assms(2-5)]
  have "0 < g_maxFire g" using start(2) assms(3,4) by auto
  then have "work_left g st \<le> length (e_events e)" using start(3,4) assms(7) by (simp add: work_left_def)
  then obtain out p' where "hedge_loop e q g (e_events e) st = Some (out, p')"
    using hedge_loop_ends [OF start(1) assms(6)] by auto
  then show ?thesis using hedge_loop_acct [OF start(1)] assms(5) by (auto simp: executeHedgeFS_def)
qed

definition hedgeOnce :: HedgeConfig where
  "hedgeOnce = \<lparr>hd_Delay = 100 * millisecond, hd_MaxCount = 1\<rparr>"

definition overtaken :: env where
  "overtaken = (quietEnv failsOnce)\<lparr>e_events := [EvTimer, EvResult 0, EvResult 1]\<rparr>"

lemma overtaken_due:
  "case hedge_setup overtaken hedgeOnce [''a'', ''b''] [] False sampleThree of
     (g, st) \<Rightarrow> all_due overtaken (sampleSeq ''/eth/v1/node/version'') g (e_events overtaken) st \<and> g_maxFire g = 2"
  by code_simp

lemma hedge_returns_witness:
  "\<exists>out p'. executeHedgeFS overtaken (sampleSeq ''/eth/v1/node/version'') hedgeOnce [''a'', ''b''] [] False sampleThree = Some (out, p') \<and>
     acct sampleThree p' (owed_by out)"
proof -
  obtain g st where s: "hedge_setup overtaken hedgeOnce [''a'', ''b''] [] False sampleThree = (g, st)" by (metis surj_pair)
  then have "all_due overtaken (sampleSeq ''/eth/v1/node/version'') g (e_events overtaken) st" "g_maxFire g = 2"
    using overtaken_due by simp_all
  moreover have "length (e_events overtaken) = 3" by (simp add: overtaken_def)
  ultimately show ?thesis by (intro hedge_returns [OF sampleThree_ok _ _ _ s]) (simp_all add: hedgeOnce_def)
qed

lemma hedge_wins:
  "(case executeHedgeFS overtaken (sampleSeq ''/eth/v1/node/version'') hedgeOnce [''a'', ''b''] [] False sampleThree of
      Some (Served resp _ j _, _) \<Rightarrow> StatusCode resp = 200 \<and> j = ''b''
    | _ \<Rightarrow> False)"
  by code_simp

end
