(* ===== verification/Execute.thy ===== *)
theory Execute
  imports Hedge
begin

text \<open>
  \<open>executeFS\<close> of \<open>src/network/network.go\<close>: which dispatcher a request goes through.  A required selector has its own; the
  others start from a selection that is archive-only when the target is demonstrably past retention, that prefers
  the upstreams at the canonical head when the path names a moving slot, and pass through consensus, hedging and the
  retry loop, in this order.

  The failsafe timeout is part of the request context and so of the environment: it shows as a context that ends or
  as a transport error.  The value is \<open>None\<close> while a hedged request is still waiting.
\<close>

definition proactive_archive :: "Pool \<Rightarrow> HistoricalTarget \<Rightarrow> bool" where
  "proactive_archive p target \<longleftrightarrow> hasArchive p \<and> RequiresArchive target (MaxSlot (blockCache p)) (SlotsPerEpoch p)"

text \<open>A preference for an upstream that is no archive is dropped for a request that needs one.\<close>

definition kept_preference :: "Pool \<Rightarrow> bool \<Rightarrow> string \<Rightarrow> string" where
  "kept_preference p proactive preferID =
     (if proactive \<and> preferID \<noteq> [] then
        (case ByID p preferID of None \<Rightarrow> [] | Some pu \<Rightarrow> if IsArchive pu then preferID else [])
      else preferID)"

text \<open>The selection in force, the \<open>k\<close>-th of this request; \<open>None\<close> is the panic on a negative count.\<close>

definition select_for ::
  "env \<Rightarrow> nat \<Rightarrow> bool \<Rightarrow> bool \<Rightarrow> string \<Rightarrow> int \<Rightarrow> Pool \<Rightarrow> (string list \<times> Pool) option" where
  "select_for e k proactive preferHead apiPath n p =
     (if n < 0 then None
      else Some (map_prod (map u_ID) id
        (if proactive then SelectForPathArchive (e_tokens e) (e_now e k) p apiPath (nat n)
         else if preferHead then SelectForPathPreferCanonicalHead (e_tokens e) (e_now e k) p apiPath (nat n)
         else SelectForPath (e_tokens e) (e_now e k) p apiPath (nat n))))"

definition run_sequential :: "env \<Rightarrow> seq_cfg \<Rightarrow> bool \<Rightarrow> bool \<Rightarrow> string \<Rightarrow> Pool \<Rightarrow> outcome \<times> Pool" where
  "run_sequential e q proactive preferHead preferID p =
     (case select_for e 2 proactive preferHead (q_apiPath q) (MaxAttempts (q_fs q)) p of
        None \<Rightarrow> (Panicked, p)
      | Some (ups, p1) \<Rightarrow>
          if ups = [] then (Failed NoUpstreams, p1)
          else case seq_loop e q 0 (ensurePreferredUpstreamFirst (e_now e 2) p1 ups preferID (MaxAttempts (q_fs q))) proactive [] None p1 of
                 (out, _, p2) \<Rightarrow> (out, p2))"

definition run_hedged :: "env \<Rightarrow> seq_cfg \<Rightarrow> bool \<Rightarrow> bool \<Rightarrow> string \<Rightarrow> Pool \<Rightarrow> (outcome \<times> Pool) option" where
  "run_hedged e q proactive preferHead preferID p =
     (case fs_Hedge (q_fs q) of
        None \<Rightarrow> Some (run_sequential e q proactive preferHead preferID p)
      | Some hedge \<Rightarrow>
          (case select_for e 1 proactive preferHead (q_apiPath q) (hd_MaxCount hedge + 1) p of
             None \<Rightarrow> Some (Panicked, p)
           | Some (ups, p1) \<Rightarrow>
               if length ups > 1 then executeHedgeFS e q hedge ups preferID proactive p1
               else Some (run_sequential e q proactive preferHead preferID p1)))"

definition run_consensus ::
  "env \<Rightarrow> seq_cfg \<Rightarrow> ConsensusPolicy option \<Rightarrow> bool \<Rightarrow> bool \<Rightarrow> string \<Rightarrow> Pool \<Rightarrow> (outcome \<times> Pool) option" where
  "run_consensus e q consensus proactive preferHead preferID p =
     (case consensus of
        None \<Rightarrow> run_hedged e q proactive preferHead preferID p
      | Some cp \<Rightarrow>
          (case select_for e 0 proactive preferHead (q_apiPath q) (MaxParticipants cp) p of
             None \<Rightarrow> Some (Panicked, p)
           | Some (ups, p1) \<Rightarrow>
               if int (length ups) \<ge> AgreementThreshold cp then
                 (case consensus_Execute (e_sha e) (e_cons e) cp ups p1 of
                    (Inr (resp, i), p2) \<Rightarrow> Some (Served resp None i zeroToken, p2)
                  | (Inl (ConsensusGated a b c), p2) \<Rightarrow> run_hedged e q proactive preferHead preferID p2
                  | (Inl err, p2) \<Rightarrow> Some (Failed (ConsensusFailed err), p2))
               else run_hedged e q proactive preferHead preferID p1))"

definition executeFS ::
  "env \<Rightarrow> ConsensusPolicy option \<Rightarrow> int \<Rightarrow> string \<Rightarrow> string \<Rightarrow> string \<Rightarrow> Selector \<Rightarrow> FailsafeConfig \<Rightarrow> string \<Rightarrow> Pool \<Rightarrow> (outcome \<times> Pool) option" where
  "executeFS e consensus maxResponseBytes method path preferID required fs apiPath p =
     (let target = classifyHistoricalTarget path;
          q = \<lparr>q_fs = fs, q_apiPath = apiPath, q_target = target, q_method = method, q_maxResponseBytes = maxResponseBytes\<rparr>
      in if Enabled required then Some (executeSelectedFS e q required p)
         else let proactive = proactive_archive p target
              in run_consensus e q consensus proactive (pathHasNamedSlotID path) (kept_preference p proactive preferID) p)"


section \<open>Accounts of the whole dispatch\<close>

lemma select_for_acct:
  assumes "acct p0 p H" "select_for e k proactive preferHead path n p = Some (ups, p')"
  shows "acct p0 p' H" "distinct ups" "int (length ups) \<le> n"
proof -
  obtain us where us: "ups = map u_ID us" and n: "0 \<le> n" and sel:
    "(if proactive then SelectForPathArchive (e_tokens e) (e_now e k) p path (nat n)
      else if preferHead then SelectForPathPreferCanonicalHead (e_tokens e) (e_now e k) p path (nat n)
      else SelectForPath (e_tokens e) (e_now e k) p path (nat n)) = (us, p')"
    using assms(2) by (auto simp: select_for_def map_prod_def split: if_splits prod.splits)
  show "acct p0 p' H" using acct_selection(1,2,4) [OF assms(1)] sel by (auto split: if_splits)
  have "distinct (map u_ID us) \<and> length us \<le> nat n"
    using selection_ids(1,2,4) [OF acct_ids [OF assms(1)]] sel by (auto split: if_splits)
  then show "distinct ups" "int (length ups) \<le> n" using us n by auto
qed

lemma run_sequential_acct:
  assumes "acct p0 p Map.empty" "run_sequential e q proactive preferHead preferID p = (out, p')"
  shows "acct p0 p' (owed_by out)"
proof (cases "select_for e 2 proactive preferHead (q_apiPath q) (MaxAttempts (q_fs q)) p")
  case None
  then show ?thesis using assms by (auto simp: run_sequential_def)
next
  case (Some x)
  obtain ups p1 where x: "x = (ups, p1)" by force
  note ok = select_for_acct(1) [OF assms(1) Some [unfolded x]]
  show ?thesis using assms(2) Some x ok seq_acct [OF ok] by (auto simp: run_sequential_def split: if_splits prod.splits)
qed

lemma run_hedged_acct:
  assumes "acct p0 p Map.empty" "run_hedged e q proactive preferHead preferID p = Some (out, p')"
  shows "acct p0 p' (owed_by out)"
proof (cases "fs_Hedge (q_fs q)")
  case None
  then show ?thesis using assms run_sequential_acct by (auto simp: run_hedged_def)
next
  case (Some hedge)
  show ?thesis
  proof (cases "select_for e 1 proactive preferHead (q_apiPath q) (hd_MaxCount hedge + 1) p")
    case None
    then show ?thesis using assms Some by (auto simp: run_hedged_def)
  next
    case sel: (Some x)
    obtain ups p1 where x: "x = (ups, p1)" by force
    note ok = select_for_acct [OF assms(1) sel [unfolded x]]
    show ?thesis
    proof (cases "1 < length ups")
      case True
      then have "executeHedgeFS e q hedge ups preferID proactive p1 = Some (out, p')" using assms(2) Some sel x by (simp add: run_hedged_def)
      moreover have "0 \<le> hd_MaxCount hedge" using True ok(3) by linarith
      ultimately show ?thesis using hedge_acct [OF ok(1,2) True] by blast
    next
      case False
      then show ?thesis using assms(2) Some sel x run_sequential_acct [OF ok(1)] by (simp add: run_hedged_def)
    qed
  qed
qed

lemma acct_none_held: "acct p0 p Map.empty \<Longrightarrow> acct p0 p [i \<mapsto> (None, zeroToken)]"
  by (auto simp: acct_def standing_def owes_def give_back_simps settle_tok_def)

lemma run_consensus_acct:
  assumes "acct p0 p Map.empty" "run_consensus e q consensus proactive preferHead preferID p = Some (out, p')"
  shows "acct p0 p' (owed_by out)"
proof (cases consensus)
  case None
  then show ?thesis using assms run_hedged_acct by (auto simp: run_consensus_def)
next
  case (Some cp)
  show ?thesis
  proof (cases "select_for e 0 proactive preferHead (q_apiPath q) (MaxParticipants cp) p")
    case None
    then show ?thesis using assms Some by (auto simp: run_consensus_def)
  next
    case sel: (Some x)
    obtain ups p1 where x: "x = (ups, p1)" by force
    obtain r p2 where c: "consensus_Execute (e_sha e) (e_cons e) cp ups p1 = (r, p2)" by (metis surj_pair)
    have one: "acct p0 p1 Map.empty" using select_for_acct(1) [OF assms(1) sel [unfolded x]] .
    then have two: "acct p0 p2 Map.empty" using consensus_acct c by blast
    show ?thesis using assms(2) Some sel x c run_hedged_acct [OF one] run_hedged_acct [OF two] two acct_none_held [OF two]
      by (auto simp: run_consensus_def split: if_splits sum.splits consensus_error.splits)
  qed
qed

lemma execute_acct:
  assumes "acct p0 p Map.empty" "executeFS e consensus cap method path preferID required fs apiPath p = Some (out, p')"
  shows "acct p0 p' (owed_by out)"
  using assms selected_acct [OF assms(1)] run_consensus_acct [OF assms(1)] by (auto simp: executeFS_def Let_def split: if_splits)

text \<open>The pool once the consumer of the outcome has closed the body and settled the token it was handed.\<close>

definition consumed :: "time \<Rightarrow> cbOutcome \<Rightarrow> outcome \<Rightarrow> Pool \<Rightarrow> Pool" where
  "consumed t o' out p = (case out of Served _ b i tok \<Rightarrow> upd_up i (give_back t o' (b, tok)) p | _ \<Rightarrow> p)"

lemma consumed_acct: "acct p0 p (owed_by out) \<Longrightarrow> acct p0 (consumed t o' out p) Map.empty"
proof (cases out)
  case (Served resp b i tok)
  assume "acct p0 p (owed_by out)"
  then show ?thesis using acct_give_back [of p0 p "[i \<mapsto> (b, tok)]" i "(b, tok)" t o'] Served by (simp add: consumed_def)
qed (simp_all add: consumed_def)

lemma acct_balanced:
  assumes "acct p0 p Map.empty"
  shows "list_all2 balanced (upstreams p0) (upstreams p)"
proof -
  have ids: "map u_ID (upstreams p) = map u_ID (upstreams p0)" "distinct (map u_ID (upstreams p0))"
    using assms by (auto simp: acct_def pool_ok_def ids_ok_def)
  have find: "ByID x (u_ID (upstreams x ! k)) = Some (upstreams x ! k)" if "k < length (upstreams x)" "distinct (map u_ID (upstreams x))" for x k
    using that by (auto simp: ByID_def find_Some_iff distinct_conv_nth intro!: exI [of _ k])
  have len: "length (upstreams p) = length (upstreams p0)" using ids(1) by (metis length_map)
  have "balanced (upstreams p0 ! k) (upstreams p ! k)" if k: "k < length (upstreams p0)" for k
  proof -
    have "u_ID (upstreams p ! k) = u_ID (upstreams p0 ! k)" using ids(1) k len by (metis nth_map)
    moreover have "ByID p (u_ID (upstreams p ! k)) = Some (upstreams p ! k)" using find [of k p] k len ids by simp
    ultimately have "ByID p (u_ID (upstreams p0 ! k)) = Some (upstreams p ! k)" by simp
    then show ?thesis using assms find [OF k ids(2)] by (force simp: acct_def standing_def)
  qed
  then show ?thesis using len by (simp add: list_all2_conv_all_nth)
qed

text \<open>C10. Dispatch leaks nothing: whatever path a request takes - a required selector, consensus, hedging in any order of
  events, retries with promotion to archives - once the response it returns has been closed and its breaker token
  settled, every upstream of the pool has exactly the active connections it had, its recovery probe is as free or as
  taken as before, its breaker invariant holds, and no upstream has been added, dropped or moved.
\<close>

theorem dispatch_leaks_nothing:
  assumes "pool_ok p" "executeFS e consensus cap method path preferID required fs apiPath p = Some (out, p')"
  shows "list_all2 balanced (upstreams p) (upstreams (consumed t o' out p'))"
  using acct_balanced [OF consumed_acct [OF execute_acct [OF acct_refl [OF assms(1)] assms(2)]]] .

lemma hedged_sample:
  "executeFS overtaken None 0 ''GET'' ''/eth/v1/node/version'' [] \<lparr>sel_ID = [], sel_ClientType = [], sel_Glob = []\<rparr>
     (retryTwice\<lparr>fs_Hedge := Some hedgeOnce\<rparr>) ''/eth/v1/node/version'' sampleThree \<noteq> None"
  by code_simp

lemma dispatch_leaks_nothing_witness:
  "\<exists>out p'. executeFS overtaken None 0 ''GET'' ''/eth/v1/node/version'' [] \<lparr>sel_ID = [], sel_ClientType = [], sel_Glob = []\<rparr>
      (retryTwice\<lparr>fs_Hedge := Some hedgeOnce\<rparr>) ''/eth/v1/node/version'' sampleThree = Some (out, p') \<and>
    list_all2 balanced (upstreams sampleThree) (upstreams (consumed 0 cbSettleSuccess out p'))"
proof -
  obtain out p' where x: "executeFS overtaken None 0 ''GET'' ''/eth/v1/node/version'' [] \<lparr>sel_ID = [], sel_ClientType = [], sel_Glob = []\<rparr>
      (retryTwice\<lparr>fs_Hedge := Some hedgeOnce\<rparr>) ''/eth/v1/node/version'' sampleThree = Some (out, p')" using hedged_sample by fastforce
  then show ?thesis using dispatch_leaks_nothing [OF sampleThree_ok x] by blast
qed


section \<open>Panics\<close>

text \<open>The slice expression of the selection is the only step that can panic.\<close>

lemma seq_loop_no_panic: "fst (seq_loop e q i ups biased tried lastErr p) \<noteq> Panicked"
proof (induction e q i ups biased tried lastErr p rule: seq_loop.induct)
  case (2 e q i j rest biased tried lastErr p)
  have "seq_body e q i j rest biased p \<noteq> Stop Panicked p1" for p1
    by (auto simp: seq_body_def Let_def split: prod.splits sum.splits if_splits)
  then show ?case using 2 by (auto split: seq_next.splits)
qed simp

lemma candidates_no_panic: "fst (candidates_loop e q sel i ups buf lastErr p) \<noteq> Panicked"
proof (induction e q sel i ups buf lastErr p rule: candidates_loop.induct)
  case (2 e q sel i j rest buf lastErr p)
  have "cand_body e q i j others buf p \<noteq> StopC Panicked p1" for others p1
    by (auto simp: cand_body_def Let_def split: prod.splits sum.splits if_splits)
  then show ?case using 2 by (auto split: cand_next.splits)
qed (auto split: option.splits)

lemma archive_no_panic: "fst (archive_loop e q tried i ups p) \<noteq> Some Panicked"
proof (induction e q tried i ups p rule: archive_loop.induct)
  case (2 e q tried i j rest p)
  have "fst (archive_body e q i j p) \<noteq> Some (Some Panicked)"
    by (auto simp: archive_body_def Let_def split: prod.splits sum.splits if_splits)
  then show ?case using 2 by (auto split: prod.splits option.splits)
qed simp

lemma hedge_loop_no_panic: "hedge_loop e q g evs st \<noteq> Some (Panicked, p)"
proof (induction e q g evs st rule: hedge_loop.induct)
  have fin: "hedge_finish e q g st \<noteq> (Panicked, p)" for e q g st
    using archive_no_panic by (auto simp: hedge_finish_def Let_def promoteToArchive_def split: option.splits prod.splits sum.splits) (metis fst_conv)+
  {
    case (1 e q g st)
    then show ?case using fin by simp
  next
    case (2 e q g ev evs st)
    have "hedge_step e q g ev st \<noteq> Returns Panicked p"
      by (auto simp: hedge_step_def on_result_def Let_def split: hedge_event.splits option.splits prod.splits sum.splits if_splits)
    then show ?case using 2 fin by (auto split: hedge_next.splits)
  }
qed

lemma run_sequential_no_panic: "0 \<le> MaxAttempts (q_fs q) \<Longrightarrow> fst (run_sequential e q proactive preferHead preferID p) \<noteq> Panicked"
  using seq_loop_no_panic by (auto simp: run_sequential_def select_for_def split: prod.splits) (metis fst_conv)+

lemma run_hedged_no_panic:
  assumes "0 \<le> MaxAttempts (q_fs q)" "case fs_Hedge (q_fs q) of None \<Rightarrow> True | Some h \<Rightarrow> -1 \<le> hd_MaxCount h"
  shows "run_hedged e q proactive preferHead preferID p \<noteq> Some (Panicked, p')"
  using assms run_sequential_no_panic [OF assms(1)] hedge_loop_no_panic
  by (auto simp: run_hedged_def select_for_def executeHedgeFS_def split: option.splits prod.splits if_splits) (metis fst_conv)+

lemma execute_no_panic:
  assumes "0 \<le> MaxAttempts fs" "case fs_Hedge fs of None \<Rightarrow> True | Some h \<Rightarrow> -1 \<le> hd_MaxCount h"
    and "case consensus of None \<Rightarrow> True | Some cp \<Rightarrow> 0 \<le> MaxParticipants cp"
  shows "executeFS e consensus cap method path preferID required fs apiPath p \<noteq> Some (Panicked, p')"
proof -
  let ?q = "\<lparr>q_fs = fs, q_apiPath = apiPath, q_target = classifyHistoricalTarget path, q_method = method, q_maxResponseBytes = cap\<rparr>"
  have "fst (executeSelectedFS e ?q required p) \<noteq> Panicked"
    using assms(1) candidates_no_panic by (auto simp: executeSelectedFS_def Let_def split: prod.splits sum.splits option.splits if_splits)
  moreover have "run_consensus e ?q consensus a b c p \<noteq> Some (Panicked, p')" for a b c
    using run_hedged_no_panic [of ?q] assms
    by (auto simp: run_consensus_def select_for_def split: option.splits prod.splits sum.splits consensus_error.splits if_splits)
  ultimately show ?thesis by (auto simp: executeFS_def Let_def)
qed

lemma negative_override_panics:
  "executeFS (quietEnv failsOnce) None 0 ''GET'' ''/eth/v1/node/version'' [] \<lparr>sel_ID = [], sel_ClientType = [], sel_Glob = []\<rparr>
     (retryTwice\<lparr>fs_Retry := Some \<lparr>rt_MaxAttempts = -1, rt_Delay = 0, rt_Backoff = 1, rt_Jitter = 0, rt_MaxDelay = 0\<rparr>\<rparr>)
     ''/eth/v1/node/version'' sampleThree = Some (Panicked, sampleThree)"
  by (simp add: executeFS_def Let_def Enabled_def run_consensus_def run_hedged_def run_sequential_def select_for_def retryTwice_def MaxAttempts_def)

end
