(* ===== verification/Response_Cache.thy ===== *)
theory Response_Cache
  imports Memory_Store
begin

text \<open>
  The response cache of \<open>src/cache/cache.go\<close>: compiled policies and the operations on top of a store, here
  the in-memory one.  Regular expressions are a parameter \<open>compile\<close> that gives the matcher of a pattern, or
  \<^const>\<open>None\<close> for a pattern that does not compile; the Redis client is another.

  The interface \<open>Store\<close> of \<open>src/cache/store.go\<close> is the locale \<open>response_store\<close>: what a lookup may return
  after each operation.  A store may forget entries at any time, but it must never return an entry other than
  the last one set under the key.  Inside the locale the cache is compared with an ideal one that never
  forgets; the in-memory store is an instance.
\<close>

section \<open>Policies\<close>

type_synonym matcher = "string \<Rightarrow> bool"

record policy =
  po_re :: matcher
  po_ttl :: duration
  po_methods :: "string list"

definition versioned :: "string \<Rightarrow> string" where
  "versioned rest = ''^/eth/v'' @ [CHR 0x5C] @ ''d+'' @ rest"

definition named_ids :: string where
  "named_ids = ''(head|finalized|justified)''"

definition default_policy :: "string \<Rightarrow> int \<Rightarrow> CachePolicy" where
  "default_policy rest secs = \<lparr>cp_Pattern = versioned rest, cp_TTL = secs * second, cp_Methods = []\<rparr>"

text \<open>The default policies for one state sub-resource: the named identifiers first, then the rest.\<close>

definition state_policies :: "string \<Rightarrow> int \<Rightarrow> CachePolicy list" where
  "state_policies rest secs =
     [default_policy (''/beacon/states/'' @ named_ids @ rest) 4, default_policy (''/beacon/states/[^/]+'' @ rest) secs]"

definition defaultPolicies :: "CachePolicy list" where
  "defaultPolicies =
     [default_policy ''/beacon/genesis$'' 0,
      default_policy ''/node/version$'' 3600, default_policy ''/node/identity$'' 3600,
      default_policy ''/node/peer_count$'' 15, default_policy ''/node/peers'' 30, default_policy ''/node/syncing$'' 5,
      default_policy ''/beacon/headers$'' 4, default_policy (''/beacon/headers/'' @ named_ids @ ''$'') 4,
      default_policy ''/beacon/headers/'' 12,
      default_policy (''/beacon/blocks/'' @ named_ids @ ''(/.*)?$'') 4,
      default_policy ''/beacon/blocks/[^/]+/root$'' 12, default_policy ''/beacon/blocks/[^/]+/attestations$'' 12,
      default_policy ''/beacon/blocks/'' 12,
      default_policy (''/beacon/blinded_blocks/'' @ named_ids @ ''(/.*)?$'') 4, default_policy ''/beacon/blinded_blocks/'' 12,
      default_policy (''/beacon/blobs/'' @ named_ids @ ''(/.*)?$'') 4, default_policy ''/beacon/blobs/'' 12,
      default_policy (''/beacon/blob_sidecars/'' @ named_ids @ ''(/.*)?$'') 4, default_policy ''/beacon/blob_sidecars/'' 12,
      default_policy (''/beacon/execution_payload_envelopes/'' @ named_ids @ ''$'') 4,
      default_policy ''/beacon/execution_payload_envelopes/[^/]+$'' 12,
      default_policy ''/beacon/rewards/blocks/[^/]+$'' 12, default_policy ''/beacon/rewards/sync_committee/[^/]+$'' 12,
      default_policy ''/beacon/rewards/attestations/[^/]+$'' 30] @
     state_policies ''/root$'' 12 @ state_policies ''/fork$'' 12 @ state_policies ''/finality_checkpoints$'' 12 @
     state_policies ''/validators(?:/[^/]+)?$'' 6 @ state_policies ''/validator_balances$'' 12 @
     state_policies ''/committees$'' 12 @ state_policies ''/sync_committees$'' 12 @
     state_policies ''/pending_deposits$'' 12 @ state_policies ''/pending_consolidations$'' 12 @
     state_policies ''/pending_partial_withdrawals$'' 12 @ state_policies ''/randao$'' 12 @
     state_policies ''/proposer_lookahead$'' 12 @
     [default_policy ''/validator/duties/proposer/[^/]+$'' 30]"

datatype cache_error = BadPattern string | RedisConfigRequired | RedisUnavailable

definition compile_policy :: "(string \<Rightarrow> matcher option) \<Rightarrow> CachePolicy \<Rightarrow> cache_error + policy" where
  "compile_policy compile p =
     (case compile (cp_Pattern p) of
        None \<Rightarrow> Inl (BadPattern (cp_Pattern p))
      | Some re \<Rightarrow>
          let methods = map ToUpper (cp_Methods p) in
          Inr \<lparr>po_re = re, po_ttl = cp_TTL p, po_methods = (if methods = [] then [''GET'', ''HEAD''] else methods)\<rparr>)"

fun compile_policies :: "(string \<Rightarrow> matcher option) \<Rightarrow> CachePolicy list \<Rightarrow> cache_error + policy list" where
  "compile_policies compile [] = Inr []"
| "compile_policies compile (p # ps) =
     (case compile_policy compile p of
        Inl e \<Rightarrow> Inl e
      | Inr q \<Rightarrow> (case compile_policies compile ps of Inl e \<Rightarrow> Inl e | Inr qs \<Rightarrow> Inr (q # qs)))"


section \<open>The cache\<close>

record 'st Cache =
  c_store :: 'st
  c_policies :: "policy list"

text \<open>The result of \<open>New\<close> holds one of the two stores.  \<open>connect\<close> stands for \<open>NewRedisStore\<close>, which
  pings the server and may fail.\<close>

definition NewCache ::
  "(string \<Rightarrow> matcher option) \<Rightarrow> (RedisCacheConfig \<Rightarrow> 'r option) \<Rightarrow> CacheConfig \<Rightarrow> cache_error + ('r + MemoryStore) Cache" where
  "NewCache compile connect cfg =
     (let ps = (if ca_Policies cfg = [] then defaultPolicies else ca_Policies cfg) in
      case compile_policies compile ps of
        Inl e \<Rightarrow> Inl e
      | Inr compiled \<Rightarrow>
          if ca_Driver cfg = ''redis'' then
            (case ca_Redis cfg of
               None \<Rightarrow> Inl RedisConfigRequired
             | Some rc \<Rightarrow>
                 (case connect rc of
                    None \<Rightarrow> Inl RedisUnavailable
                  | Some rs \<Rightarrow> Inr \<lparr>c_store = Inl rs, c_policies = compiled\<rparr>))
          else Inr \<lparr>c_store = Inr (NewMemoryStore (ca_MaxSize cfg)), c_policies = compiled\<rparr>)"

type_synonym mem_cache = "MemoryStore Cache"

definition Policy :: "'st Cache \<Rightarrow> string \<Rightarrow> string \<Rightarrow> policy option" where
  "Policy c method path =
     (let upper = ToUpper method in find (\<lambda>p. upper \<in> set (po_methods p) \<and> po_re p path) (c_policies c))"

definition newEntry :: "time \<Rightarrow> string \<Rightarrow> int \<Rightarrow> header \<Rightarrow> string \<Rightarrow> duration \<Rightarrow> Entry" where
  "newEntry now key status headers body ttl =
     \<lparr>e_key = key, e_status = status, e_headers = headers, e_body = body, e_created = now,
      e_expires = (if ttl > 0 then Some (now + ttl) else None), e_gzipBody = None\<rparr>"

definition cache_Get :: "time \<Rightarrow> string \<Rightarrow> mem_cache \<Rightarrow> Entry option \<times> mem_cache" where
  "cache_Get now key c = (case mem_Get now key (c_store c) of (e, s) \<Rightarrow> (e, c\<lparr>c_store := s\<rparr>))"

definition cache_Set :: "time \<Rightarrow> string \<Rightarrow> int \<Rightarrow> header \<Rightarrow> string \<Rightarrow> duration \<Rightarrow> mem_cache \<Rightarrow> mem_cache" where
  "cache_Set now key status headers body ttl c =
     c\<lparr>c_store := mem_Set key (newEntry now key status headers body ttl) (c_store c)\<rparr>"

definition cache_PromoteIf :: "time \<Rightarrow> (string \<Rightarrow> bool) \<Rightarrow> mem_cache \<Rightarrow> int \<times> mem_cache" where
  "cache_PromoteIf now fn c = (case mem_PromoteIf now fn (c_store c) of (n, s) \<Rightarrow> (n, c\<lparr>c_store := s\<rparr>))"

definition cache_Delete :: "string \<Rightarrow> mem_cache \<Rightarrow> mem_cache" where
  "cache_Delete key c = c\<lparr>c_store := mem_Delete key (c_store c)\<rparr>"

fun purge_loop :: "(string \<Rightarrow> bool) \<Rightarrow> string list \<Rightarrow> string list \<Rightarrow> mem_cache \<Rightarrow> string list \<times> mem_cache" where
  "purge_loop fn [] acc c = (acc, c)"
| "purge_loop fn (k # ks) acc c =
     (if fn k then purge_loop fn ks (acc @ [k]) (cache_Delete k c) else purge_loop fn ks acc c)"

definition PurgeCollect :: "time \<Rightarrow> (string \<Rightarrow> bool) \<Rightarrow> mem_cache \<Rightarrow> (int \<times> string list) \<times> mem_cache" where
  "PurgeCollect now fn c =
     (case mem_Keys now (c_store c) of
        (ks, s) \<Rightarrow> case purge_loop fn ks [] (c\<lparr>c_store := s\<rparr>) of (keys, c') \<Rightarrow> ((int (length keys), keys), c'))"

record cache_Snapshot =
  sn_Key :: string
  sn_Status :: int
  sn_Headers :: header
  sn_Body :: string
  sn_BodySize :: int
  sn_Created :: time
  sn_Expires :: "time option"

definition cache_Entries :: "time \<Rightarrow> int \<Rightarrow> bool \<Rightarrow> mem_cache \<Rightarrow> cache_Snapshot list \<times> mem_cache" where
  "cache_Entries now limit includeBody c =
     (case mem_Entries now limit (c_store c) of
        (es, s) \<Rightarrow>
          (map (\<lambda>e. \<lparr>sn_Key = e_key e, sn_Status = e_status e, sn_Headers = e_headers e,
                     sn_Body = (if includeBody then e_body e else []), sn_BodySize = int (length (e_body e)),
                     sn_Created = e_created e, sn_Expires = e_expires e\<rparr>) es,
           c\<lparr>c_store := s\<rparr>))"

definition Size :: "mem_cache \<Rightarrow> int" where
  "Size c = mem_Len (c_store c)"


section \<open>The store interface\<close>

text \<open>\<open>look\<close> is what the store currently holds under a key, expired entries included.\<close>

locale response_store =
  fixes get :: "time \<Rightarrow> string \<Rightarrow> 's \<Rightarrow> Entry option \<times> 's"
    and put :: "Entry \<Rightarrow> 's \<Rightarrow> 's"
    and delete :: "string \<Rightarrow> 's \<Rightarrow> 's"
    and promote :: "time \<Rightarrow> (string \<Rightarrow> bool) \<Rightarrow> 's \<Rightarrow> int \<times> 's"
    and keys :: "time \<Rightarrow> 's \<Rightarrow> string list \<times> 's"
    and entries :: "time \<Rightarrow> int \<Rightarrow> 's \<Rightarrow> Entry list \<times> 's"
    and look :: "'s \<Rightarrow> string \<rightharpoonup> Entry"
    and inv :: "'s \<Rightarrow> bool"
  assumes get_inv: "inv s \<Longrightarrow> inv (snd (get now k s))"
    and put_inv: "inv s \<Longrightarrow> inv (put e s)"
    and delete_inv: "inv s \<Longrightarrow> inv (delete k s)"
    and promote_inv: "inv s \<Longrightarrow> inv (snd (promote now fn s))"
    and keys_inv: "inv s \<Longrightarrow> inv (snd (keys now s))"
    and entries_inv: "inv s \<Longrightarrow> inv (snd (entries now n s))"
    and get_result: "inv s \<Longrightarrow> fst (get now k s) = (case look s k of None \<Rightarrow> None | Some e \<Rightarrow> if expired now e then None else Some e)"
    and get_look: "inv s \<Longrightarrow> look (snd (get now k s)) \<subseteq>\<^sub>m look s"
    and put_same: "inv s \<Longrightarrow> look (put e s) (e_key e) = Some e"
    and put_look: "inv s \<Longrightarrow> look (put e s) \<subseteq>\<^sub>m (look s)(e_key e \<mapsto> e)"
    and delete_look: "inv s \<Longrightarrow> look (delete k s) = (look s)(k := None)"
    and promote_look: "inv s \<Longrightarrow> look (snd (promote now fn s)) k =
      (case look s k of None \<Rightarrow> None | Some e \<Rightarrow> if expired now e then None else Some (promoted fn e))"
    and keys_look: "inv s \<Longrightarrow> look (snd (keys now s)) \<subseteq>\<^sub>m look s"
    and entries_look: "inv s \<Longrightarrow> look (snd (entries now n s)) \<subseteq>\<^sub>m look s"
    and keys_all: "inv s \<Longrightarrow> dom (look (snd (keys now s))) \<subseteq> set (fst (keys now s))"
begin

text \<open>A cache over any store against the contents \<open>I\<close> of one that never forgets.\<close>

lemma get_sound: "inv s \<Longrightarrow> look s \<subseteq>\<^sub>m I \<Longrightarrow> fst (get now k s) = Some e \<Longrightarrow> I k = Some e \<and> \<not> expired now e"
  by (auto simp: get_result map_le_def dom_def split: option.splits if_splits)

lemma put_get:
  "inv s \<Longrightarrow> fst (get now (e_key e) (put e s)) = (if expired now e then None else Some e)"
  using put_inv [of s e] put_same [of s e] by (simp add: get_result)

lemma get_le: "inv s \<Longrightarrow> look s \<subseteq>\<^sub>m I \<Longrightarrow> look (snd (get now k s)) \<subseteq>\<^sub>m I"
  by (rule map_le_trans [OF get_look])

lemma entries_le: "inv s \<Longrightarrow> look s \<subseteq>\<^sub>m I \<Longrightarrow> look (snd (entries now n s)) \<subseteq>\<^sub>m I"
  by (rule map_le_trans [OF entries_look])

lemma put_le: "inv s \<Longrightarrow> look s \<subseteq>\<^sub>m I \<Longrightarrow> look (put e s) \<subseteq>\<^sub>m I(e_key e \<mapsto> e)"
  by (rule map_le_trans [OF put_look map_le_upd])

lemma delete_le: "inv s \<Longrightarrow> look s \<subseteq>\<^sub>m I \<Longrightarrow> look (delete k s) \<subseteq>\<^sub>m I(k := None)"
  by (auto simp: delete_look map_le_def)

lemma promote_le:
  "inv s \<Longrightarrow> look s \<subseteq>\<^sub>m I \<Longrightarrow> look (snd (promote now fn s)) \<subseteq>\<^sub>m
     (\<lambda>k. case I k of None \<Rightarrow> None | Some e \<Rightarrow> if expired now e then None else Some (promoted fn e))"
  by (auto simp: promote_look map_le_def dom_def split: option.splits if_splits)

lemma deletes_look:
  assumes "inv s"
  shows "inv (fold delete ks s)" "look (fold delete ks s) k = (if k \<in> set ks then None else look s k)"
proof -
  have "inv (fold delete ks s) \<and> look (fold delete ks s) k = (if k \<in> set ks then None else look s k)" using assms
    by (induction ks arbitrary: s) (auto simp: delete_inv delete_look)
  then show "inv (fold delete ks s)" "look (fold delete ks s) k = (if k \<in> set ks then None else look s k)" by simp_all
qed

lemma purge_le:
  assumes "inv s" "look s \<subseteq>\<^sub>m I"
  shows "look (fold delete (filter fn (fst (keys now s))) (snd (keys now s))) \<subseteq>\<^sub>m (\<lambda>k. if fn k then None else I k)"
proof -
  let ?s = "snd (keys now s)"
  have "inv ?s" using assms(1) by (rule keys_inv)
  moreover have "look ?s \<subseteq>\<^sub>m I" using keys_look [OF assms(1)] assms(2) by (rule map_le_trans)
  moreover have "k \<in> set (fst (keys now s))" if "look ?s k \<noteq> None" for k
    using keys_all [OF assms(1), of now] that by (meson domIff subsetD)
  ultimately show ?thesis by (auto simp: map_le_def deletes_look dom_def split: if_splits)
qed

end


section \<open>The in-memory store is a store\<close>

definition mem_look :: "MemoryStore \<Rightarrow> string \<rightharpoonup> Entry" where
  "mem_look m = (\<lambda>k. find_key k (lru_abs m))"

lemma find_del_key: "find_key k (del_key k' es) = (if k = k' then None else find_key k es)"
  by (induction es) (auto simp: find_key_def del_key_def)

lemma find_key_sub:
  assumes "distinct (map e_key es)" "distinct (map e_key es')" "set es' \<subseteq> set es"
  shows "(\<lambda>k. find_key k es') \<subseteq>\<^sub>m (\<lambda>k. find_key k es)"
  unfolding map_le_def
proof
  fix k assume "k \<in> dom (\<lambda>k. find_key k es')"
  then obtain e where "find_key k es' = Some e" by auto
  then show "find_key k es' = find_key k es"
    using assms find_key_Some [OF assms(2), of k e] find_key_Some [OF assms(1), of k e] by auto
qed

lemma find_key_SomeD: "find_key k es = Some e \<Longrightarrow> e \<in> set es \<and> e_key e = k"
  by (auto simp: find_key_def find_Some_iff)

lemma find_key_Cons: "find_key k (e # es) = (if e_key e = k then Some e else find_key k es)"
  by (simp add: find_key_def)

lemma find_filter:
  "distinct (map e_key es) \<Longrightarrow>
   find_key k (filter P es) = (case find_key k es of None \<Rightarrow> None | Some e \<Rightarrow> if P e then Some e else None)"
proof (induction es)
  case (Cons x es)
  have "find_key (e_key x) es = None" using Cons.prems by (auto simp: find_key_None image_iff)
  then have "find_key (e_key x) (filter P es) = None" by (auto simp: find_key_None)
  with Cons show ?case by (auto simp: find_key_Cons)
qed (simp add: find_key_def)

lemma find_promoted: "find_key k (map (promoted fn) es) = map_option (promoted fn) (find_key k es)"
  by (induction es) (auto simp: find_key_def promoted_def)

lemma spec_Entries_sub: "set (snd (spec_Entries now n acc es)) \<subseteq> set es"
  by (induction es arbitrary: acc) (auto simp: Let_def case_prod_beta)

lemma mem_refines:
  assumes "store_inv m"
  shows "lru_abs (snd (mem_PromoteIf now fn m)) = snd (spec_PromoteIf now fn (lru_abs m))" "store_inv (snd (mem_PromoteIf now fn m))"
    and "lru_abs (snd (mem_Keys now m)) = snd (spec_Keys now (lru_abs m))" "store_inv (snd (mem_Keys now m))"
    and "fst (mem_Keys now m) = fst (spec_Keys now (lru_abs m))"
    and "lru_abs (snd (mem_Entries now n m)) = snd (spec_Entries now n [] (lru_abs m))" "store_inv (snd (mem_Entries now n m))"
  using exec_refines [OF assms, of "MPromote now fn"] exec_refines [OF assms, of "MKeys now"] exec_refines [OF assms, of "MEntries now n"]
  by (simp_all add: case_prod_beta)

lemma mem_look_sub:
  "store_inv m \<Longrightarrow> store_inv m' \<Longrightarrow> set (lru_abs m') \<subseteq> set (lru_abs m) \<Longrightarrow> mem_look m' \<subseteq>\<^sub>m mem_look m"
  unfolding mem_look_def by (intro find_key_sub abs_keys)


interpretation mem: response_store mem_Get "\<lambda>e. mem_Set (e_key e) e" mem_Delete mem_PromoteIf mem_Keys mem_Entries
  mem_look store_inv
proof (unfold_locales, goal_cases)
  case (7 s now k)
  then show ?case using Get_refines [OF 7, of now k] by (auto simp: mem_look_def spec_Get_def split: option.splits)
next
  case (8 s now k)
  have "set (snd (spec_Get now k (lru_abs s))) \<subseteq> set (lru_abs s)"
    using find_key_Some [OF abs_keys [OF 8], of k] by (auto simp: spec_Get_def del_key_def split: option.splits)
  with 8 show ?case using Get_refines [OF 8, of now k] by (intro mem_look_sub) auto
next
  case (9 s e)
  then show ?case using Set_refines [OF 9, of e] by (simp add: mem_look_def spec_Set_def find_key_Cons)
next
  case (10 s e)
  have "(\<lambda>k. find_key k (take n (lru_abs s))) \<subseteq>\<^sub>m (\<lambda>k. find_key k (lru_abs s))" for n
    using abs_keys [OF 10] by (intro find_key_sub) (simp_all add: set_take_subset distinct_take flip: take_map)
  moreover have "find_key k (del_key (e_key e) (lru_abs s)) = find_key k (lru_abs s)" if "k \<noteq> e_key e" for k
    using that by (simp add: find_del_key)
  ultimately show ?case using Set_refines [OF 10, of e]
    by (auto simp: mem_look_def spec_Set_def map_le_def find_key_Cons dom_def split: if_splits)
next
  case (11 s k)
  then show ?case using Delete_refines [OF 11, of k] by (auto simp: mem_look_def find_del_key)
next
  case (12 s now fn k)
  then show ?case using abs_keys [OF 12] by (auto simp: mem_look_def mem_refines spec_PromoteIf_def find_promoted find_filter split: option.splits)
next
  case (13 s now)
  then show ?case by (intro mem_look_sub) (auto simp: mem_refines spec_Keys_def)
next
  case (14 s now n)
  then show ?case by (intro mem_look_sub) (auto simp: mem_refines spec_Entries_sub)
next
  case (15 s now)
  then show ?case by (auto simp: mem_look_def mem_refines spec_Keys_def dest!: find_key_SomeD)
qed (use Get_refines Set_refines Delete_refines mem_refines in auto)



section \<open>Runs of the cache\<close>

datatype cache_op = CGet time string | CSet time string int header string duration | CDelete string
  | CPromote time "string \<Rightarrow> bool" | CPurge time "string \<Rightarrow> bool" | CEntries time int bool

fun cache_exec :: "cache_op \<Rightarrow> mem_cache \<Rightarrow> mem_cache" where
  "cache_exec (CGet t k) c = snd (cache_Get t k c)"
| "cache_exec (CSet t k st h b ttl) c = cache_Set t k st h b ttl c"
| "cache_exec (CDelete k) c = cache_Delete k c"
| "cache_exec (CPromote t fn) c = snd (cache_PromoteIf t fn c)"
| "cache_exec (CPurge t fn) c = snd (PurgeCollect t fn c)"
| "cache_exec (CEntries t n b) c = snd (cache_Entries t n b c)"

text \<open>The ideal cache: every key keeps the entry set last, until it is deleted, purged, or found expired by
  a promotion.\<close>

fun ideal_exec :: "cache_op \<Rightarrow> (string \<rightharpoonup> Entry) \<Rightarrow> string \<rightharpoonup> Entry" where
  "ideal_exec (CSet t k st h b ttl) I = I(k \<mapsto> newEntry t k st h b ttl)"
| "ideal_exec (CDelete k) I = I(k := None)"
| "ideal_exec (CPromote t fn) I =
     (\<lambda>k. case I k of None \<Rightarrow> None | Some e \<Rightarrow> if expired t e then None else Some (promoted fn e))"
| "ideal_exec (CPurge t fn) I = (\<lambda>k. if fn k then None else I k)"
| "ideal_exec (CGet t k) I = I"
| "ideal_exec (CEntries t n b) I = I"

definition sampleCache :: "int \<Rightarrow> mem_cache" where
  "sampleCache n = \<lparr>c_store = NewMemoryStore n, c_policies = []\<rparr>"

lemma purge_loop_fold:
  "purge_loop fn ks acc c = (acc @ filter fn ks, c\<lparr>c_store := fold mem_Delete (filter fn ks) (c_store c)\<rparr>)"
  by (induction ks arbitrary: acc c) (simp_all add: cache_Delete_def)

lemma newEntry_key [simp]: "e_key (newEntry t k st h b ttl) = k"
  by (simp add: newEntry_def)

lemma cache_step:
  assumes "store_inv (c_store c)" "mem_look (c_store c) \<subseteq>\<^sub>m I"
  shows "store_inv (c_store (cache_exec op c)) \<and> mem_look (c_store (cache_exec op c)) \<subseteq>\<^sub>m ideal_exec op I"
proof (cases op)
  case (CGet t k)
  then show ?thesis using mem.get_inv [OF assms(1)] mem.get_le [OF assms] by (simp add: cache_Get_def case_prod_beta)
next
  case (CSet t k st h b ttl)
  then show ?thesis using mem.put_inv [OF assms(1), of "newEntry t k st h b ttl"] mem.put_le [OF assms, of "newEntry t k st h b ttl"]
    by (simp add: cache_Set_def)
next
  case (CDelete k)
  then show ?thesis using mem.delete_inv [OF assms(1)] mem.delete_le [OF assms] by (simp add: cache_Delete_def)
next
  case (CPromote t fn)
  then show ?thesis using mem.promote_inv [OF assms(1)] mem.promote_le [OF assms] by (simp add: cache_PromoteIf_def case_prod_beta)
next
  case (CPurge t fn)
  then show ?thesis using mem.deletes_look(1) [OF mem.keys_inv [OF assms(1)]] mem.purge_le [OF assms]
    by (simp add: PurgeCollect_def case_prod_beta purge_loop_fold)
next
  case (CEntries t n b)
  then show ?thesis using mem.entries_inv [OF assms(1)] mem.entries_le [OF assms] by (simp add: cache_Entries_def case_prod_beta)
qed

lemma cache_run:
  "store_inv (c_store c) \<Longrightarrow> mem_look (c_store c) \<subseteq>\<^sub>m I \<Longrightarrow>
   store_inv (c_store (fold cache_exec ops c)) \<and> mem_look (c_store (fold cache_exec ops c)) \<subseteq>\<^sub>m fold ideal_exec ops I"
  by (induction ops arbitrary: c I) (auto dest: cache_step)

text \<open>C33.  The cache is coherent: whatever calls came before, a hit is the entry set last under that key,
  neither deleted nor purged since, not expired, and changed at most by promotion; and an entry just set is a
  hit until it expires.\<close>

theorem cache_coherent:
  assumes "c_store c = NewMemoryStore n"
  shows "(fst (cache_Get now key (fold cache_exec ops c)) = Some e \<longrightarrow>
      fold ideal_exec ops Map.empty key = Some e \<and> \<not> expired now e) \<and>
    (0 < ttl \<longrightarrow> now \<le> t + ttl \<longrightarrow>
      fst (cache_Get now key (cache_Set t key st h b ttl (fold cache_exec ops c))) = Some (newEntry t key st h b ttl))"
proof -
  let ?c = "fold cache_exec ops c"
  have "store_inv (c_store c)" "mem_look (c_store c) \<subseteq>\<^sub>m Map.empty"
    using NewMemoryStore_inv [of n] assms by (simp_all add: mem_look_def map_le_def find_key_def)
  then have inv: "store_inv (c_store ?c)" "mem_look (c_store ?c) \<subseteq>\<^sub>m fold ideal_exec ops Map.empty"
    using cache_run by blast+
  have "fst (cache_Get now key ?c) = Some e \<longrightarrow> fold ideal_exec ops Map.empty key = Some e \<and> \<not> expired now e"
    using mem.get_sound [OF inv] by (simp add: cache_Get_def case_prod_beta)
  moreover have "0 < ttl \<longrightarrow> now \<le> t + ttl \<longrightarrow>
      fst (cache_Get now key (cache_Set t key st h b ttl ?c)) = Some (newEntry t key st h b ttl)"
    using mem.put_get [OF inv(1), of now "newEntry t key st h b ttl"]
    by (simp add: cache_Get_def cache_Set_def case_prod_beta) (simp add: expired_def newEntry_def)
  ultimately show ?thesis by blast
qed

lemma cache_coherent_witness:
  "fst (cache_Get 12 ''k'' (cache_Set 10 ''k'' 200 [] ''y'' 5 (fold cache_exec [CSet 1 ''k'' 200 [] ''x'' 5] (sampleCache 2)))) =
     Some (newEntry 10 ''k'' 200 [] ''y'' 5)"
proof -
  have "c_store (sampleCache 2) = NewMemoryStore 2" by (simp add: sampleCache_def)
  from cache_coherent [OF this, of 12 "''k''" "[CSet 1 ''k'' 200 [] ''x'' 5]" _ 5 10 200 "[]" "''y''"] show ?thesis by simp
qed

end
