(* ===== verification/Config_Validate.thy ===== *)
theory Config_Validate
  imports Config_Defaults Circuit_Breaker
begin

text \<open>
  Validation and loading of the configuration (config/config.go).  A validator returns the first error
  it finds, or \<^const>\<open>None\<close>; an error is its context and the fixed text of its message (values the code
  interpolates into the text are left out).  The loops over slices that remember names are recursions
  with the set of names as an argument.

  What the code asks of the standard library's parsers is collected in the record \<open>parsers\<close>: whether
  a regular expression compiles, what a URL's scheme and host are, whether a string is a CIDR prefix
  or an address.  The YAML decoder is a package outside the repository and its outcome a parameter of
  \<open>Load\<close>.

  The lemmas show what a configuration that loads without an error guarantees to the rest of the
  program.
\<close>

section \<open>Errors\<close>

datatype config_error = ConfigError string string

definition err_if :: "bool \<Rightarrow> string \<Rightarrow> string \<Rightarrow> config_error option" where
  "err_if b ctx msg = (if b then Some (ConfigError ctx msg) else None)"

fun first_err :: "config_error option list \<Rightarrow> config_error option" where
  "first_err [] = None"
| "first_err (None # es) = first_err es"
| "first_err (Some e # es) = Some e"

text \<open>A range loop that returns the first error of its body.\<close>

fun each :: "(nat \<Rightarrow> 'a \<Rightarrow> config_error option) \<Rightarrow> nat \<Rightarrow> 'a list \<Rightarrow> config_error option" where
  "each f i [] = None"
| "each f i (x # xs) = first_err [f i x, each f (i + 1) xs]"

text \<open>A range loop that also records the name of each element it has passed.\<close>

fun each_seen :: "(nat \<Rightarrow> string set \<Rightarrow> 'a \<Rightarrow> config_error option) \<Rightarrow> ('a \<Rightarrow> string) \<Rightarrow> nat \<Rightarrow> string set \<Rightarrow> 'a list
    \<Rightarrow> config_error option" where
  "each_seen f name i seen [] = None"
| "each_seen f name i seen (x # xs) = first_err [f i seen x, each_seen f name (i + 1) (insert (name x) seen) xs]"

definition at_index :: "string \<Rightarrow> nat \<Rightarrow> string" where
  "at_index name i = name @ ''['' @ itoa i @ '']''"

record parsers =
  regexp_ok :: "string \<Rightarrow> bool"
  url_parse :: "string \<Rightarrow> (string \<times> string) option"
  cidr_ok :: "string \<Rightarrow> bool"
  addr_ok :: "string \<Rightarrow> bool"


section \<open>Sections\<close>

definition ident_start :: "char \<Rightarrow> bool" where
  "ident_start c \<longleftrightarrow> is_digit c \<or> (65 \<le> (of_char c :: nat) \<and> (of_char c :: nat) \<le> 90) \<or>
     (97 \<le> (of_char c :: nat) \<and> (of_char c :: nat) \<le> 122)"

text \<open>\<open>validIdentifier\<close>: a letter or digit, then letters, digits, dots, underscores and dashes.\<close>

definition validIdentifier :: "string \<Rightarrow> bool" where
  "validIdentifier s =
     (case s of [] \<Rightarrow> False
      | c # cs \<Rightarrow> ident_start c \<and> (\<forall>d\<in>set cs. ident_start d \<or> d \<in> {CHR ''.'', CHR ''_'', CHR ''-''}))"

definition is_control :: "char \<Rightarrow> bool" where
  "is_control c \<longleftrightarrow> (of_char c :: nat) < 32 \<or> (of_char c :: nat) = 127"

definition validateLiteralServeMuxPath :: "string \<Rightarrow> string \<Rightarrow> config_error option" where
  "validateLiteralServeMuxPath name value =
     (let cleaned = path_Clean value;
          trailingSlashOK = (cleaned \<noteq> ''/'' \<and> value = cleaned @ ''/'')
      in first_err
       [err_if (\<not> HasPrefix value ''/'') name ''must start with /'',
        err_if (ContainsAny value ''{}?#'' \<or> (\<exists>c\<in>set value. is_control c \<or> is_space c)) name ''must be a literal HTTP path'',
        err_if (value \<noteq> cleaned \<and> \<not> trailingSlashOK) name ''must be a clean HTTP path''])"

definition validateLogLevel :: "string \<Rightarrow> config_error option" where
  "validateLogLevel level = err_if (level \<notin> {''debug'', ''info'', ''warn'', ''error''}) ''logLevel'' ''invalid''"

definition validateServer :: "parsers \<Rightarrow> ServerConfig \<Rightarrow> config_error option" where
  "validateServer lib s = first_err
     [err_if (srv_Port s < 1 \<or> srv_Port s > 65535) ''server.port'' ''must be between 1 and 65535'',
      err_if (srv_MaxTimeout s \<le> 0) ''server.maxTimeout'' ''must be > 0'',
      err_if (srv_MaxResponseBodyBytes s \<le> 0) ''server.maxResponseBodyBytes'' ''must be > 0'',
      each (\<lambda>i tp. let v = TrimSpace tp in
              err_if (\<not> cidr_ok lib v \<and> \<not> addr_ok lib v) (at_index ''server.trustedProxies'' i) ''is not a valid CIDR or IP'')
        0 (srv_TrustedProxies s)]"

definition validateDebugLogging :: "DebugLoggingConfig \<Rightarrow> config_error option" where
  "validateDebugLogging dl =
     (if \<not> dl_Enabled dl then None
      else first_err
        [err_if (TrimSpace (dl_Path dl) = []) ''debugLogging.path'' ''is required'',
         err_if (dl_MaxSizeMB dl \<le> 0) ''debugLogging.maxSizeMB'' ''must be > 0'',
         err_if (dl_MaxBackups dl \<le> 0) ''debugLogging.maxBackups'' ''must be > 0'',
         err_if (dl_MaxBodyBytes dl \<le> 0) ''debugLogging.maxBodyBytes'' ''must be > 0''])"

definition list_of :: "'a list option \<Rightarrow> 'a list" where
  "list_of l = (case l of None \<Rightarrow> [] | Some xs \<Rightarrow> xs)"

definition no_blank :: "string \<Rightarrow> string list \<Rightarrow> config_error option" where
  "no_blank name xs = each (\<lambda>i x. err_if (TrimSpace x = []) (at_index name i) ''must not be empty'') 0 xs"

definition validateCORS :: "CORSConfig option \<Rightarrow> config_error option" where
  "validateCORS cors =
     (case cors of None \<Rightarrow> None
      | Some c \<Rightarrow> first_err
          [err_if (list_of (cors_AllowedOrigins c) = []) ''cors.allowedOrigins'' ''must contain at least one origin'',
           no_blank ''cors.allowedOrigins'' (list_of (cors_AllowedOrigins c)),
           no_blank ''cors.allowedMethods'' (list_of (cors_AllowedMethods c)),
           no_blank ''cors.allowedHeaders'' (list_of (cors_AllowedHeaders c)),
           no_blank ''cors.exposedHeaders'' (list_of (cors_ExposedHeaders c)),
           err_if (cors_MaxAge c < 0) ''cors.maxAge'' ''must be >= 0''])"

definition validateUpstreamURL :: "parsers \<Rightarrow> string \<Rightarrow> string \<Rightarrow> config_error option" where
  "validateUpstreamURL lib ctx raw =
     (case url_parse lib raw of
        None \<Rightarrow> Some (ConfigError ctx ''invalid url'')
      | Some (scheme, host) \<Rightarrow> first_err
          [err_if (scheme \<noteq> ''http'' \<and> scheme \<noteq> ''https'') ctx ''url must use http or https'',
           err_if (host = []) ctx ''url must include a host''])"

definition validateFailsafe :: "FailsafeConfig option \<Rightarrow> string \<Rightarrow> config_error option" where
  "validateFailsafe fs ctx =
     (case fs of None \<Rightarrow> None
      | Some f \<Rightarrow> first_err
          [case fs_Timeout f of None \<Rightarrow> None | Some t \<Rightarrow> err_if (to_Duration t < 0) ctx ''timeout.duration must be >= 0'',
           case fs_Retry f of None \<Rightarrow> None
           | Some r \<Rightarrow> first_err
               [err_if (rt_MaxAttempts r < 0) ctx ''retry.maxAttempts must be >= 0'',
                err_if (rt_Delay r < 0 \<or> rt_Jitter r < 0 \<or> rt_MaxDelay r < 0) ctx ''retry delays must be >= 0'',
                err_if (rt_Backoff r < 0 \<or> rt_Backoff r > 0 \<and> rt_Backoff r < 1) ctx ''retry.backoff must be >= 1''],
           case fs_Hedge f of None \<Rightarrow> None
           | Some h \<Rightarrow> first_err
               [err_if (hd_Delay h < 0) ctx ''hedge.delay must be >= 0'',
                err_if (hd_MaxCount h < 0) ctx ''hedge.maxCount must be >= 0''],
           case fs_CircuitBreaker f of None \<Rightarrow> None
           | Some c \<Rightarrow> first_err
               [err_if (FailureThreshold c < 0) ctx ''circuitBreaker.failureThreshold must be >= 0'',
                err_if (SuccessThreshold c < 0) ctx ''circuitBreaker.successThreshold must be >= 0'',
                err_if (HalfOpenAfter c < 0) ctx ''circuitBreaker.halfOpenAfter must be >= 0''],
           case fs_Consensus f of None \<Rightarrow> None
           | Some c \<Rightarrow>
               (if \<not> cs_Enabled c then None
                else first_err
                  [err_if (cs_MaxParticipants c < 1) ctx ''consensus.maxParticipants must be >= 1 when enabled'',
                   err_if (cs_AgreementThreshold c < 1) ctx ''consensus.agreementThreshold must be >= 1 when enabled'',
                   err_if (cs_AgreementThreshold c > cs_MaxParticipants c) ctx
                     ''consensus.agreementThreshold cannot exceed consensus.maxParticipants''])])"

definition validateHealth :: "HealthConfig \<Rightarrow> string \<Rightarrow> config_error option" where
  "validateHealth h ctx = first_err
     [err_if (hc_CheckInterval h \<le> 0) ctx ''checkInterval must be > 0'',
      err_if (hc_FinalityInterval h \<le> 0) ctx ''finalityInterval must be > 0'']"

definition validatePartialHealth :: "HealthConfig option \<Rightarrow> string \<Rightarrow> config_error option" where
  "validatePartialHealth h ctx =
     (case h of None \<Rightarrow> None
      | Some h \<Rightarrow> first_err
          [err_if (hc_CheckInterval h < 0) ctx ''checkInterval must be >= 0'',
           err_if (hc_FinalityInterval h < 0) ctx ''finalityInterval must be >= 0''])"

definition validateAuthRateLimit :: "RateLimitConfig option \<Rightarrow> string \<Rightarrow> config_error option" where
  "validateAuthRateLimit rl rctx =
     (case rl of None \<Rightarrow> None
      | Some r \<Rightarrow> first_err
          [err_if (rl_Limit r \<le> 0) rctx ''limit must be > 0'', err_if (rl_Burst r < 0) rctx ''burst must be >= 0''])"

definition validateAuth :: "AuthConfig option \<Rightarrow> string \<Rightarrow> config_error option" where
  "validateAuth auth ctx =
     (case auth of None \<Rightarrow> None
      | Some a \<Rightarrow>
          let tierNames = set (map tier_Name (auth_Tiers a));
              keyIDs = set (map key_ID (auth_Keys a))
          in first_err
            [each_seen (\<lambda>i seen t. first_err
                 [err_if (tier_Name t = []) (at_index (ctx @ ''.tiers'') i) ''name is required'',
                  err_if (tier_Name t \<in> seen) (at_index (ctx @ ''.tiers'') i) ''duplicate tier name'',
                  validateAuthRateLimit (tier_RateLimiting t) (at_index (ctx @ ''.tiers'') i @ '' rateLimiting'')])
               tier_Name 0 {} (auth_Tiers a),
             each_seen (\<lambda>i seen k. first_err
                 [err_if (key_ID k = []) (at_index (ctx @ ''.keys'') i) ''id is required'',
                  err_if (key_ID k \<in> seen) (at_index (ctx @ ''.keys'') i) ''duplicate key id'',
                  err_if (key_Secret k = []) (at_index (ctx @ ''.keys'') i) ''secret is required'',
                  err_if (key_Tier k \<noteq> [] \<and> key_Tier k \<notin> tierNames) (at_index (ctx @ ''.keys'') i) ''unknown tier'',
                  validateAuthRateLimit (key_RateLimiting k) (at_index (ctx @ ''.keys'') i @ '' rateLimiting'')])
               key_ID 0 {} (auth_Keys a),
             err_if (auth_Secret a \<noteq> [] \<and> ''default'' \<in> keyIDs) ctx ''key id default conflicts with the legacy secret'',
             err_if (auth_Secret a = [] \<and> auth_Keys a = []) ctx ''no secret or keys configured''])"

definition validateRateLimit :: "RateLimitConfig option \<Rightarrow> string \<Rightarrow> config_error option" where
  "validateRateLimit rl ctx =
     (case rl of None \<Rightarrow> None
      | Some r \<Rightarrow> first_err
          [err_if (rl_Limit r \<le> 0) ctx ''limit must be > 0'', err_if (rl_Burst r < 1) ctx ''burst must be >= 1''])"

definition validateRateLimiting :: "RateLimitingConfig option \<Rightarrow> string \<Rightarrow> config_error option" where
  "validateRateLimiting rl ctx =
     (case rl of None \<Rightarrow> None
      | Some r \<Rightarrow> first_err [validateRateLimit (rls_PerIP r) (ctx @ '' perIP''), validateRateLimit (rls_Global r) (ctx @ '' global'')])"


section \<open>Networks\<close>

definition validateNetworkRouting :: "parsers \<Rightarrow> NetworkConfig \<Rightarrow> string \<Rightarrow> config_error option" where
  "validateNetworkRouting lib n ctx =
     (let upstreamIDs = set (map uc_ID (nc_Upstreams n)) in first_err
       [each (\<lambda>i cr. let c = ctx @ at_index '' clientRoutes'' i in first_err
            [err_if (cr_PathPrefix cr = []) c ''pathPrefix is required'',
             err_if (cr_UpstreamID cr = []) c ''upstreamId is required'',
             err_if (\<not> HasPrefix (cr_UpstreamID cr) ''client:'' \<and> cr_UpstreamID cr \<notin> upstreamIDs) c ''unknown upstream id''])
          0 (ro_ClientRoutes (nc_Routing n)),
        each (\<lambda>i rr. let c = ctx @ at_index '' routeRules'' i in first_err
            [err_if (rr_PathPattern rr = []) c ''pathPattern is required'',
             err_if (\<not> regexp_ok lib (rr_PathPattern rr)) c ''invalid pathPattern'',
             err_if (rr_Deny rr \<and> rr_UpstreamID rr \<noteq> []) c ''deny and upstreamId are mutually exclusive'',
             err_if (\<not> rr_Deny rr \<and> rr_UpstreamID rr = []) c ''set upstreamId or deny: true'',
             err_if (rr_UpstreamID rr \<noteq> [] \<and> rr_UpstreamID rr \<notin> upstreamIDs) c ''unknown upstream id'',
             err_if ([] \<in> set (rr_Methods rr)) c ''empty method in methods list''])
          0 (ro_RouteRules (nc_Routing n))])"

definition validate_policy :: "parsers \<Rightarrow> string \<Rightarrow> nat \<Rightarrow> CachePolicy \<Rightarrow> config_error option" where
  "validate_policy lib ctx i p =
     (let c = ctx @ at_index '' cache.policies'' i in first_err
       [err_if (cp_Pattern p = []) c ''pattern is required'',
        err_if (\<not> regexp_ok lib (cp_Pattern p)) c ''invalid pattern'',
        err_if (cp_TTL p < 0) c ''ttl must be >= 0'',
        err_if (\<exists>m\<in>set (cp_Methods p). TrimSpace m = []) c ''methods must not contain empty values''])"

definition validate_upstream :: "parsers \<Rightarrow> string \<Rightarrow> nat \<Rightarrow> string set \<Rightarrow> UpstreamConfig \<Rightarrow> config_error option" where
  "validate_upstream lib ctx i seen u =
     (let c = ctx @ at_index '' upstreams'' i in first_err
       [err_if (uc_ID u = []) c ''id is required'',
        err_if (\<not> validIdentifier (uc_ID u)) c ''id must match the identifier pattern'',
        err_if (uc_ID u \<in> seen) ctx ''duplicate upstream id'',
        err_if (uc_URL u = []) c ''url is required'',
        validateUpstreamURL lib c (uc_URL u),
        validateFailsafe (uc_Failsafe u) (c @ '' failsafe''),
        case uc_RateLimiting u of None \<Rightarrow> None
        | Some rl \<Rightarrow> err_if (url_AdjustmentPeriod rl < 0) c ''rateLimiting.adjustmentPeriod must be >= 0''])"

definition validateNetwork :: "parsers \<Rightarrow> NetworkConfig \<Rightarrow> string \<Rightarrow> config_error option" where
  "validateNetwork lib n ctx = first_err
     [err_if (nc_Upstreams n = []) ctx ''at least one upstream is required'',
      err_if (nc_SecondsPerSlot n \<le> 0) ctx ''secondsPerSlot must be > 0'',
      err_if (nc_SlotsPerEpoch n \<le> 0) ctx ''slotsPerEpoch must be > 0'',
      validateFailsafe (nc_Failsafe n) (ctx @ '' failsafe''),
      validatePartialHealth (nc_Health n) (ctx @ '' health''),
      validateRateLimiting (nc_RateLimiting n) (ctx @ '' rateLimiting''),
      err_if (ro_LoadBalancing (nc_Routing n) \<notin> {''round-robin'', ''random'', ''least-conn'', ''score'', []}) ctx ''invalid loadBalancing'',
      err_if (ro_StickyTimeout (nc_Routing n) \<le> 0) ctx ''stickyTimeout must be > 0'',
      err_if (ro_RebalanceInterval (nc_Routing n) \<le> 0) ctx ''rebalanceInterval must be > 0'',
      each (\<lambda>i p. err_if (\<not> regexp_ok lib p) (ctx @ at_index '' blockedPaths'' i) ''invalid regex'') 0 (ro_BlockedPaths (nc_Routing n)),
      err_if (ca_MaxSize (nc_Cache n) \<le> 0) ctx ''cache.maxSize must be > 0'',
      err_if (ca_Driver (nc_Cache n) \<notin> {''memory'', ''redis'', []}) ctx ''cache.driver must be memory or redis'',
      err_if (ca_Enabled (nc_Cache n) \<and> ca_Driver (nc_Cache n) = ''redis'' \<and>
              (case ca_Redis (nc_Cache n) of None \<Rightarrow> True | Some r \<Rightarrow> rd_URL (rc_Redis r) = [])) ctx ''cache.redis.url is required'',
      each (validate_policy lib ctx) 0 (ca_Policies (nc_Cache n)),
      each_seen (validate_upstream lib ctx) uc_ID 0 {} (nc_Upstreams n),
      validateNetworkRouting lib n ctx]"

definition validate_listed :: "parsers \<Rightarrow> Config \<Rightarrow> nat \<Rightarrow> string set \<Rightarrow> NetworkConfig \<Rightarrow> config_error option" where
  "validate_listed lib c i seen n =
     (let ctx = at_index ''networks'' i; nctx = ctx @ '' ('' @ nc_ID n @ '')'' in first_err
       [err_if (nc_ID n = []) ctx ''id is required'',
        err_if (\<not> validIdentifier (nc_ID n)) ctx ''id must match the identifier pattern'',
        err_if (nc_ID n \<in> seen) ctx ''duplicate network id'',
        validateNetwork lib n nctx,
        validateHealth (EffectiveHealth c n) (nctx @ '' effective health'')])"

definition validate :: "parsers \<Rightarrow> Config \<Rightarrow> config_error option" where
  "validate lib c = first_err
     [validateLogLevel (c_LogLevel c),
      validateServer lib (c_Server c),
      validateDebugLogging (c_DebugLogging c),
      validateCORS (c_CORS c),
      validateFailsafe (Some (c_Failsafe c)) ''failsafe'',
      validateHealth (c_Health c) ''health'',
      validateRateLimiting (Some (c_RateLimiting c)) ''rateLimiting'',
      validateAuth (c_Auth c) ''auth'',
      validateAuth (ui_Auth (c_UI c)) ''ui.auth'',
      (if me_Enabled (c_Metrics c) then first_err
         [validateLiteralServeMuxPath ''metrics.path'' (me_Path (c_Metrics c)),
          err_if (TrimRightByte (CHR ''/'') (me_Path (c_Metrics c)) = []) ''metrics.path'' ''must not be the root'',
          err_if (ui_Enabled (c_UI c) \<and> TrimRightByte (CHR ''/'') (me_Path (c_Metrics c)) = TrimRightByte (CHR ''/'') (ui_BasePath (c_UI c)))
            ''metrics.path'' ''conflicts with ui.basePath'']
       else None),
      err_if (st_Driver (c_State c) \<notin> {''local'', ''redis'', []}) ''state.driver'' ''must be local or redis'',
      err_if (st_Driver (c_State c) = ''redis'' \<and> (case st_Redis (c_State c) of None \<Rightarrow> True | Some r \<Rightarrow> rd_URL r = []))
        ''state.redis.url'' ''is required when state.driver is redis'',
      err_if (ui_Enabled (c_UI c) \<and> (case ui_Auth (c_UI c) of None \<Rightarrow> True | Some a \<Rightarrow> auth_Keys a = []))
        ''ui.auth'' ''at least one key is required when ui.enabled is true'',
      (if ui_Enabled (c_UI c) then first_err
         [validateLiteralServeMuxPath ''ui.basePath'' (ui_BasePath (c_UI c)),
          err_if (TrimRightByte (CHR ''/'') (ui_BasePath (c_UI c)) = []) ''ui.basePath'' ''must not be the root path'']
       else None),
      err_if (c_LegacyProjects c) ''projects'' ''is no longer supported'',
      err_if (c_Networks c = []) ''networks'' ''at least one network is required'',
      each_seen (validate_listed lib c) nc_ID 0 {} (c_Networks c)]"


section \<open>Loading\<close>

text \<open>What decoding the file gives: the first document, and then every further one.\<close>

datatype first_doc = DecodeError | NoDocument Config | Document Config

datatype extra_doc = ExtraError | ExtraNull | ExtraValue

fun drain :: "extra_doc list \<Rightarrow> config_error option" where
  "drain [] = None"
| "drain (ExtraError # ds) = Some (ConfigError ''parse config'' ''error'')"
| "drain (ExtraValue # ds) = Some (ConfigError ''parse config'' ''multiple YAML documents are not supported'')"
| "drain (ExtraNull # ds) = drain ds"

text \<open>
  An empty file leaves the zero configuration, which \<open>NoDocument\<close> carries.  When validation fails the
  code returns the configuration together with the error.
\<close>

definition finish_load :: "parsers \<Rightarrow> (string \<Rightarrow> string) \<Rightarrow> Config \<Rightarrow> config_error option \<times> Config option" where
  "finish_load lib expand c = (let c' = expandSecrets expand (applyDefaults c) in (validate lib c', Some c'))"

definition Load :: "parsers \<Rightarrow> (string \<Rightarrow> string) \<Rightarrow> (string \<Rightarrow> string option) \<Rightarrow> (string \<Rightarrow> first_doc \<times> extra_doc list)
    \<Rightarrow> string \<Rightarrow> config_error option \<times> Config option" where
  "Load lib expand readFile decode path =
     (case readFile path of
        None \<Rightarrow> (Some (ConfigError ''read config'' path), None)
      | Some data \<Rightarrow>
          (case decode data of
             (DecodeError, ds) \<Rightarrow> (Some (ConfigError ''parse config'' ''error''), None)
           | (NoDocument c, ds) \<Rightarrow> (case drain ds of Some e \<Rightarrow> (Some e, None) | None \<Rightarrow> finish_load lib expand c)
           | (Document c, ds) \<Rightarrow> (case drain ds of Some e \<Rightarrow> (Some e, None) | None \<Rightarrow> finish_load lib expand c)))"



section \<open>What a loaded configuration guarantees\<close>

lemma first_err_None: "first_err es = None \<longleftrightarrow> (\<forall>e\<in>set es. e = None)"
  by (induction es rule: first_err.induct) auto

lemma err_if_None [simp]: "err_if b ctx msg = None \<longleftrightarrow> \<not> b"
  by (simp add: err_if_def)

lemma each_seen_None:
  assumes "each_seen f name i seen xs = None"
    and "\<And>i seen x. f i seen x = None \<Longrightarrow> name x \<notin> seen \<and> P x"
  shows "distinct (map name xs) \<and> name ` set xs \<inter> seen = {} \<and> (\<forall>x\<in>set xs. P x)"
  using assms(1)
proof (induction xs arbitrary: i seen)
  case (Cons x xs)
  then have f: "f i seen x = None" and rest: "each_seen f name (i + 1) (insert (name x) seen) xs = None"
    by (simp_all add: first_err_None)
  from assms(2) [OF f] Cons.IH [OF rest] show ?case by auto
qed simp

text \<open>The circuit breaker settings an upstream of a network runs with.\<close>

definition upstream_cb :: "Config \<Rightarrow> NetworkConfig \<Rightarrow> UpstreamConfig \<Rightarrow> CircuitBreakerConfig" where
  "upstream_cb c n u = UpstreamCircuitBreaker (fs_CircuitBreaker (EffectiveFailsafe c n))
     (case uc_Failsafe u of None \<Rightarrow> None | Some f \<Rightarrow> fs_CircuitBreaker f)"

definition network_ok :: "Config \<Rightarrow> NetworkConfig \<Rightarrow> bool" where
  "network_ok c n \<longleftrightarrow>
     nc_Upstreams n \<noteq> [] \<and> distinct (map uc_ID (nc_Upstreams n)) \<and>
     (\<forall>u\<in>set (nc_Upstreams n). validIdentifier (uc_ID u) \<and> cb_cfg_ok (upstream_cb c n u)) \<and>
     0 < nc_SecondsPerSlot n \<and> 0 < nc_SlotsPerEpoch n \<and>
     1 \<le> MaxAttempts (EffectiveFailsafe c n) \<and>
     0 < hc_CheckInterval (EffectiveHealth c n) \<and> 0 < hc_FinalityInterval (EffectiveHealth c n)"

lemma validateFailsafe_cb:
  assumes "validateFailsafe (Some f) ctx = None" "fs_CircuitBreaker f = Some cb"
  shows "0 \<le> FailureThreshold cb" "0 \<le> SuccessThreshold cb"
  using assms by (auto simp: validateFailsafe_def first_err_None split: option.splits)

lemma validateFailsafe_retry:
  assumes "validateFailsafe (Some f) ctx = None" "fs_Retry f = Some r"
  shows "0 \<le> rt_MaxAttempts r"
  using assms by (auto simp: validateFailsafe_def first_err_None split: option.splits)

lemma validated_setting_nonneg:
  assumes "validateFailsafe (Some f) ctx = None"
  shows "0 \<le> setting fs_Retry rt_MaxAttempts f" "0 \<le> setting fs_CircuitBreaker FailureThreshold f"
    "0 \<le> setting fs_CircuitBreaker SuccessThreshold f"
  using assms validateFailsafe_cb validateFailsafe_retry by (auto simp: setting_def split: option.splits)

lemma validated_net_setting_nonneg:
  assumes "validateFailsafe (nc_Failsafe n) ctx = None"
  shows "0 \<le> net_setting fs_Retry rt_MaxAttempts n" "0 \<le> net_setting fs_CircuitBreaker FailureThreshold n"
    "0 \<le> net_setting fs_CircuitBreaker SuccessThreshold n"
  using assms validated_setting_nonneg by (auto simp: net_setting_def split: option.splits)

lemma or_zero_pos: "0 \<le> a \<Longrightarrow> 0 < b \<Longrightarrow> 0 < or_zero a (b::int)"
  by (auto simp: or_zero_def)

lemma effective_attempts_pos:
  assumes "validateFailsafe (Some (c_Failsafe c)) ctx = None" "validateFailsafe (nc_Failsafe n) ctx' = None"
  shows "1 \<le> MaxAttempts (EffectiveFailsafe c n)"
proof (cases "fs_Retry (EffectiveFailsafe c n)")
  case (Some r)
  then have "MaxAttempts (EffectiveFailsafe c n) =
      or_zero (net_setting fs_Retry rt_MaxAttempts n) (or_zero (setting fs_Retry rt_MaxAttempts (c_Failsafe c)) 3)"
    by (simp add: effective_retry_attempts)
  moreover have "0 < or_zero (net_setting fs_Retry rt_MaxAttempts n) (or_zero (setting fs_Retry rt_MaxAttempts (c_Failsafe c)) 3)"
    using validated_net_setting_nonneg(1) [OF assms(2)] validated_setting_nonneg(1) [OF assms(1)]
    by (intro or_zero_pos) auto
  ultimately show ?thesis by simp
qed (simp add: MaxAttempts_def)

lemma effective_cb_ok:
  assumes "validateFailsafe (Some (c_Failsafe c)) ctx = None" "validateFailsafe (nc_Failsafe n) ctx' = None"
    and "fs_CircuitBreaker (EffectiveFailsafe c n) = Some cb"
  shows "cb_cfg_ok cb"
  using effective_cb_thresholds(1,2) [OF assms(3)] validated_net_setting_nonneg(2,3) [OF assms(2)]
    validated_setting_nonneg(2,3) [OF assms(1)]
    or_zero_pos [of "net_setting fs_CircuitBreaker FailureThreshold n"] or_zero_pos [of "net_setting fs_CircuitBreaker SuccessThreshold n"]
    or_zero_pos [of "setting fs_CircuitBreaker FailureThreshold (c_Failsafe c)" 5] or_zero_pos [of "setting fs_CircuitBreaker SuccessThreshold (c_Failsafe c)" 2]
  by (simp add: cb_cfg_ok_def int_one_le_iff_zero_less)

lemma UpstreamCircuitBreaker_ok:
  assumes "\<And>cb. base = Some cb \<Longrightarrow> cb_cfg_ok cb"
    and "\<And>cb. override = Some cb \<Longrightarrow> 0 \<le> FailureThreshold cb \<and> 0 \<le> SuccessThreshold cb"
  shows "cb_cfg_ok (UpstreamCircuitBreaker base override)"
proof -
  have "cb_cfg_ok (case base of None \<Rightarrow> defaultCircuitBreaker | Some b \<Rightarrow> b)"
    using assms(1) by (auto simp: cb_cfg_ok_def defaultCircuitBreaker_def split: option.splits)
  then show ?thesis
    using assms(2) by (cases override)
      (auto simp: UpstreamCircuitBreaker_def mergeCircuitBreakerConfig_def cb_cfg_ok_def or_zero_def Let_def)
qed

lemma validate_upstream_None:
  "validate_upstream lib ctx i seen u = None \<Longrightarrow>
   uc_ID u \<notin> seen \<and> validIdentifier (uc_ID u) \<and>
   (\<forall>f cb. uc_Failsafe u = Some f \<longrightarrow> fs_CircuitBreaker f = Some cb \<longrightarrow> 0 \<le> FailureThreshold cb \<and> 0 \<le> SuccessThreshold cb)"
  unfolding validate_upstream_def Let_def first_err_None
  using validateFailsafe_cb by (auto split: option.splits)

lemma validate_listed_None:
  assumes "validate_listed lib c i seen n = None" and g: "validateFailsafe (Some (c_Failsafe c)) ''failsafe'' = None"
  shows "nc_ID n \<notin> seen \<and> validIdentifier (nc_ID n) \<and> network_ok c n"
proof -
  obtain ctx ctx' where top: "nc_ID n \<notin> seen" "validIdentifier (nc_ID n)" and net: "validateNetwork lib n ctx = None"
    and health: "validateHealth (EffectiveHealth c n) ctx' = None"
    using assms(1) by (auto simp: validate_listed_def Let_def first_err_None)
  have ups: "each_seen (validate_upstream lib ctx) uc_ID 0 {} (nc_Upstreams n) = None"
    and fs: "validateFailsafe (nc_Failsafe n) (ctx @ '' failsafe'') = None"
    and rest: "nc_Upstreams n \<noteq> []" "0 < nc_SecondsPerSlot n" "0 < nc_SlotsPerEpoch n"
    using net by (simp_all add: validateNetwork_def first_err_None)
  note u = each_seen_None [OF ups, OF validate_upstream_None]
  have "cb_cfg_ok (upstream_cb c n u)" if "u \<in> set (nc_Upstreams n)" for u
    unfolding upstream_cb_def
    using that u effective_cb_ok [OF g fs] by (intro UpstreamCircuitBreaker_ok) (auto split: option.splits)
  with u top rest health effective_attempts_pos [OF g fs] show ?thesis
    by (simp add: network_ok_def validateHealth_def first_err_None)
qed

lemma validate_None:
  assumes "validate lib c = None"
  shows "c_Networks c \<noteq> [] \<and> distinct (map nc_ID (c_Networks c)) \<and> (\<forall>n\<in>set (c_Networks c). validIdentifier (nc_ID n) \<and> network_ok c n)"
proof -
  have nets: "each_seen (validate_listed lib c) nc_ID 0 {} (c_Networks c) = None"
    and fs: "validateFailsafe (Some (c_Failsafe c)) ''failsafe'' = None" and ne: "c_Networks c \<noteq> []"
    using assms by (simp_all add: validate_def first_err_None)
  from each_seen_None [OF nets, of "\<lambda>n. validIdentifier (nc_ID n) \<and> network_ok c n"] validate_listed_None [OF _ fs] ne
  show ?thesis by blast
qed


section \<open>Properties\<close>

text \<open>A small configuration: one network with one upstream, everything else left to the defaults.\<close>

definition sampleConfig :: Config where
  "sampleConfig = zeroConfig\<lparr>c_Networks := [zeroNetwork\<lparr>nc_ID := ''mainnet'',
     nc_Upstreams := [zeroUpstreamConfig\<lparr>uc_ID := ''lh-1'', uc_URL := ''http://a:5052''\<rparr>]\<rparr>]\<rparr>"

definition sampleParsers :: parsers where
  "sampleParsers = \<lparr>regexp_ok = (\<lambda>_. True), url_parse = (\<lambda>_. Some (''http'', ''a:5052'')), cidr_ok = (\<lambda>_. False), addr_ok = (\<lambda>_. False)\<rparr>"

lemmas sample_defs = sampleConfig_def sampleParsers_def zeroConfig_def zeroNetwork_def zeroUpstreamConfig_def zeroRouting_def
  zeroCache_def zeroHealth_def zeroFailsafe_def




end
