(* ===== verification/Routing.thy ===== *)
theory Routing
  imports Health_Monitor Cache_Key Response_Cache Config_Validate
begin

text \<open>
  Request routing of \<open>src/network/routing.go\<close>: client path prefixes, ordered route rules, client selectors in the
  path; and the failsafe overrides of \<open>src/network/network.go\<close>, which match the same kind of rule.  Compilation of
  a regular expression is the parameter \<open>compile\<close>, its result a predicate on paths.

  Lemmas: prefix routing only ever strips the prefix, and an override is always completed with the defaults.
\<close>


section \<open>Rules\<close>

record pathMethodRule =
  pm_re :: matcher
  pm_methods :: "string list option"

definition compilePathMethodRule :: "(string \<Rightarrow> matcher option) \<Rightarrow> string \<Rightarrow> string list \<Rightarrow> pathMethodRule option" where
  "compilePathMethodRule compile pattern methods =
     map_option (\<lambda>re. \<lparr>pm_re = re,
         pm_methods = (if methods \<noteq> [] then Some (map (\<lambda>m. ToUpper (TrimSpace m)) methods) else None)\<rparr>)
       (compile pattern)"

definition rule_matches :: "pathMethodRule \<Rightarrow> string \<Rightarrow> string \<Rightarrow> bool" where
  "rule_matches r method path \<longleftrightarrow>
     (case pm_methods r of None \<Rightarrow> True | Some ms \<Rightarrow> method \<in> set ms) \<and> pm_re r path"

record compiledClientRoute =
  ccr_prefix :: string
  ccr_upstreamID :: string

record compiledRouteRule =
  crr_rule :: pathMethodRule
  crr_upstreamID :: string
  crr_deny :: bool

record compiledRouting =
  clientRoutes :: "compiledClientRoute list"
  routeRules :: "compiledRouteRule list"

datatype routing_error = EmptyPrefix | BadRulePattern string

definition normalizeClientPathPrefix :: "string \<Rightarrow> string" where
  "normalizeClientPathPrefix p0 =
     (let p = TrimSpace p0 in
      if p = [] then []
      else let p1 = (if \<not> HasPrefix p ''/'' then ''/'' @ p else p) in
           if \<not> HasSuffix p1 ''/'' then p1 @ ''/'' else p1)"

fun compile_client_routes :: "ClientRouteConfig list \<Rightarrow> routing_error + compiledClientRoute list" where
  "compile_client_routes [] = Inr []"
| "compile_client_routes (cr # crs) =
     (let prefix = normalizeClientPathPrefix (cr_PathPrefix cr) in
      if prefix = [] then Inl EmptyPrefix
      else map_sum id ((#) \<lparr>ccr_prefix = prefix, ccr_upstreamID = cr_UpstreamID cr\<rparr>) (compile_client_routes crs))"

fun compile_route_rules :: "(string \<Rightarrow> matcher option) \<Rightarrow> RouteRuleConfig list \<Rightarrow> routing_error + compiledRouteRule list" where
  "compile_route_rules compile [] = Inr []"
| "compile_route_rules compile (rr # rrs) =
     (case compilePathMethodRule compile (rr_PathPattern rr) (rr_Methods rr) of
        None \<Rightarrow> Inl (BadRulePattern (rr_PathPattern rr))
      | Some rule \<Rightarrow>
          map_sum id ((#) \<lparr>crr_rule = rule, crr_upstreamID = rr_UpstreamID rr, crr_deny = rr_Deny rr\<rparr>)
            (compile_route_rules compile rrs))"

text \<open>\<open>compileRouting\<close>; without routes and rules there is no routing table.\<close>

definition compileRouting :: "(string \<Rightarrow> matcher option) \<Rightarrow> RoutingConfig \<Rightarrow> routing_error + compiledRouting option" where
  "compileRouting compile cfg =
     (if ro_ClientRoutes cfg = [] \<and> ro_RouteRules cfg = [] then Inr None
      else case compile_client_routes (ro_ClientRoutes cfg) of
             Inl e \<Rightarrow> Inl e
           | Inr crs \<Rightarrow>
               (case compile_route_rules compile (ro_RouteRules cfg) of
                  Inl e \<Rightarrow> Inl e
                | Inr rrs \<Rightarrow> Inr (Some \<lparr>clientRoutes = crs, routeRules = rrs\<rparr>)))"


section \<open>Client prefixes\<close>

definition client_rest :: "string \<Rightarrow> string \<Rightarrow> string" where
  "client_rest prefix path =
     (let rest0 = (if HasPrefix path prefix then TrimPrefix path prefix else []);
          rest1 = (if rest0 \<noteq> [] \<and> \<not> HasPrefix rest0 ''/'' then ''/'' @ rest0 else rest0)
      in or_empty rest1 ''/'')"

fun apply_prefix_loop :: "compiledClientRoute list \<Rightarrow> string \<Rightarrow> string \<times> string" where
  "apply_prefix_loop [] path = (path, [])"
| "apply_prefix_loop (cr # crs) path =
     (let base = TrimSuffix (ccr_prefix cr) ''/'' in
      if base = [] then apply_prefix_loop crs path
      else if path \<noteq> base \<and> \<not> HasPrefix path (ccr_prefix cr) then apply_prefix_loop crs path
      else let trim = TrimPrefix (client_rest (ccr_prefix cr) path) ''/'' in
           if HasPrefix trim ''eth/v'' \<or> trim = ''healthz'' then (''/'' @ trim, ccr_upstreamID cr)
           else (path, ccr_upstreamID cr))"

definition applyClientPrefix :: "compiledRouting option \<Rightarrow> string \<Rightarrow> string \<times> string" where
  "applyClientPrefix r path = (case r of None \<Rightarrow> (path, []) | Some rt \<Rightarrow> apply_prefix_loop (clientRoutes rt) path)"

text \<open>\<open>matchRouteRule\<close>: whether the request is denied, the pinned upstream, whether a rule matched.\<close>

fun match_rule_loop :: "compiledRouteRule list \<Rightarrow> string \<Rightarrow> string \<Rightarrow> bool \<times> string \<times> bool" where
  "match_rule_loop [] m path = (False, [], False)"
| "match_rule_loop (rule # rules) m path =
     (if \<not> rule_matches (crr_rule rule) m path then match_rule_loop rules m path
      else if crr_deny rule then (True, [], True)
      else (False, crr_upstreamID rule, True))"

definition matchRouteRule :: "compiledRouting option \<Rightarrow> string \<Rightarrow> string \<Rightarrow> bool \<times> string \<times> bool" where
  "matchRouteRule r method path =
     (case r of None \<Rightarrow> (False, [], False) | Some rt \<Rightarrow> match_rule_loop (routeRules rt) (ToUpper method) path)"

definition cloneRequestWithPath :: "http_Request \<Rightarrow> string \<Rightarrow> http_Request" where
  "cloneRequestWithPath r path = r\<lparr>r_URL := (r_URL r)\<lparr>u_Path := path, u_RawPath := []\<rparr>\<rparr>"

definition client_selector :: "string \<Rightarrow> Selector" where
  "client_selector ct = \<lparr>sel_ID = [], sel_ClientType = ct, sel_Glob = []\<rparr>"

definition inferClientSelectorPath :: "string \<Rightarrow> Pool \<Rightarrow> (string \<times> string) option" where
  "inferClientSelectorPath path p =
     (case CutByte (CHR ''/'') (TrimPrefix path ''/'') of
        (selector, rest, ok) \<Rightarrow>
          if \<not> ok \<or> selector = [] then None
          else if \<not> HasPrefix rest ''eth/v'' \<and> rest \<noteq> ''healthz'' then None
          else if IsKnownClientType selector \<and> HasMatching p (client_selector (ToLower selector))
          then Some (''/'' @ rest, ''client:'' @ ToLower selector)
          else if ByID p selector \<noteq> None then Some (''/'' @ rest, selector)
          else None)"

definition with_path :: "http_Request \<Rightarrow> string \<Rightarrow> http_Request" where
  "with_path r newPath = (if newPath \<noteq> u_Path (r_URL r) then cloneRequestWithPath r newPath else r)"

definition rewriteClientPath :: "compiledRouting option \<Rightarrow> Pool \<Rightarrow> http_Request \<Rightarrow> http_Request \<times> string" where
  "rewriteClientPath rt p r =
     (case applyClientPrefix rt (u_Path (r_URL r)) of
        (newPath, clientUpstream) \<Rightarrow>
          if clientUpstream \<noteq> [] then (with_path r newPath, clientUpstream)
          else (case inferClientSelectorPath (u_Path (r_URL r)) p of
                  Some (newPath', clientUpstream') \<Rightarrow> (with_path r newPath', clientUpstream')
                | None \<Rightarrow> (r, [])))"


section \<open>Failsafe overrides\<close>

record compiledFailsafeOverride =
  cfo_rule :: pathMethodRule
  cfo_failsafe :: FailsafeConfig

definition or_override :: "'a option \<Rightarrow> 'a option \<Rightarrow> 'a option" where
  "or_override base override = (case override of None \<Rightarrow> base | Some x \<Rightarrow> Some x)"

definition mergeFailsafe :: "FailsafeConfig \<Rightarrow> FailsafeConfig \<Rightarrow> FailsafeConfig" where
  "mergeFailsafe base override =
     applyFailsafeDefaults (base\<lparr>fs_Timeout := or_override (fs_Timeout base) (fs_Timeout override),
       fs_Retry := or_override (fs_Retry base) (fs_Retry override),
       fs_Hedge := or_override (fs_Hedge base) (fs_Hedge override),
       fs_CircuitBreaker := or_override (fs_CircuitBreaker base) (fs_CircuitBreaker override)\<rparr>)"

text \<open>The override loop of \<open>New\<close>: a pattern that does not compile is skipped.\<close>

definition compile_overrides :: "(string \<Rightarrow> matcher option) \<Rightarrow> FailsafeConfig \<Rightarrow> FailsafeOverride list \<Rightarrow> compiledFailsafeOverride list" where
  "compile_overrides compile failsafe fos =
     concat (map (\<lambda>fo. case compilePathMethodRule compile (fo_PathPattern fo) (fo_Methods fo) of
                         None \<Rightarrow> []
                       | Some rule \<Rightarrow> [\<lparr>cfo_rule = rule, cfo_failsafe = mergeFailsafe failsafe (fo_Failsafe fo)\<rparr>]) fos)"

definition effectiveFailsafe :: "compiledFailsafeOverride list \<Rightarrow> FailsafeConfig \<Rightarrow> string \<Rightarrow> string \<Rightarrow> FailsafeConfig" where
  "effectiveFailsafe overrides failsafe method path =
     (case find (\<lambda>fo. rule_matches (cfo_rule fo) (ToUpper method) path) overrides of
        Some fo \<Rightarrow> cfo_failsafe fo
      | None \<Rightarrow> failsafe)"



section \<open>What rewriting can do\<close>

lemma normalize_prefix_slashes:
  "normalizeClientPathPrefix p = [] \<or> (HasPrefix (normalizeClientPathPrefix p) ''/'' \<and> HasSuffix (normalizeClientPathPrefix p) ''/'')"
  by (auto simp: normalizeClientPathPrefix_def Let_def HasPrefix_iff HasSuffix_iff)

lemma compiled_prefixes:
  "compile_client_routes crs = Inr routes \<Longrightarrow> list_all (\<lambda>r. HasSuffix (ccr_prefix r) ''/'') routes"
proof (induction crs arbitrary: routes)
  case (Cons cr crs)
  then show ?case using normalize_prefix_slashes [of "cr_PathPrefix cr"]
    by (cases "compile_client_routes crs") (auto simp: Let_def split: if_splits)
qed simp

text \<open>A standard target, which is all that rewriting ever produces.\<close>

definition standard :: "string \<Rightarrow> bool" where
  "standard path \<longleftrightarrow> HasPrefix path ''/eth/v'' \<or> path = ''/healthz''"

lemma standard_rest: "HasPrefix trim ''eth/v'' \<or> trim = ''healthz'' \<Longrightarrow> standard (''/'' @ trim)"
  by (auto simp: standard_def)

lemma client_rest_shape:
  assumes "HasPrefix path (b @ ''/'')" "trim = TrimPrefix (client_rest (b @ ''/'') path) ''/''"
  shows "path = b @ ''/'' @ trim \<or> path = b @ ''//'' @ trim"
proof -
  obtain rest where path: "path = (b @ ''/'') @ rest" using assms(1) by (auto simp: HasPrefix_iff)
  then have "client_rest (b @ ''/'') path = (if rest = [] then ''/'' else if HasPrefix rest ''/'' then rest else ''/'' @ rest)"
    using HasPrefix_append [of "b @ ''/''" rest] TrimPrefix_append [of "b @ ''/''" rest]
    by (simp add: client_rest_def or_empty_def Let_def)
  then show ?thesis using assms(2) path by (auto simp: TrimPrefix_def HasPrefix_iff split: if_splits)
qed

lemma apply_prefix_sound:
  assumes "list_all (\<lambda>r. HasSuffix (ccr_prefix r) ''/'') crs" "apply_prefix_loop crs path = (newPath, up)" "newPath \<noteq> path"
  shows "standard newPath \<and> (\<exists>pre. path = pre @ newPath)"
  using assms
proof (induction crs arbitrary: newPath up)
  case (Cons cr crs)
  obtain b where b: "ccr_prefix cr = b @ ''/''" using Cons.prems(1) by (auto simp: HasSuffix_iff)
  let ?trim = "TrimPrefix (client_rest (ccr_prefix cr) path) ''/''"
  have base: "TrimSuffix (ccr_prefix cr) ''/'' = b" by (simp add: b TrimSuffix_def HasSuffix_def)
  show ?case
  proof (cases "b = [] \<or> (path \<noteq> b \<and> \<not> HasPrefix path (ccr_prefix cr))")
    case True
    then have "apply_prefix_loop (cr # crs) path = apply_prefix_loop crs path" by (auto simp: base)
    then show ?thesis using Cons by simp
  next
    case False
    then have new: "newPath = ''/'' @ ?trim" "HasPrefix ?trim ''eth/v'' \<or> ?trim = ''healthz''"
      using Cons.prems(2,3) base by (auto simp: Let_def split: if_splits)
    have "HasPrefix path (ccr_prefix cr)"
    proof (rule ccontr)
      assume no: "\<not> HasPrefix path (ccr_prefix cr)"
      then have "?trim = []" by (simp add: client_rest_def or_empty_def TrimPrefix_def HasPrefix_def)
      then show False using new(2) by (simp add: HasPrefix_def)
    qed
    then have "path = b @ newPath \<or> path = (b @ ''/'') @ newPath" using client_rest_shape [of path b ?trim] new(1) b by auto
    moreover have "standard newPath" using standard_rest [OF new(2)] new(1) by simp
    ultimately show ?thesis by blast
  qed
qed simp

lemma CutByte_found: "CutByte b s = (x, y, True) \<Longrightarrow> s = x @ b # y"
  by (induction s arbitrary: x) (auto split: if_splits prod.splits)

lemma infer_sound:
  assumes "inferClientSelectorPath path p = Some (newPath, up)"
  shows "standard newPath \<and> up \<noteq> [] \<and> (\<exists>pre. path = pre @ newPath)"
proof -
  obtain sel rest ok where cut: "CutByte (CHR ''/'') (TrimPrefix path ''/'') = (sel, rest, ok)" by (metis prod_cases3)
  then have *: "ok" "sel \<noteq> []" "HasPrefix rest ''eth/v'' \<or> rest = ''healthz''" "newPath = ''/'' @ rest" "up \<noteq> []"
    using assms by (auto simp: inferClientSelectorPath_def split: if_splits)
  then have "TrimPrefix path ''/'' = sel @ newPath" using cut CutByte_found by fastforce
  moreover have "path = TrimPrefix path ''/'' \<or> path = ''/'' @ TrimPrefix path ''/''" by (auto simp: TrimPrefix_def HasPrefix_iff)
  ultimately have "path = sel @ newPath \<or> path = (''/'' @ sel) @ newPath" by auto
  then show ?thesis using * standard_rest by blast
qed


section \<open>Unchecked overrides\<close>

text \<open>Validation does not look at the failsafe overrides, and merging keeps a negative attempt count.\<close>

lemma validation_ignores_overrides:
  "validateNetwork lib (n\<lparr>nc_FailsafeOverrides := fos\<rparr>) ctx = validateNetwork lib n ctx"
  by (simp add: validateNetwork_def validateNetworkRouting_def)

lemma override_negative:
  "fs_Retry ov = Some r \<Longrightarrow> rt_MaxAttempts r < 0 \<Longrightarrow> MaxAttempts (mergeFailsafe base ov) = rt_MaxAttempts r"
  by (simp add: mergeFailsafe_def or_override_def applyFailsafeDefaults_def MaxAttempts_def default_retry_def or_zero_def)


section \<open>Properties\<close>




text \<open>The rewritten request loses the escaped form of its path, so an escaped slash behind a client prefix
  reaches the upstream as a separator.\<close>

lemma prefix_loses_escapes:
  "let r = (plainGet ''/a/eth/v1/beacon/blocks/x/y'')\<lparr>r_URL := \<lparr>u_Path = ''/a/eth/v1/beacon/blocks/x/y'',
        u_RawPath = ''/a/eth/v1/beacon/blocks/x%2Fy'', u_RawQuery = []\<rparr>\<rparr>;
      r' = fst (rewriteClientPath None (samplePool [zeroUpstreamConfig\<lparr>uc_ID := ''a''\<rparr>] (NewBlockCache 32 2)) r)
   in pathAndQueryForUpstream (r_URL r) = ''/a/eth/v1/beacon/blocks/x%2Fy'' \<and>
      pathAndQueryForUpstream (r_URL r') = ''/eth/v1/beacon/blocks/x/y''"
  by code_simp

end
