(* ===== verification/Server.thy ===== *)
theory Server
  imports Execute Routing
begin

text \<open>
  The request handler of a network, \<open>ServeHTTP\<close> of \<open>src/network/network.go\<close>, from the rewritten path to the reply: the
  synthetic health answers, the guards, rate limits and sessions, the choice of an upstream, the cache, request
  multiplexing, the dispatch, and what is recorded of its outcome.

  The multiplexer belongs to \<open>golang.org/x/sync/singleflight\<close>.  It either runs the function of its caller or hands
  out the result of a run in progress under the same key; which of the two is the parameter \<open>v_inflight\<close>.  Metrics and
  logging are left out.
\<close>

record Network =
  n_id :: string
  n_cfg :: NetworkConfig
  n_pool :: Pool
  n_cache :: "mem_cache option"
  n_sessions :: "SessionManager option"
  n_routing :: "compiledRouting option"
  n_blocked :: "matcher list"
  n_overrides :: "compiledFailsafeOverride list"
  n_failsafe :: FailsafeConfig
  n_consensus :: "ConsensusPolicy option"
  n_perIP :: bool
  n_globalLimiter :: "limiter option"
  n_gzipEnabled :: bool
  n_maxResponseBytes :: int
  n_names :: "string \<rightharpoonup> string"

datatype mux_error = MuxExec exec_error | MuxRead read_error | MuxPanic

type_synonym muxResult = "http_Response \<times> string \<times> string"

text \<open>Everything outside the program that one request meets.\<close>

record world =
  v_env :: env
  v_parseFloat :: "string \<Rightarrow> real option"
  v_parseAddr :: "string \<Rightarrow> netip_Addr option"
  v_trusted :: "netip_Prefix list option"
  v_gzip :: "string \<Rightarrow> string"
  v_digest :: "string \<Rightarrow> string"
  v_now :: time
  v_end :: time
  v_body :: "http_Body option"
  v_inflight :: "string \<Rightarrow> (mux_error + muxResult) option"
  v_gone :: bool
  v_cancel :: bool

text \<open>\<open>Waiting\<close> is a handler whose hedged request has not returned, \<open>Aborted\<close> one that panicked.\<close>

datatype reply = Replied client_Response | NothingWritten | Streamed string Selector | Aborted | Waiting

definition http_Error :: "http_Header \<Rightarrow> string \<Rightarrow> int \<Rightarrow> client_Response" where
  "http_Error wh msg code =
     \<lparr>w_Status = code,
      w_Header = Header_Set ''X-Content-Type-Options'' ''nosniff''
        (Header_Set ''Content-Type'' ''text/plain; charset=utf-8'' (Header_Del ''Content-Length'' wh)),
      w_Body = msg @ [CHR 0x0A]\<rparr>"


section \<open>Health answers\<close>

definition HealthzStatus :: "HealthStatus \<Rightarrow> string \<times> int" where
  "HealthzStatus hs = (case hs of HealthUp \<Rightarrow> (''ok'', 200) | HealthDegraded \<Rightarrow> (''degraded'', 200) | HealthDown \<Rightarrow> (''down'', 503))"

definition quoted :: "string \<Rightarrow> string" where
  "quoted s = [CHR 0x22] @ s @ [CHR 0x22]"

definition serveHealthz :: "http_Header \<Rightarrow> Pool \<Rightarrow> string \<Rightarrow> client_Response" where
  "serveHealthz wh p clientUpstream =
     (let sel = ParseSelector clientUpstream;
          (total_n, up, degraded, down) = HealthCounts p sel;
          (status, code) = HealthzStatus (NodeHealthStatus p sel)
      in \<lparr>w_Status = code, w_Header = Header_Set ''Content-Type'' ''application/json'' wh,
          w_Body = ''{'' @ quoted ''status'' @ '':'' @ quoted status @ '','' @ quoted ''upstreams'' @ '':'' @ itoa total_n @ '','' @
            quoted ''healthy'' @ '':'' @ itoa up @ '','' @ quoted ''degraded'' @ '':'' @ itoa degraded @ '','' @
            quoted ''down'' @ '':'' @ itoa down @ ''}''\<rparr>)"

definition serve_node_health :: "http_Header \<Rightarrow> Pool \<Rightarrow> string \<Rightarrow> client_Response" where
  "serve_node_health wh p clientUpstream =
     \<lparr>w_Status = (case NodeHealthStatus p (ParseSelector clientUpstream) of HealthUp \<Rightarrow> 200 | HealthDegraded \<Rightarrow> 206 | HealthDown \<Rightarrow> 503),
      w_Header = wh, w_Body = []\<rparr>"


section \<open>Rate limits and sessions\<close>

text \<open>A refusal names the limiter that refused.\<close>

definition limit_global :: "world \<Rightarrow> Network \<Rightarrow> bool \<times> Network" where
  "limit_global v n =
     (case n_globalLimiter n of
        None \<Rightarrow> (True, n)
      | Some l \<Rightarrow> (e_tokens (v_env v) l (v_now v) \<ge> 1, n\<lparr>n_globalLimiter := Some (l @ [Allow (v_now v)])\<rparr>))"

definition limit_session :: "world \<Rightarrow> http_Request \<Rightarrow> Network \<Rightarrow> bool \<times> handle option \<times> Network" where
  "limit_session v r n =
     (case n_sessions n of
        None \<Rightarrow> (True, None, n)
      | Some sm \<Rightarrow>
          (case session_Get (v_now v) (ClientIP (v_parseAddr v) (v_trusted v) r) sm of
             (h, sm1) \<Rightarrow>
               if n_perIP n then
                 (case map_of (byIP sm1) (fst h) of
                    None \<Rightarrow> (True, Some h, n\<lparr>n_sessions := Some sm1\<rparr>)
                  | Some s \<Rightarrow>
                      (fst (sess_Allow (e_tokens (v_env v)) (v_now v) s), Some h,
                       n\<lparr>n_sessions := Some (upd_session h (\<lambda>s. snd (sess_Allow (e_tokens (v_env v)) (v_now v) s)) sm1)\<rparr>))
               else (True, Some h, n\<lparr>n_sessions := Some sm1\<rparr>)))"

definition StickyUpstream :: "handle option \<Rightarrow> Network \<Rightarrow> string" where
  "StickyUpstream sess n =
     (case (sess, n_sessions n) of
        (Some h, Some sm) \<Rightarrow> (case map_of (byIP sm) (fst h) of None \<Rightarrow> [] | Some s \<Rightarrow> stickyID s)
      | _ \<Rightarrow> [])"


section \<open>Choice of the upstream\<close>

text \<open>The preferred upstream, the required selector, and the scope of the cache key.\<close>

definition directive_selector :: "Pool \<Rightarrow> string \<Rightarrow> Selector" where
  "directive_selector p directive =
     (let s = ParseSelector directive in
      if sel_ID s \<noteq> [] \<and> IsKnownClientType (sel_ID s) \<and> HasMatching p (client_selector (ToLower (sel_ID s)))
      then client_selector (ToLower (sel_ID s)) else s)"

definition no_selector :: Selector where
  "no_selector = \<lparr>sel_ID = [], sel_ClientType = [], sel_Glob = []\<rparr>"

definition route_request :: "http_Request \<Rightarrow> string \<Rightarrow> string \<Rightarrow> bool \<Rightarrow> handle option \<Rightarrow> Network \<Rightarrow> string \<times> Selector \<times> string" where
  "route_request r clientUpstream ruleUpstream ruleHit sess n =
     (let directive = upstreamDirective r in
      if directive \<noteq> [] then
        let s = directive_selector (n_pool n) directive in ([], s, String s)
      else if ruleHit \<and> ruleUpstream \<noteq> [] then (ruleUpstream, no_selector, ruleUpstream)
      else if clientUpstream \<noteq> [] then
        let s = ParseSelector clientUpstream in ([], s, String s)
      else if sess \<noteq> None \<and> ro_StickySession (nc_Routing (n_cfg n)) then (StickyUpstream sess n, no_selector, [])
      else ([], no_selector, []))"


section \<open>Cache\<close>

definition cache_lookup :: "world \<Rightarrow> http_Request \<Rightarrow> string \<Rightarrow> Network \<Rightarrow> (string \<times> policy) option \<times> Entry option \<times> Network" where
  "cache_lookup v r scope n =
     (case n_cache n of
        None \<Rightarrow> (None, None, n)
      | Some c \<Rightarrow>
          if r_Method r \<noteq> ''GET'' then (None, None, n)
          else (case Policy c (r_Method r) (u_Path (r_URL r)) of
                  None \<Rightarrow> (None, None, n)
                | Some po \<Rightarrow>
                    let key = buildCacheKey (v_parseFloat v) (n_id n) r scope in
                    (case cache_Get (v_now v) key c of
                       (entry, c1) \<Rightarrow> (Some (key, po), entry, n\<lparr>n_cache := Some c1\<rparr>))))"

definition serve_hit :: "world \<Rightarrow> http_Header \<Rightarrow> http_Request \<Rightarrow> Network \<Rightarrow> Entry \<Rightarrow> client_Response" where
  "serve_hit v wh r n e =
     (let wh1 = Header_Set ''X-Ebeacon-Cache'' ''HIT'' (copyEndToEndHeaders wh (e_headers e)) in
      fst (writeBody (v_gzip v) (n_gzipEnabled n) r wh1 (e_status e) (e_headers e) (e_body e) (Some e)))"

definition store_response ::
  "world \<Rightarrow> http_Request \<Rightarrow> (string \<times> policy) option \<Rightarrow> http_Response \<Rightarrow> string \<Rightarrow> Network \<Rightarrow> Network" where
  "store_response v r cached resp body n =
     (case (cached, n_cache n) of
        (Some (key, po), Some c) \<Rightarrow>
          if StatusCode resp \<ge> 200 \<and> StatusCode resp < 300 \<and>
             representationMatches (acceptPrefersSSZ (v_parseFloat v) (Header_Get (r_Header r) ''Accept'')) (rs_Header resp)
          then n\<lparr>n_cache := Some (cache_Set (v_end v) key (StatusCode resp) (rs_Header resp) body
                   (effectiveCacheTTL (v_end v) (n_cfg n) (n_pool n) (po_ttl po) (u_Path (r_URL r))) c)\<rparr>
          else n
      | _ \<Rightarrow> n)"


section \<open>Dispatch\<close>

definition maxRequestBody :: int where "maxRequestBody = 32 * 1048576"

datatype body_error = BodyUnreadable | BodyOverLimit

definition buffer_body :: "http_Body option \<Rightarrow> body_error + string" where
  "buffer_body b =
     (case b of
        None \<Rightarrow> Inr []
      | Some body \<Rightarrow>
          (case fst (ReadLimited (nat (maxRequestBody + 1)) body) of
             Inl _ \<Rightarrow> Inl BodyUnreadable
           | Inr d \<Rightarrow> if int (length d) > maxRequestBody then Inl BodyOverLimit else Inr d))"

text \<open>The dispatch of this request under its failsafe settings.\<close>

definition execute :: "world \<Rightarrow> http_Request \<Rightarrow> string \<Rightarrow> Selector \<Rightarrow> Network \<Rightarrow> (outcome \<times> Pool) option" where
  "execute v r preferID required n =
     executeFS (v_env v) (n_consensus n) (n_maxResponseBytes n) (r_Method r) (u_Path (r_URL r)) preferID required
       (effectiveFailsafe (n_overrides n) (n_failsafe n) (r_Method r) (u_Path (r_URL r)))
       (normalizeAPIPath (u_Path (r_URL r))) (n_pool n)"

text \<open>The function run by the leader of a multiplexed request: a panic becomes an error, the body is read and the
  token settled before the result is shared.\<close>

definition give_back_at :: "string \<Rightarrow> time \<Rightarrow> cbOutcome \<Rightarrow> trackedBody option \<Rightarrow> CBToken \<Rightarrow> Pool \<Rightarrow> Pool" where
  "give_back_at i t out b tok p = settle_at i t out tok (case b of None \<Rightarrow> p | Some body \<Rightarrow> close_at i body p)"

definition lead :: "world \<Rightarrow> http_Request \<Rightarrow> string \<Rightarrow> Selector \<Rightarrow> Network \<Rightarrow> ((mux_error + muxResult) \<times> Pool) option" where
  "lead v r preferID required n =
     (case execute v r preferID required n of
        None \<Rightarrow> None
      | Some (Panicked, p) \<Rightarrow> Some (Inl MuxPanic, p)
      | Some (Failed err, p) \<Rightarrow> Some (Inl (MuxExec err), p)
      | Some (Served resp b i tok, p) \<Rightarrow>
          (case readAndFinalizeResponseBody (r_Method r) resp (n_maxResponseBytes n) of
             Inl err \<Rightarrow> Some (Inl (MuxRead err), give_back_at i (v_end v) cbSettleFailure b tok p)
           | Inr (body, resp') \<Rightarrow>
               Some (Inr (resp', i, body), give_back_at i (v_end v) (settle_outcome (StatusCode resp)) b tok p)))"

text \<open>The answer to a failed dispatch.\<close>

definition serve_failed :: "http_Header \<Rightarrow> exec_error option \<Rightarrow> client_Response" where
  "serve_failed wh err =
     (case err of
        Some (SelectedUnavailable _ _) \<Rightarrow> http_Error wh ''selected upstream unavailable'' 503
      | _ \<Rightarrow> http_Error wh ''bad gateway'' 502)"

definition set_sticky :: "handle option \<Rightarrow> string \<Rightarrow> Network \<Rightarrow> Network" where
  "set_sticky sess i n =
     (case (sess, n_sessions n) of
        (Some h, Some sm) \<Rightarrow>
          if ro_StickySession (nc_Routing (n_cfg n)) then n\<lparr>n_sessions := Some (upd_session h (SetSticky i) sm)\<rparr> else n
      | _ \<Rightarrow> n)"

text \<open>What is recorded of a response and written to the client, once its body is at hand.\<close>

definition record_response :: "world \<Rightarrow> string \<Rightarrow> int \<Rightarrow> Upstream \<Rightarrow> Upstream" where
  "record_response v apiPath status u =
     RecordResponseStatus (v_end v) status
       (if status < 500 \<and> \<not> shouldTreatStatusAsPathError apiPath status
        then RecordSuccessForPath apiPath (v_end v - v_now v) u
        else RecordScoreErrorForPath apiPath u)"

definition write_response :: "world \<Rightarrow> http_Header \<Rightarrow> http_Request \<Rightarrow> string \<Rightarrow> http_Response \<Rightarrow> string \<Rightarrow> Network \<Rightarrow> client_Response \<times> Network" where
  "write_response v wh r i resp body n =
     (case ObfuscateUpstreamID (n_names n) i of
        (name, names) \<Rightarrow>
          let wh1 = Header_Set ''X-Ebeacon-Upstream'' name wh;
              ct = (case ByID (n_pool n) i of None \<Rightarrow> [] | Some u \<Rightarrow> clientType u);
              wh2 = (if ct \<noteq> [] \<and> ct \<noteq> ''unknown'' then Header_Set ''X-Ebeacon-Client-Type'' ct wh1 else wh1);
              wh3 = copyEndToEndHeaders wh2 (rs_Header resp)
          in (fst (writeBody (v_gzip v) (n_gzipEnabled n) r wh3 (StatusCode resp) (rs_Header resp) body None), n\<lparr>n_names := names\<rparr>))"

definition deliver ::
  "world \<Rightarrow> http_Header \<Rightarrow> http_Request \<Rightarrow> (string \<times> policy) option \<Rightarrow> string \<Rightarrow> http_Response \<Rightarrow> string \<Rightarrow> Network \<Rightarrow> reply \<times> Network" where
  "deliver v wh r cached i resp body n =
     (let n1 = store_response v r cached resp body n;
          n2 = n1\<lparr>n_pool := upd_up i (record_response v (normalizeAPIPath (u_Path (r_URL r))) (StatusCode resp)) (n_pool n1)\<rparr>
      in case write_response v wh r i resp body n2 of (w, n3) \<Rightarrow> (Replied w, n3))"

text \<open>A multiplexed request.\<close>

definition serve_multiplexed ::
  "world \<Rightarrow> http_Header \<Rightarrow> http_Request \<Rightarrow> string \<Rightarrow> Selector \<Rightarrow> string \<Rightarrow> (string \<times> policy) option \<Rightarrow> string \<Rightarrow> handle option \<Rightarrow> Network \<Rightarrow> reply \<times> Network" where
  "serve_multiplexed v wh r preferID required scope cached body sess n =
     (let key = dedupKey (v_digest v) (n_id n) (r_Method r) (r_URL r) body scope
                  (acceptPrefersSSZ (v_parseFloat v) (Header_Get (r_Header r) ''Accept'')) in
      case (case v_inflight v key of Some res \<Rightarrow> Some (res, n_pool n) | None \<Rightarrow> lead v r preferID required n) of
        None \<Rightarrow> (Waiting, n)
      | Some (res, p) \<Rightarrow>
          let n1 = n\<lparr>n_pool := p\<rparr> in
          if v_gone v then (NothingWritten, n1)
          else (case res of
                  Inl (MuxExec err) \<Rightarrow> (Replied (serve_failed wh (Some err)), n1)
                | Inl _ \<Rightarrow> (Replied (serve_failed wh None), n1)
                | Inr (resp, i, respBody) \<Rightarrow> deliver v wh r cached i resp respBody (set_sticky sess i n1)))"

text \<open>A request of its own; the body is closed when the handler returns.\<close>

definition serve_single ::
  "world \<Rightarrow> http_Header \<Rightarrow> http_Request \<Rightarrow> string \<Rightarrow> Selector \<Rightarrow> (string \<times> policy) option \<Rightarrow> handle option \<Rightarrow> Network \<Rightarrow> reply \<times> Network" where
  "serve_single v wh r preferID required cached sess n =
     (case execute v r preferID required n of
        None \<Rightarrow> (Waiting, n)
      | Some (Panicked, p) \<Rightarrow> (Aborted, n\<lparr>n_pool := p\<rparr>)
      | Some (Failed err, p) \<Rightarrow> (Replied (serve_failed wh (Some err)), n\<lparr>n_pool := p\<rparr>)
      | Some (Served resp b i tok, p) \<Rightarrow>
          let n1 = set_sticky sess i (n\<lparr>n_pool := p\<rparr>);
              close = (\<lambda>x. x\<lparr>n_pool := (case b of None \<Rightarrow> n_pool x | Some body \<Rightarrow> close_at i body (n_pool x))\<rparr>) in
          (case readAndFinalizeResponseBody (r_Method r) resp (n_maxResponseBytes n) of
             Inl err \<Rightarrow>
               (Replied (http_Error wh ''bad gateway'' 502),
                close (n1\<lparr>n_pool :=
                  (if v_cancel v then settle_at i (v_end v) cbSettleRelease tok (n_pool n1)
                   else upd_up i (recordUpstreamFailure (v_end v) tok (normalizeAPIPath (u_Path (r_URL r)))) (n_pool n1))\<rparr>))
           | Inr (body, resp') \<Rightarrow>
               (case deliver v wh r cached i resp' body
                       (n1\<lparr>n_pool := settle_at i (v_end v) (settle_outcome (StatusCode resp)) tok (n_pool n1)\<rparr>) of
                  (w, n2) \<Rightarrow> (w, close n2))))"


section \<open>The handler\<close>

definition serve_admitted ::
  "world \<Rightarrow> http_Header \<Rightarrow> http_Request \<Rightarrow> string \<Rightarrow> string \<Rightarrow> bool \<Rightarrow> handle option \<Rightarrow> Network \<Rightarrow> reply \<times> Network" where
  "serve_admitted v wh r clientUpstream ruleUpstream ruleHit sess n =
     (case route_request r clientUpstream ruleUpstream ruleHit sess n of
        (preferID, required, scope) \<Rightarrow>
          if isEventStream r then (Streamed preferID required, n)
          else (case cache_lookup v r scope n of
                  (_, Some entry, n1) \<Rightarrow> (Replied (serve_hit v wh r n1 entry), n1)
                | (cached, None, n1) \<Rightarrow>
                    (case buffer_body (v_body v) of
                       Inl BodyUnreadable \<Rightarrow> (Replied (http_Error wh ''failed to read request body'' 400), n1)
                     | Inl BodyOverLimit \<Rightarrow> (Replied (http_Error wh ''request body too large'' 413), n1)
                     | Inr body \<Rightarrow>
                         if r_Method r = ''GET'' \<or> r_Method r = ''HEAD''
                         then serve_multiplexed v wh r preferID required scope cached body sess n1
                         else serve_single v wh r preferID required cached sess n1)))"

definition serve_limited :: "world \<Rightarrow> http_Header \<Rightarrow> http_Request \<Rightarrow> string \<Rightarrow> string \<Rightarrow> bool \<Rightarrow> Network \<Rightarrow> reply \<times> Network" where
  "serve_limited v wh r clientUpstream ruleUpstream ruleHit n =
     (case limit_global v n of
        (False, n1) \<Rightarrow> (Replied (http_Error (Header_Set ''X-Ebeacon-Rate-Limited'' ''global'' wh) ''rate limit exceeded'' 429), n1)
      | (True, n1) \<Rightarrow>
          (case limit_session v r n1 of
             (False, _, n2) \<Rightarrow> (Replied (http_Error (Header_Set ''X-Ebeacon-Rate-Limited'' ''per-ip'' wh) ''rate limit exceeded'' 429), n2)
           | (True, sess, n2) \<Rightarrow> serve_admitted v wh r clientUpstream ruleUpstream ruleHit sess n2))"

definition ServeHTTP :: "world \<Rightarrow> http_Header \<Rightarrow> http_Request \<Rightarrow> Network \<Rightarrow> reply \<times> Network" where
  "ServeHTTP v wh r0 n =
     (case rewriteClientPath (n_routing n) (n_pool n) r0 of
        (r, clientUpstream) \<Rightarrow>
          let path = u_Path (r_URL r) in
          if path = ''/eth/v1/node/health'' then (Replied (serve_node_health wh (n_pool n) clientUpstream), n)
          else if path = ''/healthz'' then (Replied (serveHealthz wh (n_pool n) clientUpstream), n)
          else if \<not> isCleanPath path then (Replied (http_Error wh ''invalid path'' 400), n)
          else if list_ex (\<lambda>pat. pat path) (n_blocked n) then (Replied (http_Error wh ''forbidden'' 403), n)
          else (case matchRouteRule (n_routing n) (r_Method r) path of
                  (deny, ruleUpstream, hit) \<Rightarrow>
                    if hit \<and> deny then (Replied (http_Error wh ''forbidden'' 403), n)
                    else serve_limited v wh r clientUpstream ruleUpstream hit n))"


section \<open>What the steps leave alone\<close>

lemma set_sticky_fields [simp]:
  "n_pool (set_sticky sess i n) = n_pool n" "n_cache (set_sticky sess i n) = n_cache n" "n_cfg (set_sticky sess i n) = n_cfg n"
  "n_id (set_sticky sess i n) = n_id n"
  by (simp_all add: set_sticky_def split: option.splits)

lemma limit_global_fields: "limit_global v n = (ok, n') \<Longrightarrow> n_pool n' = n_pool n \<and> n_cache n' = n_cache n \<and> n_id n' = n_id n"
  by (auto simp: limit_global_def split: option.splits)

lemma limit_session_fields: "limit_session v r n = (ok, sess, n') \<Longrightarrow> n_pool n' = n_pool n \<and> n_cache n' = n_cache n \<and> n_id n' = n_id n"
  by (auto simp: limit_session_def split: option.splits prod.splits if_splits)

lemma cache_lookup_pool: "cache_lookup v r scope n = (cached, entry, n') \<Longrightarrow> n_pool n' = n_pool n"
  by (auto simp: cache_lookup_def Let_def split: option.splits prod.splits if_splits)

lemma store_response_pool [simp]: "n_pool (store_response v r cached resp body n) = n_pool n"
  by (simp add: store_response_def split: option.splits prod.splits)

lemma write_response_pool: "write_response v wh r i resp body n = (w, n') \<Longrightarrow> n_pool n' = n_pool n \<and> n_cache n' = n_cache n"
  by (auto simp: write_response_def Let_def split: prod.splits)

lemma neutral_record_response: "neutral (record_response v apiPath status)"
  using neutral_records(1,2,3) unfolding neutral_def record_response_def by simp

lemma deliver_pool:
  assumes "deliver v wh r cached i resp body n = (w, n')"
  shows "\<exists>f. neutral f \<and> n_pool n' = upd_up i f (n_pool n)"
  using assms neutral_record_response
  by (intro exI [of _ "record_response v (normalizeAPIPath (u_Path (r_URL r))) (StatusCode resp)"])
    (auto simp: deliver_def Let_def dest!: write_response_pool split: prod.splits)


section \<open>Accounts of a request\<close>

lemma give_back_at_acct:
  assumes "acct p0 p [i \<mapsto> (b, tok)]"
  shows "acct p0 (give_back_at i t out b tok p) Map.empty"
proof (cases b)
  case None
  then show ?thesis using acct_settle [of p0 p "[i \<mapsto> (None, tok)]" i tok t out] assms by (simp add: give_back_at_def)
next
  case (Some body)
  then show ?thesis using acct_drop [of p0 p "[i \<mapsto> (Some body, tok)]" i body tok t out] assms by (simp add: give_back_at_def drop_at_def)
qed

lemma lead_acct:
  assumes "acct p0 (n_pool n) Map.empty" "lead v r preferID required n = Some (res, p')"
  shows "acct p0 p' Map.empty"
proof -
  obtain out p where x: "execute v r preferID required n = Some (out, p)" using assms(2) by (auto simp: lead_def split: option.splits)
  then have "acct p0 p (owed_by out)" using execute_acct [OF assms(1)] by (simp add: execute_def)
  then show ?thesis using assms(2) x give_back_at_acct by (cases out) (auto simp: lead_def split: sum.splits)
qed

lemma acct_close_settled:
  assumes "acct p0 p [i \<mapsto> (b, zeroToken)]"
  shows "acct p0 (case b of None \<Rightarrow> p | Some body \<Rightarrow> close_at i body p) Map.empty"
proof (cases b)
  case None
  then show ?thesis using acct_forget [of p0 p "[i \<mapsto> (None, zeroToken)]" i] assms by simp
next
  case (Some body)
  then have "acct p0 (close_at i body p) [i \<mapsto> (None, zeroToken)]" using acct_close [of p0 p "[i \<mapsto> (Some body, zeroToken)]" i body zeroToken] assms by simp
  then show ?thesis using acct_forget [of p0 "close_at i body p" "[i \<mapsto> (None, zeroToken)]" i] Some by simp
qed

lemma acct_settle_owed:
  assumes "acct p0 p [i \<mapsto> (b, tok)]"
  shows "acct p0 (settle_at i t out tok p) [i \<mapsto> (b, zeroToken)]"
proof (cases b)
  case None
  then have "acct p0 (settle_at i t out tok p) Map.empty" using acct_settle [of p0 p "[i \<mapsto> (None, tok)]" i tok t out] assms by simp
  then show ?thesis using acct_none_held None by simp
next
  case (Some body)
  then show ?thesis using acct_settle_early [of p0 p "[i \<mapsto> (Some body, tok)]" i body tok t out] assms by simp
qed

lemma acct_failure_owed:
  assumes "acct p0 p [i \<mapsto> (b, tok)]"
  shows "acct p0 (upd_up i (recordUpstreamFailure t tok path) p) [i \<mapsto> (b, zeroToken)]"
proof -
  have "upd_up i (recordUpstreamFailure t tok path) p = upd_up i (RecordScoreErrorForPath path) (settle_at i t cbSettleFailure tok p)"
    unfolding settle_at_def by (subst upd_up_upd_up) (simp_all add: recordUpstreamFailure_def [abs_def] comp_def)
  then show ?thesis using acct_neutral [OF acct_settle_owed [OF assms] neutral_records(1)] by simp
qed

lemma serve_single_acct:
  assumes "acct p0 (n_pool n) Map.empty" "serve_single v wh r preferID required cached sess n = (w, n')" "w \<noteq> Waiting"
  shows "acct p0 (n_pool n') Map.empty"
proof -
  obtain out p where x: "execute v r preferID required n = Some (out, p)"
    using assms(2,3) by (auto simp: serve_single_def split: option.splits)
  then have owed: "acct p0 p (owed_by out)" using execute_acct [OF assms(1)] by (simp add: execute_def)
  show ?thesis
  proof (cases out)
    case (Served resp b i tok)
    have one: "acct p0 p [i \<mapsto> (b, tok)]" using owed Served by simp
    note settled = acct_settle_owed [OF one] acct_failure_owed [OF one]
    show ?thesis
    proof (cases "readAndFinalizeResponseBody (r_Method r) resp (n_maxResponseBytes n)")
      case (Inl err)
      then show ?thesis using assms(2) x Served settled by (auto simp: serve_single_def Let_def intro!: acct_close_settled)
    next
      case (Inr y)
      obtain body resp' where y: "y = (body, resp')" by force
      obtain w' n2 where d: "deliver v wh r cached i resp' body ((set_sticky sess i (n\<lparr>n_pool := p\<rparr>))\<lparr>n_pool :=
          settle_at i (v_end v) (settle_outcome (StatusCode resp)) tok (n_pool (set_sticky sess i (n\<lparr>n_pool := p\<rparr>)))\<rparr>) = (w', n2)"
        by (metis surj_pair)
      obtain f where "neutral f" "n_pool n2 = upd_up i f (settle_at i (v_end v) (settle_outcome (StatusCode resp)) tok p)"
        using deliver_pool [OF d] by auto
      then have "acct p0 (n_pool n2) [i \<mapsto> (b, zeroToken)]" using acct_neutral [OF settled(1)] by simp
      moreover have "n_pool n' = (case b of None \<Rightarrow> n_pool n2 | Some c \<Rightarrow> close_at i c (n_pool n2))"
        using assms(2) x Served Inr y d by (auto simp: serve_single_def Let_def)
      ultimately show ?thesis using acct_close_settled by simp
    qed
  qed (use assms(2) x owed in \<open>auto simp: serve_single_def\<close>)
qed

lemma serve_multiplexed_acct:
  assumes "acct p0 (n_pool n) Map.empty" "serve_multiplexed v wh r preferID required scope cached body sess n = (w, n')" "w \<noteq> Waiting"
  shows "acct p0 (n_pool n') Map.empty"
proof -
  let ?key = "dedupKey (v_digest v) (n_id n) (r_Method r) (r_URL r) body scope
    (acceptPrefersSSZ (v_parseFloat v) (Header_Get (r_Header r) ''Accept''))"
  obtain res p where x: "(case v_inflight v ?key of Some res \<Rightarrow> Some (res, n_pool n) | None \<Rightarrow> lead v r preferID required n) = Some (res, p)"
    using assms(2,3) by (auto simp: serve_multiplexed_def Let_def split: option.splits)
  have ok: "acct p0 p Map.empty" using x lead_acct [OF assms(1)] assms(1) by (auto split: option.splits)
  show ?thesis
  proof (cases "v_gone v \<or> (\<exists>err. res = Inl err)")
    case True
    then show ?thesis using assms(2) x ok by (auto simp: serve_multiplexed_def Let_def split: if_splits mux_error.splits)
  next
    case False
    then obtain resp i b where r: "res = Inr (resp, i, b)" by (cases res) auto
    then have "deliver v wh r cached i resp b (set_sticky sess i (n\<lparr>n_pool := p\<rparr>)) = (w, n')"
      using assms(2) x False by (simp add: serve_multiplexed_def Let_def)
    from deliver_pool [OF this] show ?thesis using ok acct_neutral by auto
  qed
qed

lemma serve_admitted_acct:
  assumes "acct p0 (n_pool n) Map.empty" "serve_admitted v wh r cu ru hit sess n = (w, n')" "w \<noteq> Waiting"
  shows "acct p0 (n_pool n') Map.empty"
proof -
  obtain preferID required scope where rt: "route_request r cu ru hit sess n = (preferID, required, scope)" using prod_cases3 by blast
  obtain cached entry n1 where l: "cache_lookup v r scope n = (cached, entry, n1)" using prod_cases3 by blast
  have ok: "acct p0 (n_pool n1) Map.empty" using cache_lookup_pool [OF l] assms(1) by simp
  show ?thesis using assms rt l ok serve_multiplexed_acct [OF ok _ assms(3)] serve_single_acct [OF ok _ assms(3)]
    by (auto simp: serve_admitted_def split: if_splits option.splits sum.splits body_error.splits)
qed

lemma serve_acct:
  assumes "acct p0 (n_pool n) Map.empty" "ServeHTTP v wh r n = (w, n')" "w \<noteq> Waiting"
  shows "acct p0 (n_pool n') Map.empty"
proof -
  obtain r1 cu where rw: "rewriteClientPath (n_routing n) (n_pool n) r = (r1, cu)" by (metis surj_pair)
  obtain deny ru hit where m: "matchRouteRule (n_routing n) (r_Method r1) (u_Path (r_URL r1)) = (deny, ru, hit)" using prod_cases3 by blast
  have lim: "acct p0 (n_pool n2) Map.empty" if "serve_limited v wh r1 cu ru hit n = (w, n2)" for n2
  proof -
    obtain ok1 n1 where g: "limit_global v n = (ok1, n1)" by (metis surj_pair)
    obtain ok2 sess n3 where s: "limit_session v r1 n1 = (ok2, sess, n3)" using prod_cases3 by blast
    have "acct p0 (n_pool n1) Map.empty" "acct p0 (n_pool n3) Map.empty"
      using limit_global_fields [OF g] limit_session_fields [OF s] assms(1) by simp_all
    then show ?thesis using that g s serve_admitted_acct [OF _ _ assms(3)] by (auto simp: serve_limited_def split: bool.splits)
  qed
  then show ?thesis using assms rw m by (auto simp: ServeHTTP_def Let_def split: if_splits)
qed

text \<open>C2. A request leaves no trace of itself in the pool: once the handler of a request is through with it - whatever the
  method, the route, the cache, multiplexing, the dispatcher, a failed read or a client that left - every upstream has
  the active connections it had before, its recovery probe is as free or as taken as before, and its breaker invariant
  holds.\<close>

theorem serve_leaks_nothing:
  assumes "pool_ok (n_pool n)" "ServeHTTP v wh r n = (w, n')" "w \<noteq> Waiting"
  shows "list_all2 balanced (upstreams (n_pool n)) (upstreams (n_pool n'))"
  using acct_balanced [OF serve_acct [OF acct_refl [OF assms(1)] assms(2,3)]] .


section \<open>Where cached answers come from\<close>

text \<open>The reply \<open>w\<close> to request \<open>r\<close> is what entry \<open>e\<close> holds under \<open>key\<close>: the key is the one of the request as rewritten, and status
  and body are those of a successful answer in the representation the client asked for.\<close>

definition answered_with :: "world \<Rightarrow> string \<Rightarrow> http_Request \<Rightarrow> reply \<Rightarrow> string \<Rightarrow> Entry \<Rightarrow> bool" where
  "answered_with v networkID r w key e \<longleftrightarrow>
     (\<exists>scope resp. key = buildCacheKey (v_parseFloat v) networkID r scope \<and> w = Replied resp \<and>
        w_Status resp = e_status e \<and> w_Body resp \<in> {e_body e, v_gzip v (e_body e)} \<and> 200 \<le> e_status e \<and> e_status e < 300 \<and>
        representationMatches (acceptPrefersSSZ (v_parseFloat v) (Header_Get (r_Header r) ''Accept'')) (e_headers e) \<and> e_gzipBody e = None)"

text \<open>The effect of one request on the cache: at most one entry is set, and that is the answer given.\<close>

definition cache_effect :: "world \<Rightarrow> string \<Rightarrow> http_Request \<Rightarrow> reply \<Rightarrow> mem_cache \<Rightarrow> mem_cache \<Rightarrow> bool" where
  "cache_effect v networkID r w c c' \<longleftrightarrow>
     (\<exists>ops. c' = fold cache_exec ops c \<and>
        (\<forall>I. fold ideal_exec ops I = I \<or> (\<exists>key e. fold ideal_exec ops I = I(key \<mapsto> e) \<and> answered_with v networkID r w key e)))"

lemma cache_effect_refl: "cache_effect v networkID r w c c"
  by (auto simp: cache_effect_def intro: exI [of _ "[]"])

lemma cache_effect_get: "cache_effect v networkID r w (snd (cache_Get t key c)) c' \<Longrightarrow> cache_effect v networkID r w c c'"
proof -
  assume "cache_effect v networkID r w (snd (cache_Get t key c)) c'"
  then obtain ops where "c' = fold cache_exec ops (snd (cache_Get t key c))"
    "\<forall>I. fold ideal_exec ops I = I \<or> (\<exists>key e. fold ideal_exec ops I = I(key \<mapsto> e) \<and> answered_with v networkID r w key e)"
    by (auto simp: cache_effect_def)
  then show ?thesis unfolding cache_effect_def by (intro exI [of _ "CGet t key # ops"]) simp
qed

lemma writeBody_plain:
  "w_Status (fst (writeBody z g r wh st h b None)) = st" "w_Body (fst (writeBody z g r wh st h b None)) \<in> {b, z b}"
  by (simp_all add: writeBody_def Let_def)

definition key_for :: "world \<Rightarrow> string \<Rightarrow> http_Request \<Rightarrow> (string \<times> policy) option \<Rightarrow> bool" where
  "key_for v networkID r cached \<longleftrightarrow>
     (case cached of None \<Rightarrow> True | Some (key, _) \<Rightarrow> \<exists>scope. key = buildCacheKey (v_parseFloat v) networkID r scope)"

lemma deliver_cache:
  assumes "deliver v wh r cached i resp body n = (w, n')" "n_cache n = Some c" "key_for v (n_id n) r cached"
  shows "\<exists>c'. n_cache n' = Some c' \<and> cache_effect v (n_id n) r w c c'"
proof -
  let ?n1 = "store_response v r cached resp body n"
  have n': "n_cache n' = n_cache ?n1" and w: "\<exists>x. w = Replied x \<and> w_Status x = StatusCode resp \<and> w_Body x \<in> {body, v_gzip v body}"
    using assms(1) writeBody_plain by (auto simp: deliver_def Let_def write_response_def split: prod.splits)
  show ?thesis
  proof (cases "n_cache ?n1 = n_cache n")
    case True
    then show ?thesis using n' assms(2) cache_effect_refl by auto
  next
    case False
    then obtain key po where k: "cached = Some (key, po)" "200 \<le> StatusCode resp" "StatusCode resp < 300"
      "representationMatches (acceptPrefersSSZ (v_parseFloat v) (Header_Get (r_Header r) ''Accept'')) (rs_Header resp)"
      "n_cache ?n1 = Some (cache_Set (v_end v) key (StatusCode resp) (rs_Header resp) body
         (effectiveCacheTTL (v_end v) (n_cfg n) (n_pool n) (po_ttl po) (u_Path (r_URL r))) c)"
      using assms(2) by (auto simp: store_response_def split: option.splits prod.splits if_splits)
    let ?op = "CSet (v_end v) key (StatusCode resp) (rs_Header resp) body
      (effectiveCacheTTL (v_end v) (n_cfg n) (n_pool n) (po_ttl po) (u_Path (r_URL r)))"
    have "answered_with v (n_id n) r w key (newEntry (v_end v) key (StatusCode resp) (rs_Header resp) body ttl)" for ttl
      using w k assms(3) by (auto simp: answered_with_def newEntry_def key_for_def)
    then have "cache_effect v (n_id n) r w c (fold cache_exec [?op] c)"
      unfolding cache_effect_def by (intro exI [of _ "[?op]"]) auto
    then show ?thesis using n' k(5) by auto
  qed
qed

lemma serve_multiplexed_cache:
  assumes "serve_multiplexed v wh r preferID required scope cached body sess n = (w, n')" "n_cache n = Some c" "key_for v (n_id n) r cached"
  shows "\<exists>c'. n_cache n' = Some c' \<and> cache_effect v (n_id n) r w c c'"
proof -
  have "\<exists>c'. n_cache n' = Some c' \<and> cache_effect v (n_id n) r w c c'"
    if "deliver v wh r cached i resp b (set_sticky sess i m) = (w, n')" "n_cache m = n_cache n" "n_id m = n_id n" for i resp b m
    using deliver_cache [OF that(1)] that(2,3) assms(2,3) by simp
  then show ?thesis using assms(1,2) cache_effect_refl [of v "n_id n" r w c]
    by (fastforce simp: serve_multiplexed_def Let_def split: option.splits prod.splits if_splits sum.splits mux_error.splits)
qed

lemma serve_single_cache:
  assumes "serve_single v wh r preferID required cached sess n = (w, n')" "n_cache n = Some c" "key_for v (n_id n) r cached"
  shows "\<exists>c'. n_cache n' = Some c' \<and> cache_effect v (n_id n) r w c c'"
proof -
  have "\<exists>c'. n_cache n2 = Some c' \<and> cache_effect v (n_id n) r w c c'"
    if "deliver v wh r cached i resp b ((set_sticky sess i (n\<lparr>n_pool := p\<rparr>))\<lparr>n_pool := q\<rparr>) = (w, n2)" for i resp b p q n2
    using deliver_cache [OF that] assms(2,3) by simp
  then show ?thesis using assms(1,2) cache_effect_refl [of v "n_id n" r w c]
    by (auto simp: serve_single_def Let_def split: option.splits prod.splits outcome.splits sum.splits)
qed

lemma serve_admitted_cache:
  assumes "serve_admitted v wh r cu ru hit sess n = (w, n')" "n_cache n = Some c"
  shows "\<exists>c'. n_cache n' = Some c' \<and> cache_effect v (n_id n) r w c c'"
proof -
  obtain preferID required scope where rt: "route_request r cu ru hit sess n = (preferID, required, scope)" using prod_cases3 by blast
  obtain cached entry n1 where l: "cache_lookup v r scope n = (cached, entry, n1)" using prod_cases3 by blast
  have key: "key_for v (n_id n1) r cached" and id: "n_id n1 = n_id n"
    using l by (auto simp: cache_lookup_def key_for_def Let_def split: option.splits prod.splits if_splits)
  have "\<exists>c1. n_cache n1 = Some c1 \<and> (\<forall>c'. cache_effect v (n_id n) r w c1 c' \<longrightarrow> cache_effect v (n_id n) r w c c')"
    using l assms(2) cache_effect_get by (auto simp: cache_lookup_def Let_def split: option.splits prod.splits if_splits) (metis snd_conv)
  then obtain c1 where c1: "n_cache n1 = Some c1" "\<And>c'. cache_effect v (n_id n) r w c1 c' \<Longrightarrow> cache_effect v (n_id n) r w c c'" by blast
  have "\<exists>c'. n_cache n' = Some c' \<and> cache_effect v (n_id n) r w c1 c'" if "\<not> isEventStream r"
    using assms(1) rt l that c1(1) id key cache_effect_refl [of v "n_id n" r w c1]
      serve_multiplexed_cache [of v wh r preferID required scope cached _ sess n1 w n' c1]
      serve_single_cache [of v wh r preferID required cached sess n1 w n' c1]
    by (auto simp: serve_admitted_def split: option.splits sum.splits body_error.splits if_splits)
  then show ?thesis using assms rt c1(2) cache_effect_refl [of v "n_id n" r w c]
    by (cases "isEventStream r") (auto simp: serve_admitted_def)
qed

lemma serve_cache:
  assumes "ServeHTTP v wh r n = (w, n')" "n_cache n = Some c"
  shows "\<exists>c'. n_cache n' = Some c' \<and> cache_effect v (n_id n) (fst (rewriteClientPath (n_routing n) (n_pool n) r)) w c c'"
proof -
  obtain r1 cu where rw: "rewriteClientPath (n_routing n) (n_pool n) r = (r1, cu)" by (metis surj_pair)
  obtain deny ru hit where m: "matchRouteRule (n_routing n) (r_Method r1) (u_Path (r_URL r1)) = (deny, ru, hit)" using prod_cases3 by blast
  have lim: "\<exists>c'. n_cache n' = Some c' \<and> cache_effect v (n_id n) r1 w c c'" if "serve_limited v wh r1 cu ru hit n = (w, n')"
  proof -
    obtain ok1 n1 where g: "limit_global v n = (ok1, n1)" by (metis surj_pair)
    obtain ok2 sess n2 where s: "limit_session v r1 n1 = (ok2, sess, n2)" using prod_cases3 by blast
    have "n_cache n1 = Some c" "n_cache n2 = Some c" "n_id n2 = n_id n"
      using limit_global_fields [OF g] limit_session_fields [OF s] assms(2) by simp_all
    then show ?thesis using that g s serve_admitted_cache [of v wh r1 cu ru hit sess n2 w n' c] cache_effect_refl [of v "n_id n" r1 w c]
      by (auto simp: serve_limited_def split: bool.splits)
  qed
  then show ?thesis using assms rw m cache_effect_refl [of v "n_id n" r1 w c] by (auto simp: ServeHTTP_def Let_def split: if_splits)
qed

text \<open>A history of requests, each with the world it meets; the network as each of them found it is kept with the reply.\<close>

fun serve_all :: "(world \<times> http_Header \<times> http_Request) list \<Rightarrow> Network \<Rightarrow> (world \<times> http_Request \<times> reply) list \<times> Network" where
  "serve_all [] n = ([], n)"
| "serve_all ((v, wh, r) # rest) n =
     (case ServeHTTP v wh r n of
        (w, n1) \<Rightarrow> (case serve_all rest n1 of (hist, n2) \<Rightarrow> ((v, fst (rewriteClientPath (n_routing n) (n_pool n) r), w) # hist, n2)))"

definition logged :: "string \<Rightarrow> (world \<times> http_Request \<times> reply) set \<Rightarrow> (string \<rightharpoonup> Entry) \<Rightarrow> bool" where
  "logged networkID hist I \<longleftrightarrow> (\<forall>key e. I key = Some e \<longrightarrow> (\<exists>v r w. (v, r, w) \<in> hist \<and> answered_with v networkID r w key e))"

lemma deliver_id: "deliver v wh r cached i resp body n = (w, n') \<Longrightarrow> n_id n' = n_id n"
  by (auto simp: deliver_def Let_def write_response_def store_response_def split: prod.splits option.splits if_splits)

lemma serve_id:
  assumes "ServeHTTP v wh r n = (w, n')"
  shows "n_id n' = n_id n"
proof -
  have multi: "n_id n2 = n_id n1" if "serve_multiplexed v wh r pr rq sc ca bo se n1 = (w', n2)" for r pr rq sc ca bo se n1 w' n2
    using that by (auto simp: serve_multiplexed_def Let_def dest!: deliver_id split: option.splits prod.splits if_splits sum.splits mux_error.splits)
  have single: "n_id n2 = n_id n1" if "serve_single v wh r pr rq ca se n1 = (w', n2)" for r pr rq ca se n1 w' n2
    using that by (auto simp: serve_single_def Let_def dest!: deliver_id split: option.splits prod.splits outcome.splits sum.splits)
  have look: "n_id n2 = n_id n1" if "cache_lookup v r sc n1 = (a, b, n2)" for r sc n1 a b n2
    using that by (auto simp: cache_lookup_def Let_def split: option.splits prod.splits if_splits)
  have adm: "n_id n2 = n_id n1" if "serve_admitted v wh r cu ru hit sess n1 = (w', n2)" for r cu ru hit sess n1 w' n2
    using that by (auto simp: serve_admitted_def dest!: multi single look split: prod.splits option.splits sum.splits body_error.splits if_splits)
  have "n_id n2 = n_id n" if "serve_limited v wh r cu ru hit n = (w', n2)" for r cu ru hit w' n2
    using that by (auto simp: serve_limited_def dest!: adm limit_global_fields limit_session_fields split: prod.splits bool.splits)
  then show ?thesis using assms by (auto simp: ServeHTTP_def Let_def split: prod.splits if_splits)
qed

lemma serve_all_logged:
  assumes "n_cache n = Some c" "store_inv (c_store c)" "mem_look (c_store c) \<subseteq>\<^sub>m I" "logged (n_id n) H I" "serve_all reqs n = (hist, n')"
  shows "\<exists>c' I'. n_cache n' = Some c' \<and> store_inv (c_store c') \<and> mem_look (c_store c') \<subseteq>\<^sub>m I' \<and> logged (n_id n) (H \<union> set hist) I'"
  using assms
proof (induction reqs n arbitrary: c I H hist n' rule: serve_all.induct)
  case (2 v wh r rest n)
  obtain w n1 where s: "ServeHTTP v wh r n = (w, n1)" by (metis surj_pair)
  obtain hist' n2 where t: "serve_all rest n1 = (hist', n2)" by (metis surj_pair)
  let ?x = "(v, fst (rewriteClientPath (n_routing n) (n_pool n) r), w)"
  have h: "hist = ?x # hist'" "n' = n2" using 2(6) s t by auto
  obtain c1 ops where c1: "n_cache n1 = Some c1" "c1 = fold cache_exec ops c"
    "\<And>I. fold ideal_exec ops I = I \<or> (\<exists>key e. fold ideal_exec ops I = I(key \<mapsto> e) \<and> answered_with v (n_id n) (fst (rewriteClientPath (n_routing n) (n_pool n) r)) w key e)"
    using serve_cache [OF s 2(2)] unfolding cache_effect_def by blast
  have inv: "store_inv (c_store c1)" "mem_look (c_store c1) \<subseteq>\<^sub>m fold ideal_exec ops I"
    using cache_run [OF 2(3,4), of ops] c1(2) by auto
  have "logged (n_id n1) (insert ?x H) (fold ideal_exec ops I)"
    using c1(3) [of I] 2(5) serve_id [OF s] by (auto simp: logged_def split: if_splits) blast+
  from 2(1) [OF s [symmetric] c1(1) inv this t] show ?case using h serve_id [OF s] by simp
qed auto


definition sampleWorld :: "(nat \<Rightarrow> attempt) \<Rightarrow> world" where
  "sampleWorld tries = \<lparr>v_env = quietEnv tries, v_parseFloat = \<lambda>_. None, v_parseAddr = \<lambda>_. None, v_trusted = None, v_gzip = id, v_digest = id,
     v_now = second, v_end = 2 * second, v_body = None, v_inflight = \<lambda>_. None, v_gone = False, v_cancel = False\<rparr>"

definition sampleNetwork :: Network where
  "sampleNetwork = \<lparr>n_id = ''mainnet'', n_cfg = zeroNetwork, n_pool = sampleThree,
     n_cache = Some \<lparr>c_store = NewMemoryStore 8, c_policies = [\<lparr>po_re = \<lambda>_. True, po_ttl = 60 * second, po_methods = [''GET'']\<rparr>]\<rparr>,
     n_sessions = None, n_routing = None, n_blocked = [], n_overrides = [], n_failsafe = retryTwice, n_consensus = None, n_perIP = False,
     n_globalLimiter = None, n_gzipEnabled = False, n_maxResponseBytes = 0, n_names = Map.empty\<rparr>"

lemma filled_cache:
  "case serve_all [(sampleWorld failsOnce, [], plainGet ''/eth/v1/node/version'')] sampleNetwork of
     (hist, n') \<Rightarrow> (case n_cache n' of
        None \<Rightarrow> False
      | Some c' \<Rightarrow> (case fst (cache_Get (3 * second) ''mainnet:GET:/eth/v1/node/version'' c') of None \<Rightarrow> False | Some e \<Rightarrow> e_body e = ''ok''))"
  by code_simp


lemma answered_sample:
  "fst (ServeHTTP (sampleWorld failsOnce) [] (plainGet ''/eth/v1/node/version'') sampleNetwork) \<noteq> Waiting"
  by code_simp

lemma serve_leaks_nothing_witness:
  "list_all2 balanced (upstreams sampleThree)
     (upstreams (n_pool (snd (ServeHTTP (sampleWorld failsOnce) [] (plainGet ''/eth/v1/node/version'') sampleNetwork))))"
proof -
  obtain w n' where "ServeHTTP (sampleWorld failsOnce) [] (plainGet ''/eth/v1/node/version'') sampleNetwork = (w, n')" by (metis surj_pair)
  then show ?thesis using serve_leaks_nothing [of sampleNetwork "sampleWorld failsOnce" "[]" "plainGet ''/eth/v1/node/version''" w n']
      answered_sample sampleThree_ok by (simp add: sampleNetwork_def)
qed

end
