(* ===== verification/Proxy.thy ===== *)
theory Proxy
  imports Server
begin

text \<open>
  The front of the program, \<open>src/proxy\<close>: authentication and its rate limits (\<open>auth.go\<close>, \<open>auth_ratelimit.go\<close>), routing to a
  network by path prefix (\<open>proxy.go\<close>), and cross-origin headers (\<open>cors.go\<close>).

  The networks are listed in the order a loop over their map visits them.  Limiters are traces of calls, as in the
  rest of the development; \<open>strconv.Quote\<close> and the string encoder of \<open>encoding/json\<close> are the parameters \<open>quote\<close> and \<open>json\<close>.
\<close>

section \<open>Authentication\<close>

record AuthResult =
  Authenticated :: bool
  ar_KeyID :: string
  ar_Tier :: string

definition constantTimeEquals :: "string \<Rightarrow> string \<Rightarrow> bool" where
  "constantTimeEquals a b \<longleftrightarrow> \<not> (length a = 0 \<or> length b = 0) \<and> a = b"

definition bearer_token :: "string \<Rightarrow> string" where
  "bearer_token header =
     (let auth = TrimSpace header in
      if length auth > 6 \<and> EqualFold (take 6 auth) ''bearer'' then TrimSpace (drop 6 auth) else [])"

definition extractSecret :: "http_Request \<Rightarrow> string" where
  "extractSecret r =
     (let v1 = TrimSpace (Header_Get (r_Header r) ''X-EBEACON-Secret-Token'');
          v2 = TrimSpace (Header_Get (r_Header r) ''X-API-Key'');
          v3 = bearer_token (Header_Get (r_Header r) ''Authorization'')
      in if v1 \<noteq> [] then v1 else if v2 \<noteq> [] then v2 else if v3 \<noteq> [] then v3
         else Values_Get (Query (r_URL r)) ''secret'')"

definition presented :: "http_Request \<Rightarrow> string \<Rightarrow> string" where
  "presented r pathKey = or_empty (extractSecret r) pathKey"

definition AuthenticateRequest :: "http_Request \<Rightarrow> AuthConfig option \<Rightarrow> string \<Rightarrow> AuthResult" where
  "AuthenticateRequest r auth pathKey =
     (case auth of
        None \<Rightarrow> \<lparr>Authenticated = True, ar_KeyID = [], ar_Tier = []\<rparr>
      | Some a \<Rightarrow>
          let s = presented r pathKey in
          (case find (\<lambda>key. key_Secret key \<noteq> [] \<and> constantTimeEquals s (key_Secret key)) (auth_Keys a) of
             Some key \<Rightarrow> \<lparr>Authenticated = True, ar_KeyID = key_ID key, ar_Tier = key_Tier key\<rparr>
           | None \<Rightarrow>
               if auth_Secret a = [] then \<lparr>Authenticated = (auth_Keys a = []), ar_KeyID = [], ar_Tier = []\<rparr>
               else if constantTimeEquals s (auth_Secret a) then \<lparr>Authenticated = True, ar_KeyID = ''default'', ar_Tier = []\<rparr>
               else \<lparr>Authenticated = False, ar_KeyID = [], ar_Tier = []\<rparr>))"


section \<open>Rate limits of keys and tiers\<close>

definition auth_limiter :: "RateLimitConfig option \<Rightarrow> limiter option" where
  "auth_limiter rl =
     (case rl of
        None \<Rightarrow> None
      | Some c \<Rightarrow>
          if rl_Limit c > 0
          then Some [NewLimiter (rl_Limit c) (if rl_Burst c \<le> 0 then max \<lfloor>rl_Limit c\<rfloor> 1 else rl_Burst c)]
          else None)"

definition named_limiters :: "(string \<times> RateLimitConfig option) list \<Rightarrow> (string \<times> limiter) list" where
  "named_limiters = foldl (\<lambda>m (name, rl). case auth_limiter rl of None \<Rightarrow> m | Some l \<Rightarrow> AList.update name l m) []"

definition buildAuthRateLimiters :: "AuthConfig option \<Rightarrow> (string \<times> limiter) list \<times> (string \<times> limiter) list" where
  "buildAuthRateLimiters auth =
     (case auth of
        None \<Rightarrow> ([], [])
      | Some a \<Rightarrow> (named_limiters (map (\<lambda>k. (key_ID k, key_RateLimiting k)) (auth_Keys a)),
                   named_limiters (map (\<lambda>t. (tier_Name t, tier_RateLimiting t)) (auth_Tiers a))))"

record Proxy =
  networks :: "(string \<times> Network) list"
  p_auth :: "AuthConfig option"
  keyLimiters :: "(string \<times> limiter) list"
  tierLimiters :: "(string \<times> limiter) list"

definition NewProxy :: "(string \<times> Network) list \<Rightarrow> Proxy" where
  "NewProxy ns = \<lparr>networks = ns, p_auth = None, keyLimiters = [], tierLimiters = []\<rparr>"

definition single :: "Proxy \<Rightarrow> string option" where
  "single P = (case networks P of [(i, _)] \<Rightarrow> Some i | _ \<Rightarrow> None)"

definition SetAuth :: "AuthConfig option \<Rightarrow> Proxy \<Rightarrow> Proxy" where
  "SetAuth auth P = (case buildAuthRateLimiters auth of (ks, ts) \<Rightarrow> P\<lparr>p_auth := auth, keyLimiters := ks, tierLimiters := ts\<rparr>)"

text \<open>The limiter that refused, if one did, and the limiters after the call.\<close>

definition applyAuthRateLimits :: "(limiter \<Rightarrow> time \<Rightarrow> real) \<Rightarrow> time \<Rightarrow> AuthResult \<Rightarrow> Proxy \<Rightarrow> string option \<times> Proxy" where
  "applyAuthRateLimits tokens now result P =
     (if ar_KeyID result = [] then (None, P)
      else case map_of (keyLimiters P) (ar_KeyID result) of
        Some l \<Rightarrow>
          (if tokens l now \<ge> 1 then None else Some ''per-key'',
           P\<lparr>keyLimiters := AList.update (ar_KeyID result) (l @ [Allow now]) (keyLimiters P)\<rparr>)
      | None \<Rightarrow>
          if ar_Tier result = [] then (None, P)
          else (case map_of (tierLimiters P) (ar_Tier result) of
                  None \<Rightarrow> (None, P)
                | Some l \<Rightarrow>
                    (if tokens l now \<ge> 1 then None else Some (''tier:'' @ ar_Tier result),
                     P\<lparr>tierLimiters := AList.update (ar_Tier result) (l @ [Allow now]) (tierLimiters P)\<rparr>)))"

definition realm :: string where
  "realm = ''Bearer realm='' @ [CHR 0x22] @ ''ebeacon'' @ [CHR 0x22]"

definition authenticate :: "world \<Rightarrow> http_Header \<Rightarrow> http_Request \<Rightarrow> string \<Rightarrow> Proxy \<Rightarrow> client_Response option \<times> Proxy" where
  "authenticate v wh r pathKey P =
     (if p_auth P = None then (None, P)
      else let result = AuthenticateRequest r (p_auth P) pathKey in
           if \<not> Authenticated result then (Some (http_Error (Header_Set ''WWW-Authenticate'' realm wh) ''unauthorized'' 401), P)
           else (case applyAuthRateLimits (e_tokens (v_env v)) (v_now v) result P of
                   (None, P1) \<Rightarrow> (None, P1)
                 | (Some name, P1) \<Rightarrow>
                     (Some (http_Error (Header_Set ''X-Ebeacon-Rate-Limited'' name wh) ''rate limit exceeded'' 429), P1)))"


section \<open>Routing\<close>

definition isPathKey :: "AuthConfig option \<Rightarrow> string \<Rightarrow> bool" where
  "isPathKey auth cand =
     (case auth of
        None \<Rightarrow> False
      | Some a \<Rightarrow>
          cand \<noteq> [] \<and>
          (list_ex (\<lambda>key. key_Secret key \<noteq> [] \<and> constantTimeEquals cand (key_Secret key)) (auth_Keys a) \<or>
           auth_Secret a \<noteq> [] \<and> constantTimeEquals cand (auth_Secret a)))"

definition joinRest :: "string list \<Rightarrow> string" where
  "joinRest segments = (if segments = [] then ''/'' else ''/'' @ Join segments ''/'')"

definition stripPathSegments :: "string \<Rightarrow> nat \<Rightarrow> string" where
  "stripPathSegments path k =
     (let segments = SplitByte (CHR ''/'') (TrimPrefix path ''/'') in
      if k \<ge> length segments then ''/'' else ''/'' @ Join (drop k segments) ''/'')"

text \<open>The network, the rest of the path, the key in the path, and how many segments they take.\<close>

definition routeRequest :: "Proxy \<Rightarrow> http_Request \<Rightarrow> (string \<times> string \<times> string \<times> nat) option" where
  "routeRequest P r =
     (let path = TrimPrefix (u_Path (r_URL r)) ''/''; segments = SplitByte (CHR ''/'') path; known = (\<lambda>i. map_of (networks P) i \<noteq> None) in
      if path = [] then None
      else if known (segments ! 0) then
        if length segments \<ge> 2 \<and> isPathKey (p_auth P) (segments ! 1)
        then Some (segments ! 0, joinRest (drop 2 segments), segments ! 1, 2)
        else Some (segments ! 0, joinRest (drop 1 segments), [], 1)
      else if p_auth P \<noteq> None \<and> length segments \<ge> 2 \<and> known (segments ! 1)
      then Some (segments ! 1, joinRest (drop 2 segments), segments ! 0, 2)
      else None)"

definition strip_network :: "http_Request \<Rightarrow> string \<Rightarrow> nat \<Rightarrow> http_Request" where
  "strip_network r rest k =
     (let esc = EscapedPath (r_URL r); er = stripPathSegments esc k in
      r\<lparr>r_URL := (r_URL r)\<lparr>u_Path := rest, u_RawPath := (if esc \<noteq> rest \<and> er \<noteq> rest then er else [])\<rparr>\<rparr>)"

definition availableNetworks :: "Proxy \<Rightarrow> string" where
  "availableNetworks P = Join (sort (map fst (networks P))) '', ''"

text \<open>The overall health: the loop over the networks.\<close>

definition overall :: "HealthStatus list \<Rightarrow> HealthStatus" where
  "overall hss =
     foldl (\<lambda>best hs. if hs = HealthUp \<and> best = HealthDown then HealthUp else if hs = HealthDegraded then HealthDegraded else best) HealthDown hss"

definition network_health :: "Network \<Rightarrow> HealthStatus" where
  "network_health n = NodeHealthStatus (n_pool n) no_selector"

definition proxy_serveHealthz :: "(string \<Rightarrow> string) \<Rightarrow> http_Header \<Rightarrow> Proxy \<Rightarrow> client_Response" where
  "proxy_serveHealthz json wh P =
     (case HealthzStatus (overall (map (\<lambda>x. network_health (snd x)) (networks P))) of
        (status, code) \<Rightarrow>
          \<lparr>w_Status = code, w_Header = Header_Set ''Content-Type'' ''application/json'' wh,
           w_Body = ''{'' @ quoted ''status'' @ '':'' @ json status @ '','' @ quoted ''networks'' @ '':{'' @
             Join (map (\<lambda>i. json i @ '':'' @ json (case map_of (networks P) i of None \<Rightarrow> [] | Some n \<Rightarrow> fst (HealthzStatus (network_health n))))
               (sort (map fst (networks P)))) '','' @ ''}}''\<rparr>)"

definition serve_network :: "world \<Rightarrow> http_Header \<Rightarrow> string \<Rightarrow> http_Request \<Rightarrow> Proxy \<Rightarrow> reply \<times> Proxy" where
  "serve_network v wh i r P =
     (case map_of (networks P) i of
        None \<Rightarrow> (Aborted, P)
      | Some n \<Rightarrow> (case ServeHTTP v wh r n of (w, n') \<Rightarrow> (w, P\<lparr>networks := AList.update i n' (networks P)\<rparr>)))"

definition unknown_network :: "(string \<Rightarrow> string) \<Rightarrow> http_Request \<Rightarrow> Proxy \<Rightarrow> string" where
  "unknown_network quote r P =
     (case CutByte (CHR ''/'') (TrimPrefix (u_Path (r_URL r)) ''/'') of
        (i, _, _) \<Rightarrow> ''unknown network '' @ quote i @ '' '' @ [CHR 0xE2, CHR 0x80, CHR 0x94] @ '' available: '' @ availableNetworks P)"

definition proxy_ServeHTTP :: "(string \<Rightarrow> string) \<Rightarrow> (string \<Rightarrow> string) \<Rightarrow> world \<Rightarrow> http_Header \<Rightarrow> http_Request \<Rightarrow> Proxy \<Rightarrow> reply \<times> Proxy" where
  "proxy_ServeHTTP quote json v wh r P =
     (if u_Path (r_URL r) = ''/healthz'' then (Replied (proxy_serveHealthz json wh P), P)
      else case routeRequest P r of
             None \<Rightarrow>
               (case authenticate v wh r [] P of
                  (Some w, P1) \<Rightarrow> (Replied w, P1)
                | (None, P1) \<Rightarrow>
                    (case single P1 of
                       Some i \<Rightarrow> serve_network v wh i r P1
                     | None \<Rightarrow> (Replied (http_Error wh (unknown_network quote r P1) 404), P1)))
           | Some (i, rest, pathKey, k) \<Rightarrow>
               (case authenticate v wh r pathKey P of
                  (Some w, P1) \<Rightarrow> (Replied w, P1)
                | (None, P1) \<Rightarrow> serve_network v wh i (strip_network r rest k) P1))"


section \<open>Cross-origin headers\<close>

definition mergeVaryHeader :: "string \<Rightarrow> http_Header \<Rightarrow> http_Header" where
  "mergeVaryHeader value h =
     (if list_ex (\<lambda>existing. list_ex (\<lambda>part. EqualFold (TrimSpace part) value) (SplitByte (CHR '','') existing)) (Header_Values h ''Vary'')
      then h else Header_Add ''Vary'' value h)"

definition addCORSVary :: "http_Request \<Rightarrow> http_Header \<Rightarrow> http_Header" where
  "addCORSVary r h =
     (let h1 = mergeVaryHeader ''Origin'' h in
      if r_Method r = ''OPTIONS''
      then mergeVaryHeader ''Access-Control-Request-Headers'' (mergeVaryHeader ''Access-Control-Request-Method'' h1)
      else h1)"

fun allowed_origin_loop :: "bool \<Rightarrow> string \<Rightarrow> string list \<Rightarrow> string option" where
  "allowed_origin_loop creds origin [] = None"
| "allowed_origin_loop creds origin (a # as) =
     (let allowedOrigin = TrimSpace a in
      if allowedOrigin = [] then allowed_origin_loop creds origin as
      else if allowedOrigin = ''*'' then Some (if creds then origin else ''*'')
      else if EqualFold allowedOrigin origin then Some origin
      else allowed_origin_loop creds origin as)"

definition the_list :: "'a list option \<Rightarrow> 'a list" where
  "the_list x = (case x of None \<Rightarrow> [] | Some xs \<Rightarrow> xs)"

definition allowCredentials :: "CORSConfig \<Rightarrow> bool" where
  "allowCredentials cors = (cors_AllowCredentials cors = Some True)"

definition allowedCORSOrigin :: "CORSConfig \<Rightarrow> string \<Rightarrow> string option" where
  "allowedCORSOrigin cors origin = allowed_origin_loop (allowCredentials cors) origin (the_list (cors_AllowedOrigins cors))"

definition set_nonempty :: "string \<Rightarrow> string \<Rightarrow> http_Header \<Rightarrow> http_Header" where
  "set_nonempty k x h = (if x \<noteq> [] then Header_Set k x h else h)"

definition setCORSHeaders :: "CORSConfig \<Rightarrow> http_Request \<Rightarrow> string \<Rightarrow> http_Header \<Rightarrow> http_Header" where
  "setCORSHeaders cors r allowedOrigin h =
     (let h1 = addCORSVary r (Header_Set ''Access-Control-Allow-Origin'' allowedOrigin h);
          h2 = set_nonempty ''Access-Control-Allow-Methods'' (Join (the_list (cors_AllowedMethods cors)) '', '') h1;
          h3 = set_nonempty ''Access-Control-Allow-Headers'' (Join (the_list (cors_AllowedHeaders cors)) '', '') h2;
          h4 = set_nonempty ''Access-Control-Expose-Headers'' (Join (the_list (cors_ExposedHeaders cors)) '', '') h3;
          h5 = (if allowCredentials cors then Header_Set ''Access-Control-Allow-Credentials'' ''true'' h4 else h4)
      in if cors_MaxAge cors > 0 then Header_Set ''Access-Control-Max-Age'' (itoa (nat (cors_MaxAge cors))) h5 else h5)"

text \<open>What the wrapper does before the wrapped handler: answer a preflight request itself, or go on with these headers.\<close>

definition WrapWithCORS :: "CORSConfig option \<Rightarrow> http_Request \<Rightarrow> http_Header \<Rightarrow> client_Response + http_Header" where
  "WrapWithCORS cors r wh =
     (case cors of
        None \<Rightarrow> Inr wh
      | Some c \<Rightarrow>
          let h = addCORSVary r wh; origin = TrimSpace (Header_Get (r_Header r) ''Origin'') in
          if origin = [] then Inr h
          else let h1 = (case allowedCORSOrigin c origin of Some a \<Rightarrow> setCORSHeaders c r a h | None \<Rightarrow> h) in
               if r_Method r = ''OPTIONS'' then Inl \<lparr>w_Status = 204, w_Header = h1, w_Body = []\<rparr> else Inr h1)"

definition serve_front ::
  "(string \<Rightarrow> string) \<Rightarrow> (string \<Rightarrow> string) \<Rightarrow> CORSConfig option \<Rightarrow> world \<Rightarrow> http_Header \<Rightarrow> http_Request \<Rightarrow> Proxy \<Rightarrow> reply \<times> Proxy" where
  "serve_front quote json cors v wh r P =
     (case WrapWithCORS cors r wh of Inl w \<Rightarrow> (Replied w, P) | Inr wh1 \<Rightarrow> proxy_ServeHTTP quote json v wh1 r P)"


section \<open>Who gets in\<close>

text \<open>The secrets that open the proxy.\<close>

definition secrets :: "AuthConfig \<Rightarrow> string set" where
  "secrets a = (insert (auth_Secret a) (key_Secret ` set (auth_Keys a))) - {[]}"

lemma constantTimeEquals_iff: "constantTimeEquals a b \<longleftrightarrow> a = b \<and> b \<noteq> []"
  by (auto simp: constantTimeEquals_def)

lemma authenticated_iff:
  "Authenticated (AuthenticateRequest r (Some a) pathKey) \<longleftrightarrow>
     presented r pathKey \<in> secrets a \<or> (auth_Secret a = [] \<and> auth_Keys a = [])"
proof (cases "find (\<lambda>key. key_Secret key \<noteq> [] \<and> constantTimeEquals (presented r pathKey) (key_Secret key)) (auth_Keys a)")
  case None
  then have "presented r pathKey \<notin> key_Secret ` set (auth_Keys a) - {[]}"
    by (auto simp: find_None_iff constantTimeEquals_iff)
  then have "presented r pathKey \<in> secrets a \<longleftrightarrow> constantTimeEquals (presented r pathKey) (auth_Secret a)"
    by (auto simp: secrets_def constantTimeEquals_iff)
  moreover have "\<not> constantTimeEquals (presented r pathKey) []" by (simp add: constantTimeEquals_iff)
  ultimately show ?thesis using None by (simp add: AuthenticateRequest_def Let_def)
next
  case (Some key)
  then have "key \<in> set (auth_Keys a)" "presented r pathKey = key_Secret key" "key_Secret key \<noteq> []"
    by (auto simp: find_Some_iff constantTimeEquals_iff)
  then show ?thesis using Some by (auto simp: AuthenticateRequest_def Let_def secrets_def)
qed

lemma isPathKey_iff: "isPathKey auth c \<longleftrightarrow> (\<exists>a. auth = Some a \<and> c \<in> secrets a)"
  by (auto simp: isPathKey_def secrets_def constantTimeEquals_iff list_ex_iff split: option.splits)

text \<open>The key that the path carries for the authentication of this request.\<close>

definition path_key :: "Proxy \<Rightarrow> http_Request \<Rightarrow> string" where
  "path_key P r = (case routeRequest P r of None \<Rightarrow> [] | Some (_, _, pathKey, _) \<Rightarrow> pathKey)"

lemma authenticate_rejects:
  assumes "p_auth P = Some a" "auth_Secret a \<noteq> [] \<or> auth_Keys a \<noteq> []" "presented r pathKey \<notin> secrets a"
  shows "authenticate v wh r pathKey P = (Some (http_Error (Header_Set ''WWW-Authenticate'' realm wh) ''unauthorized'' 401), P)"
  using assms authenticated_iff [of r a pathKey] by (auto simp: authenticate_def)

text \<open>C4. On a proxy that has a secret or a key configured, a request that presents none of the configured non-empty
  secrets (in a header, in the query, or in the path segment that routing takes for a key) is answered 401 with a
  challenge, and nothing changes: no network sees it, no limiter counts it.  The health page alone is open.\<close>

theorem unauthenticated_rejected:
  assumes "p_auth P = Some a" "auth_Secret a \<noteq> [] \<or> auth_Keys a \<noteq> []" "u_Path (r_URL r) \<noteq> ''/healthz''"
    and "presented r (path_key P r) \<notin> secrets a"
  shows "proxy_ServeHTTP quote json v wh r P =
    (Replied (http_Error (Header_Set ''WWW-Authenticate'' realm wh) ''unauthorized'' 401), P)"
proof (cases "routeRequest P r")
  case None
  then have "presented r [] \<notin> secrets a" using assms(4) by (simp add: path_key_def)
  then show ?thesis using None assms(3) authenticate_rejects [OF assms(1,2)] by (simp add: proxy_ServeHTTP_def)
next
  case (Some x)
  obtain i rest pathKey k where x: "x = (i, rest, pathKey, k)" by (metis prod_cases4)
  then have "presented r pathKey \<notin> secrets a" using Some assms(4) by (simp add: path_key_def)
  then show ?thesis using Some x assms(3) authenticate_rejects [OF assms(1,2)] by (simp add: proxy_ServeHTTP_def)
qed

definition sampleAuth :: AuthConfig where
  "sampleAuth = \<lparr>auth_Secret = [], auth_Keys = [\<lparr>key_ID = ''k1'', key_Description = [], key_Secret = ''s3cret'', key_Tier = ''free'', key_RateLimiting = None\<rparr>],
     auth_Tiers = []\<rparr>"

definition sampleProxy :: Proxy where
  "sampleProxy = SetAuth (Some sampleAuth) (NewProxy [(''mainnet'', sampleNetwork)])"

lemma unauthenticated_rejected_witness:
  "proxy_ServeHTTP id id (sampleWorld failsOnce) [] (plainGet ''/mainnet/eth/v1/node/version'') sampleProxy =
     (Replied (http_Error (Header_Set ''WWW-Authenticate'' realm []) ''unauthorized'' 401), sampleProxy)"
proof (rule unauthenticated_rejected [where a = sampleAuth])
  show "p_auth sampleProxy = Some sampleAuth" by (simp add: sampleProxy_def SetAuth_def split: prod.split)
  show "auth_Secret sampleAuth \<noteq> [] \<or> auth_Keys sampleAuth \<noteq> []" by (simp add: sampleAuth_def)
  show "u_Path (r_URL (plainGet ''/mainnet/eth/v1/node/version'')) \<noteq> ''/healthz''" by (simp add: plainGet_def)
  have "presented (plainGet ''/mainnet/eth/v1/node/version'') (path_key sampleProxy (plainGet ''/mainnet/eth/v1/node/version'')) = []" by code_simp
  then show "presented (plainGet ''/mainnet/eth/v1/node/version'') (path_key sampleProxy (plainGet ''/mainnet/eth/v1/node/version'')) \<notin> secrets sampleAuth"
    by (simp add: secrets_def)
qed


section \<open>What leaves the proxy\<close>

lemma unescape_path_char:
  "url_unescape encodePath (escape_char encodePath c @ s) = map_option ((#) c) (url_unescape encodePath s)"
proof (cases "shouldEscape encodePath c")
  case True
  then show ?thesis using char_hex [of c] by (simp add: escape_char_def)
next
  case False
  moreover have "shouldEscape encodePath (CHR ''%'')" by code_simp
  ultimately have "c \<noteq> CHR ''%''" by metis
  with False show ?thesis by (simp add: escape_char_def)
qed

lemma unescape_path: "url_unescape encodePath (url_escape encodePath s) = Some s"
  by (induction s) (simp_all add: url_escape_def unescape_path_char)

lemma EscapedPath_decodes: "url_unescape encodePath (EscapedPath u) = Some (u_Path u)"
  by (simp add: EscapedPath_def unescape_path)

lemma route_cases:
  assumes "routeRequest P r = Some (i, rest, pathKey, k)"
  shows "rest = joinRest (drop k (SplitByte (CHR ''/'') (TrimPrefix (u_Path (r_URL r)) ''/'')))"
    and "map_of (networks P) i \<noteq> None"
    and "pathKey = [] \<or> pathKey \<in> set (take k (SplitByte (CHR ''/'') (TrimPrefix (u_Path (r_URL r)) ''/'')))"
proof -
  have two: "xs ! 0 \<in> set (take 2 xs) \<and> xs ! 1 \<in> set (take 2 xs)" if "2 \<le> length xs" for xs :: "string list"
    using that by (cases xs; cases "tl xs") auto
  show "rest = joinRest (drop k (SplitByte (CHR ''/'') (TrimPrefix (u_Path (r_URL r)) ''/'')))" "map_of (networks P) i \<noteq> None"
    "pathKey = [] \<or> pathKey \<in> set (take k (SplitByte (CHR ''/'') (TrimPrefix (u_Path (r_URL r)) ''/'')))"
    using assms two by (auto simp: routeRequest_def Let_def split: if_splits)
qed

lemma rewrite_keeps:
  "r_Header (fst (rewriteClientPath rt p r)) = r_Header r"
  "u_RawQuery (r_URL (fst (rewriteClientPath rt p r))) = u_RawQuery (r_URL r)"
  by (auto simp: rewriteClientPath_def with_path_def cloneRequestWithPath_def split: prod.splits option.splits)

lemma url_path_query:
  "\<exists>query. pathAndQueryForUpstream u = or_empty (EscapedPath u) ''/'' @ query \<and>
     (query = [] \<or> (\<exists>enc. query = ''?'' @ enc \<and> ParseQuery enc = sort_key fst (forwardableQuery u)))"
  using ParseQuery_Encode [OF forwardable_ok, of u]
  by (auto simp: pathAndQueryForUpstream_def with_query_def Let_def)

definition credentialHeaders :: "string list" where
  "credentialHeaders = [''X-EBEACON-Secret-Token'', ''X-API-Key'', ''Authorization'']"

lemma credential_headers_stripped:
  assumes "h \<in> set credentialHeaders"
  shows "ToLower h \<in> set hopByHopHeaderSet" "ToLower h \<notin> set [''accept-encoding'', ''x-forwarded-for'', ''x-forwarded-host'']"
proof -
  have "list_all (\<lambda>h. ToLower h \<in> set hopByHopHeaderSet \<and> ToLower h \<notin> set [''accept-encoding'', ''x-forwarded-for'', ''x-forwarded-host'']) credentialHeaders"
    by code_simp
  then show "ToLower h \<in> set hopByHopHeaderSet" "ToLower h \<notin> set [''accept-encoding'', ''x-forwarded-for'', ''x-forwarded-host'']"
    using assms by (auto simp: list_all_iff)
qed



definition keyedGet :: http_Request where
  "keyedGet = (plainGet ''/mainnet/s3cret/eth/v1/node/version'')\<lparr>
     r_URL := \<lparr>u_Path = ''/mainnet/s3cret/eth/v1/node/version'', u_RawPath = [], u_RawQuery = ''secret=s3cret&a=1''\<rparr>,
     r_Header := [(''X-Api-Key'', [''s3cret''])]\<rparr>"

lemma keyed_route: "routeRequest sampleProxy keyedGet = Some (''mainnet'', ''/eth/v1/node/version'', ''s3cret'', 2)"
  by code_simp



section \<open>Which origins are let in\<close>

lemma Header_Values_Set: "Header_Values (Header_Set k v h) k' = (if CanonicalHeaderKey k = CanonicalHeaderKey k' then [v] else Header_Values h k')"
  by (simp add: Header_Values_def Header_Set_def update_conv')

lemma Header_Values_Add:
  "Header_Values (Header_Add k v h) k' = (if CanonicalHeaderKey k = CanonicalHeaderKey k' then Header_Values h k' @ [v] else Header_Values h k')"
  by (auto simp: Header_Values_def Header_Add_def update_conv' Let_def)

lemma Header_Values_nonempty:
  "Header_Values (set_nonempty k v h) k' = (if CanonicalHeaderKey k = CanonicalHeaderKey k' \<and> v \<noteq> [] then [v] else Header_Values h k')"
  by (simp add: set_nonempty_def Header_Values_Set)

lemma cors_names:
  "CanonicalHeaderKey ''Vary'' = ''Vary''"
  "CanonicalHeaderKey ''Access-Control-Allow-Origin'' = ''Access-Control-Allow-Origin''"
  "CanonicalHeaderKey ''Access-Control-Allow-Methods'' = ''Access-Control-Allow-Methods''"
  "CanonicalHeaderKey ''Access-Control-Allow-Headers'' = ''Access-Control-Allow-Headers''"
  "CanonicalHeaderKey ''Access-Control-Expose-Headers'' = ''Access-Control-Expose-Headers''"
  "CanonicalHeaderKey ''Access-Control-Allow-Credentials'' = ''Access-Control-Allow-Credentials''"
  "CanonicalHeaderKey ''Access-Control-Max-Age'' = ''Access-Control-Max-Age''"
  by code_simp+

lemmas cors_values = Header_Values_Set Header_Values_Add Header_Values_nonempty cors_names

lemma vary_keeps: "CanonicalHeaderKey k \<noteq> ''Vary'' \<Longrightarrow> Header_Values (addCORSVary r h) k = Header_Values h k"
  by (auto simp: addCORSVary_def mergeVaryHeader_def Let_def cors_values)

lemma cors_headers_set:
  "Header_Values (setCORSHeaders c r a h) ''Access-Control-Allow-Origin'' = [a]"
  "Header_Values (setCORSHeaders c r a h) ''Access-Control-Allow-Credentials'' =
     (if allowCredentials c then [''true''] else Header_Values h ''Access-Control-Allow-Credentials'')"
  by (simp_all add: setCORSHeaders_def Let_def cors_values vary_keeps)

lemma allowed_origin_spec:
  "allowed_origin_loop creds origin as = Some b \<Longrightarrow>
     \<exists>a\<in>set as. TrimSpace a \<noteq> [] \<and> (TrimSpace a = ''*'' \<and> b = (if creds then origin else ''*'') \<or> EqualFold (TrimSpace a) origin \<and> b = origin)"
  by (induction creds origin as rule: allowed_origin_loop.induct) (auto simp: Let_def split: if_splits)

definition front_headers :: "client_Response + http_Header \<Rightarrow> http_Header" where
  "front_headers x = (case x of Inl w \<Rightarrow> w_Header w | Inr h \<Rightarrow> h)"


definition sampleCORS :: CORSConfig where
  "sampleCORS = \<lparr>cors_AllowedOrigins = Some [''https://app.example''], cors_AllowedMethods = Some [''GET''], cors_AllowedHeaders = None,
     cors_ExposedHeaders = None, cors_AllowCredentials = Some True, cors_MaxAge = 600\<rparr>"

definition fromOrigin :: "string \<Rightarrow> http_Request" where
  "fromOrigin origin = (plainGet ''/mainnet/eth/v1/node/version'')\<lparr>r_Header := [(''Origin'', [origin])]\<rparr>"


text \<open>The wrapped handler copies the headers of an upstream response behind the wrapper's own.  So a page of an allowed origin
  is sent two values, and a page of an origin that is not allowed is sent the star of the upstream.\<close>

definition seen_origins :: "string \<Rightarrow> string list" where
  "seen_origins origin =
     Header_Values (copyEndToEndHeaders (front_headers (WrapWithCORS (Some sampleCORS) (fromOrigin origin) [])) [(''Access-Control-Allow-Origin'', [''*''])])
       ''Access-Control-Allow-Origin''"

lemma upstream_cors_leaks:
  "seen_origins ''https://app.example'' = [''https://app.example'', ''*'']"
  "seen_origins ''https://evil.example'' = [''*'']"
  by code_simp+


section \<open>Overall health\<close>

lemma overall_from:
  "foldl (\<lambda>best hs. if hs = HealthUp \<and> best = HealthDown then HealthUp else if hs = HealthDegraded then HealthDegraded else best) b hss =
     (if b = HealthDegraded \<or> HealthDegraded \<in> set hss then HealthDegraded
      else if b = HealthUp \<or> HealthUp \<in> set hss then HealthUp else HealthDown)"
  by (induction hss arbitrary: b) (auto intro: HealthStatus.exhaust)

text \<open>The order in which the networks are visited does not matter; and one network that is up next to one
  that is down is reported as fine.\<close>

lemma overall_eq:
  "overall hss = (if HealthDegraded \<in> set hss then HealthDegraded else if HealthUp \<in> set hss then HealthUp else HealthDown)"
  by (simp add: overall_def overall_from)

lemma overall_hides_down: "HealthzStatus (overall [HealthUp, HealthDown]) = (''ok'', 200)"
  by (simp add: overall_eq HealthzStatus_def)

end
