(* ===== verification/Sse.thy ===== *)
theory Sse
  imports Server
begin

text \<open>
  The relay of event streams, \<open>src/network/sse.go\<close>: lines read under a cap, events assembled from them and sent once,
  the loop that serves one upstream, and the loop that moves on to the next when a stream breaks.

  A body is the data it delivers and whether an error or the end comes after it.  The order in which the \<open>select\<close>
  of the loop sees the end of the request, the timers and the lines is the list \<open>sse_pick\<close>; each entry also says whether the
  client accepted the write that follows.  One connection after the other is the list of \<open>round\<close>s.  Metrics and logging are left out.

  Shown: the ring of hashes is the window of the last hashes, so no event is sent twice within as many events as the ring has
  places; a stream that is read to its end delivers exactly its events, in order, that are not in the window; and the relay
  returns every connection and every recovery probe that it took.
\<close>


section \<open>The ring of seen events\<close>

record seenRing =
  r_buf :: "32 word list"
  r_pos :: nat

definition newSeenRing :: "nat \<Rightarrow> seenRing" where
  "newSeenRing n = \<lparr>r_buf = replicate n 0, r_pos = 0\<rparr>"

definition ring_has :: "seenRing \<Rightarrow> 32 word \<Rightarrow> bool" where
  "ring_has r h \<longleftrightarrow> list_ex (\<lambda>v. v = h) (r_buf r)"

definition ring_add :: "32 word \<Rightarrow> seenRing \<Rightarrow> seenRing" where
  "ring_add h r = \<lparr>r_buf = (r_buf r)[r_pos r mod length (r_buf r) := h], r_pos = r_pos r + 1\<rparr>"

definition hashEvent :: "string \<Rightarrow> 32 word" where
  "hashEvent s = fnv32a s"


section \<open>Lines\<close>

definition sseMaxEventBytes :: int where "sseMaxEventBytes = 4 * 1048576"

text \<open>The buffer of a \<open>bufio.Reader\<close>.\<close>

definition bufSize :: nat where "bufSize = 4096"

datatype line_end = LineEOF | LineBroken | LineTooLong

datatype slice_end = BufferFull | SliceEnd line_end

definition newline :: char where "newline = CHR 0x0A"

definition ReadSlice :: "http_Body \<Rightarrow> (string \<times> slice_end option) \<times> http_Body" where
  "ReadSlice b =
     (case IndexByte (take bufSize (b_data b)) newline of
        Some i \<Rightarrow> ((take (Suc i) (b_data b), None), b\<lparr>b_data := drop (Suc i) (b_data b)\<rparr>)
      | None \<Rightarrow>
          if bufSize \<le> length (b_data b)
          then ((take bufSize (b_data b), Some BufferFull), b\<lparr>b_data := drop bufSize (b_data b)\<rparr>)
          else ((b_data b, Some (SliceEnd (if b_broken b then LineBroken else LineEOF))), b\<lparr>b_data := []\<rparr>))"

type_synonym sseLine = "string \<times> line_end option"

lemma ReadSlice_shorter:
  assumes "ReadSlice b = ((chunk, e), b')" "e = None \<or> e = Some BufferFull"
  shows "length (b_data b') < length (b_data b)"
proof (cases "IndexByte (take bufSize (b_data b)) newline")
  case None
  then show ?thesis using assms by (auto simp: ReadSlice_def bufSize_def split: if_splits)
next
  case (Some i)
  then have "i < length (b_data b)" using IndexByte_Some by fastforce
  then show ?thesis using assms Some by (auto simp: ReadSlice_def)
qed

function readCappedLine :: "int \<Rightarrow> string \<Rightarrow> http_Body \<Rightarrow> sseLine \<times> http_Body" where
  "readCappedLine cap sb b =
     (case ReadSlice b of
        ((chunk, Some BufferFull), b') \<Rightarrow>
          if int (length (sb @ chunk)) > cap then ((sb @ chunk, Some LineTooLong), b') else readCappedLine cap (sb @ chunk) b'
      | ((chunk, Some (SliceEnd e)), b') \<Rightarrow> ((sb @ chunk, Some e), b')
      | ((chunk, None), b') \<Rightarrow> ((sb @ chunk, None), b'))"
  by pat_completeness auto
termination
  by (relation "measure (\<lambda>(cap, sb, b). length (b_data b))") (auto dest!: ReadSlice_shorter [OF sym])

declare readCappedLine.simps [simp del]

lemma readCappedLine_shorter:
  "readCappedLine cap sb b = ((line, None), b') \<Longrightarrow> length (b_data b') < length (b_data b)"
proof (induction cap sb b rule: readCappedLine.induct)
  case (1 cap sb b)
  obtain chunk e b1 where s: "ReadSlice b = ((chunk, e), b1)" by (metis prod.exhaust)
  consider "e = None" | "e = Some BufferFull" | x where "e = Some (SliceEnd x)" by (metis option.exhaust slice_end.exhaust)
  then show ?case
  proof cases
    case 2
    then have "length (b_data b1) < length (b_data b)" using ReadSlice_shorter [OF s] by simp
    moreover have "length (b_data b') < length (b_data b1)" if "\<not> cap < int (length (sb @ chunk))"
      using "1.IH" [OF s [symmetric] refl 2 refl that] "1.prems" s 2 that by (simp add: readCappedLine.simps [of cap sb b])
    ultimately show ?thesis using "1.prems" s 2 by (auto simp: readCappedLine.simps [of cap sb b] split: if_splits)
  qed (use "1.prems" s ReadSlice_shorter [OF s] in \<open>simp_all add: readCappedLine.simps [of cap sb b]\<close>)
qed

text \<open>What the reading goroutine sends, up to and with the first error.\<close>

function readSSELines :: "http_Body \<Rightarrow> sseLine list" where
  "readSSELines b =
     (case readCappedLine sseMaxEventBytes [] b of
        ((line, Some e), _) \<Rightarrow> [(line, Some e)]
      | ((line, None), b') \<Rightarrow> (line, None) # readSSELines b')"
  by pat_completeness auto
termination
  by (relation "measure (\<lambda>b. length (b_data b))") (auto dest!: readCappedLine_shorter [OF sym])

declare readSSELines.simps [simp del]


section \<open>Events\<close>

definition trim_crlf :: "string \<Rightarrow> string" where
  "trim_crlf s = rev (dropWhile (\<lambda>c. c = CHR 0x0D \<or> c = newline) (rev s))"

text \<open>What reaches the client: the reconnection hint, a keep-alive, or an attempted event and whether the client took it.\<close>

datatype frame = Retry | Ping | Event string bool

record relay_client =
  cl_seen :: seenRing
  cl_sent :: bool
  cl_header :: http_Header
  cl_out :: "frame list"
  cl_names :: "string \<rightharpoonup> string"

text \<open>\<open>flushSSEEvent\<close>: whether it wrote, whether the client is still there, and the event that is left.\<close>

definition flushSSEEvent :: "bool \<Rightarrow> bool \<Rightarrow> string \<Rightarrow> relay_client \<Rightarrow> bool \<times> bool \<times> string \<times> relay_client" where
  "flushSSEEvent accepted forceTerminator event c =
     (if length event = 0 then (False, True, event, c)
      else let evStr = (if forceTerminator then trim_crlf event @ [newline, newline] else event); h = hashEvent evStr in
           if ring_has (cl_seen c) h then (False, True, [], c)
           else let c1 = c\<lparr>cl_seen := ring_add h (cl_seen c), cl_out := cl_out c @ [Event evStr accepted]\<rparr> in
                if \<not> accepted then (False, False, event, c1) else (True, True, [], c1))"


section \<open>One connection\<close>

record stream_state =
  ss_event :: string
  ss_hasField :: bool
  ss_credited :: bool
  ss_up :: Upstream
  ss_client :: relay_client

definition credit :: "time \<Rightarrow> CBToken \<Rightarrow> bool \<Rightarrow> stream_state \<Rightarrow> stream_state" where
  "credit t tok wrote st =
     (if wrote \<and> ss_hasField st \<and> \<not> ss_credited st
      then st\<lparr>ss_up := settle_tok t cbSettleSuccess tok (ss_up st), ss_credited := True\<rparr> else st)"

definition is_terminator :: "string \<Rightarrow> bool" where
  "is_terminator line \<longleftrightarrow> line = [newline] \<or> line = [CHR 0x0D, newline]"

text \<open>A line of the body; the left answer is a return.\<close>

definition take_line :: "bool \<Rightarrow> time \<Rightarrow> CBToken \<Rightarrow> string \<Rightarrow> stream_state \<Rightarrow> stream_state + stream_state" where
  "take_line accepted t tok line st =
     (if line = [] then Inr st
      else if int (length (ss_event st) + length line) > sseMaxEventBytes then Inl st
      else let st1 = st\<lparr>ss_hasField := ss_hasField st \<or> (\<not> is_terminator line \<and> \<not> HasPrefix line '':''),
                        ss_event := ss_event st @ line\<rparr> in
           if is_terminator line then
             (case flushSSEEvent accepted False (ss_event st1) (ss_client st1) of
                (wrote, ok, event, c) \<Rightarrow>
                  let st2 = st1\<lparr>ss_event := event, ss_client := c\<rparr> in
                  if \<not> ok then Inl st2 else Inr ((credit t tok wrote st2)\<lparr>ss_hasField := False\<rparr>))
           else Inr st1)"

text \<open>The end of the body.\<close>

definition take_end :: "bool \<Rightarrow> bool \<Rightarrow> time \<Rightarrow> CBToken \<Rightarrow> line_end \<Rightarrow> stream_state \<Rightarrow> stream_state" where
  "take_end accepted gone t tok e st =
     (if e = LineEOF then
        (case flushSSEEvent accepted True (ss_event st) (ss_client st) of
           (wrote, ok, event, c) \<Rightarrow>
             let st1 = st\<lparr>ss_event := event, ss_client := c\<rparr> in
             if \<not> ok then st1
             else let st2 = credit t tok wrote st1 in
                  if \<not> ss_credited st2 then st2\<lparr>ss_up := settle_tok t cbSettleFailure tok (ss_up st2)\<rparr> else st2)
      else if \<not> gone then
        st\<lparr>ss_up := (if ss_credited st then CBFailure_up t (ss_up st) else settle_tok t cbSettleFailure tok (ss_up st))\<rparr>
      else st)"

text \<open>What the \<open>select\<close> sees next: with a line, whether the request has ended by then.\<close>

datatype sse_pick = PickDone | PickIdle | PickPing bool | PickLine bool bool time

text \<open>The loop, with whether it has returned.  A line cannot be picked once all have been.\<close>

fun stream_loop :: "CBToken \<Rightarrow> sse_pick list \<Rightarrow> sseLine list \<Rightarrow> stream_state \<Rightarrow> bool \<times> stream_state" where
  "stream_loop tok [] lines st = (False, st)"
| "stream_loop tok (PickDone # ps) lines st = (True, st)"
| "stream_loop tok (PickIdle # ps) lines st = (True, st)"
| "stream_loop tok (PickPing accepted # ps) lines st =
     (if accepted then stream_loop tok ps lines (st\<lparr>ss_client := (ss_client st)\<lparr>cl_out := cl_out (ss_client st) @ [Ping]\<rparr>\<rparr>) else (True, st))"
| "stream_loop tok (PickLine accepted gone t # ps) [] st = stream_loop tok ps [] st"
| "stream_loop tok (PickLine accepted gone t # ps) ((line, e) # lines) st =
     (case take_line accepted t tok line st of
        Inl st1 \<Rightarrow> (True, st1)
      | Inr st1 \<Rightarrow> (case e of None \<Rightarrow> stream_loop tok ps lines st1 | Some err \<Rightarrow> (True, take_end accepted gone t tok err st1)))"

text \<open>One round of the relay: the clock, the attempt, whether the request had ended before, during the exchange
  (\<open>at_cancel\<close>), after the stream, and during the pause.\<close>

record round =
  rd_gone :: bool
  rd_now :: time
  rd_try :: attempt
  rd_accepts :: bool
  rd_picks :: "sse_pick list"
  rd_end :: time
  rd_over :: bool
  rd_stop :: bool

definition sse_headers :: "string \<Rightarrow> http_Header \<Rightarrow> http_Header \<Rightarrow> http_Header" where
  "sse_headers name wh upstreamHeader =
     Header_Set ''X-Ebeacon-Upstream'' name (Header_Set ''Connection'' ''keep-alive'' (Header_Set ''X-Accel-Buffering'' ''no''
       (Header_Set ''Cache-Control'' ''no-cache'' (Header_Set ''Content-Type'' ''text/event-stream'' (copyEndToEndHeaders wh upstreamHeader)))))"

definition open_client :: "bool \<Rightarrow> string \<Rightarrow> http_Header \<Rightarrow> relay_client \<Rightarrow> bool \<times> relay_client" where
  "open_client accepts i upstreamHeader c =
     (if cl_sent c then (True, c)
      else case ObfuscateUpstreamID (cl_names c) i of
        (name, names) \<Rightarrow>
          let c1 = c\<lparr>cl_header := sse_headers name (cl_header c) upstreamHeader, cl_names := names\<rparr> in
          if accepts then (True, c1\<lparr>cl_sent := True, cl_out := cl_out c1 @ [Retry]\<rparr>) else (False, c1))"

text \<open>\<open>Streaming\<close> is a connection whose picks are used up, with what it holds.\<close>

datatype streamed = Streaming trackedBody CBToken | Connected | NotConnected

definition give_up :: "time \<Rightarrow> trackedBody option \<Rightarrow> CBToken \<Rightarrow> Upstream \<Rightarrow> Upstream" where
  "give_up t b tok u = settle_tok t cbSettleRelease tok (case b of None \<Rightarrow> u | Some body \<Rightarrow> snd (closeBody body u))"

definition stream :: "round \<Rightarrow> Upstream \<Rightarrow> relay_client \<Rightarrow> streamed \<times> Upstream \<times> relay_client" where
  "stream rd u c =
     (let a = rd_try rd in
      case at_exchange a of
        BuildError m \<Rightarrow> (NotConnected, u, c)
      | NetError m \<Rightarrow>
          (case Do (at_start a) (Inl m) u of
             ((_, tok, err), u1) \<Rightarrow>
               let u2 = (if err = Some ErrCircuitUnavailable \<or> at_cancel a then u1 else settle_tok (at_settle a) cbSettleFailure tok u1) in
               (NotConnected, give_up (rd_end rd) None tok u2, c))
      | Answer resp \<Rightarrow>
          (case Do (at_start a) (Inr True) u of
             ((None, tok, _), u1) \<Rightarrow> (NotConnected, give_up (rd_end rd) None tok u1, c)
           | ((Some b, tok, _), u1) \<Rightarrow>
               if StatusCode resp \<noteq> 200
               then (NotConnected, give_up (rd_end rd) (Some b) tok (settle_tok (at_settle a) cbSettleFailure tok u1), c)
               else (case open_client (rd_accepts rd) (u_ID u) (rs_Header resp) c of
                       (False, c1) \<Rightarrow> (Connected, give_up (rd_end rd) (Some b) tok u1, c1)
                     | (True, c1) \<Rightarrow>
                         (case stream_loop tok (rd_picks rd) (readSSELines (rs_Body resp))
                                 \<lparr>ss_event = [], ss_hasField = False, ss_credited = False, ss_up = u1, ss_client = c1\<rparr> of
                            (False, st) \<Rightarrow> (Streaming b tok, ss_up st, ss_client st)
                          | (True, st) \<Rightarrow> (Connected, give_up (rd_end rd) (Some b) tok (ss_up st), ss_client st)))))"


section \<open>The relay\<close>

definition pickUpstream :: "(limiter \<Rightarrow> time \<Rightarrow> real) \<Rightarrow> time \<Rightarrow> string \<Rightarrow> Selector \<Rightarrow> Pool \<Rightarrow> Upstream option \<times> Pool" where
  "pickUpstream tokens now preferUpstream required p =
     (if \<not> Enabled required then
        (case GetForPath tokens now p preferUpstream [] of (Inl _, p1) \<Rightarrow> (None, p1) | (Inr u, p1) \<Rightarrow> (Some u, p1))
      else if sel_ID required \<noteq> [] then (ByID p (sel_ID required), p)
      else (case SelectMatching tokens now p required [] 1 of ([], p1) \<Rightarrow> (None, p1) | (u # _, p1) \<Rightarrow> (Some u, p1)))"

datatype relayed = Relaying | Open string trackedBody CBToken | Closed | Refused client_Response

definition selected_unavailable :: "relay_client \<Rightarrow> relayed" where
  "selected_unavailable c = Refused (http_Error (cl_header c) ''selected upstream unavailable'' 503)"

fun Serve :: "(limiter \<Rightarrow> time \<Rightarrow> real) \<Rightarrow> Selector \<Rightarrow> round list \<Rightarrow> string \<Rightarrow> relay_client \<Rightarrow> Pool \<Rightarrow> relayed \<times> relay_client \<times> Pool" where
  "Serve tokens required [] sticky c p = (Relaying, c, p)"
| "Serve tokens required (rd # rds) sticky c p =
     (if rd_gone rd then (Closed, c, p)
      else case pickUpstream tokens (rd_now rd) sticky required p of
        (None, p1) \<Rightarrow>
          if Enabled required \<and> \<not> cl_sent c then (selected_unavailable c, c, p1)
          else if rd_stop rd then (Closed, c, p1)
          else Serve tokens required rds sticky c p1
      | (Some u, p1) \<Rightarrow>
          (case stream rd u c of
             (res, u', c1) \<Rightarrow>
               let p2 = upd_up (u_ID u) (\<lambda>_. u') p1 in
               (case res of
                  Streaming b tok \<Rightarrow> (Open (u_ID u) b tok, c1, p2)
                | _ \<Rightarrow>
                    if rd_over rd then (Closed, c1, p2)
                    else if res = NotConnected \<and> Enabled required \<and> \<not> cl_sent c1 then (selected_unavailable c1, c1, p2)
                    else if rd_stop rd then (Closed, c1, p2)
                    else Serve tokens required rds (if Enabled required then u_ID u else []) c1 p2)))"

definition newClient :: "http_Header \<Rightarrow> (string \<rightharpoonup> string) \<Rightarrow> relay_client" where
  "newClient wh names = \<lparr>cl_seen = newSeenRing 128, cl_sent = False, cl_header = wh, cl_out = [], cl_names = names\<rparr>"


section \<open>The ring is a window\<close>

text \<open>The last \<open>n\<close> of the hashes added so far, behind the zeros of an empty ring.\<close>

definition window :: "nat \<Rightarrow> 32 word list \<Rightarrow> 32 word list" where
  "window n hs = drop (length hs) (replicate n 0 @ hs)"

definition ring_inv :: "nat \<Rightarrow> seenRing \<Rightarrow> 32 word list \<Rightarrow> bool" where
  "ring_inv n r hs \<longleftrightarrow> 0 < n \<and> length (r_buf r) = n \<and> r_pos r = length hs \<and>
     drop (r_pos r mod n) (r_buf r) @ take (r_pos r mod n) (r_buf r) = window n hs"

lemma window_snoc:
  assumes "0 < n"
  shows "window n (hs @ [h]) = tl (window n hs) @ [h]"
proof -
  have "window n (hs @ [h]) = drop (Suc (length hs)) ((replicate n 0 @ hs) @ [h])" by (simp add: window_def)
  also have "\<dots> = drop (Suc (length hs)) (replicate n 0 @ hs) @ [h]" using assms by (subst drop_append) simp
  also have "\<dots> = tl (window n hs) @ [h]" unfolding window_def by (simp only: drop_Suc tl_drop)
  finally show ?thesis .
qed

lemma ring_inv_new: "0 < n \<Longrightarrow> ring_inv n (newSeenRing n) []"
  by (simp add: ring_inv_def newSeenRing_def window_def)

lemma ring_has_iff: "ring_inv n r hs \<Longrightarrow> ring_has r h \<longleftrightarrow> h \<in> set (window n hs)"
  unfolding ring_inv_def ring_has_def list_ex_iff by (metis append_take_drop_id set_append sup_commute)

lemma rotate_update:
  assumes "p < length xs"
  shows "drop (Suc p mod length xs) (xs[p := h]) @ take (Suc p mod length xs) (xs[p := h]) = tl (drop p xs @ take p xs) @ [h]"
proof (cases "Suc p < length xs")
  case True
  then have "take (Suc p) (xs[p := h]) = take p xs @ [h]" using assms by (simp add: take_Suc_conv_app_nth)
  moreover have "drop (Suc p) (xs[p := h]) = tl (drop p xs)" by (simp add: tl_drop drop_Suc [symmetric])
  moreover have "drop p xs \<noteq> []" using assms by simp
  ultimately show ?thesis using True by simp
next
  case False
  then have e: "Suc p = length xs" using assms by simp
  then have "xs[p := h] = take p xs @ [h]" using assms by (simp add: upd_conv_take_nth_drop)
  moreover have "drop p xs = [xs ! p]" using e assms by (simp add: Cons_nth_drop_Suc [symmetric])
  ultimately show ?thesis using e by simp
qed

lemma ring_inv_add: "ring_inv n r hs \<Longrightarrow> ring_inv n (ring_add h r) (hs @ [h])"
proof -
  assume r: "ring_inv n r hs"
  then have "r_pos r mod n < length (r_buf r)" by (simp add: ring_inv_def)
  from rotate_update [OF this, of h] r have
    "drop (Suc (r_pos r) mod n) (r_buf (ring_add h r)) @ take (Suc (r_pos r) mod n) (r_buf (ring_add h r)) = tl (window n hs) @ [h]"
    unfolding ring_inv_def ring_add_def by (metis mod_Suc_eq seenRing.select_convs(1))
  then show ?thesis using r by (simp add: ring_inv_def window_snoc) (simp add: ring_add_def)
qed

text \<open>Equal entries lie more than \<open>n\<close> apart.\<close>

definition spaced :: "nat \<Rightarrow> 'a list \<Rightarrow> bool" where
  "spaced n xs \<longleftrightarrow> (\<forall>i j. i < j \<longrightarrow> j < length xs \<longrightarrow> xs ! i = xs ! j \<longrightarrow> n < j - i)"

lemma window_recent: "i < length hs \<Longrightarrow> length hs \<le> i + n \<Longrightarrow> hs ! i \<in> set (window n hs)"
proof -
  assume "i < length hs" "length hs \<le> i + n"
  moreover from this have "window n hs ! (i + n - length hs) = (replicate n 0 @ hs) ! (n + i)" unfolding window_def by (subst nth_drop) (auto simp: add.commute)
  ultimately have "window n hs ! (i + n - length hs) = hs ! i" "i + n - length hs < length (window n hs)"
    by (simp_all add: nth_append window_def)
  then show ?thesis by (metis nth_mem)
qed

lemma spaced_snoc: "spaced n hs \<Longrightarrow> h \<notin> set (window n hs) \<Longrightarrow> spaced n (hs @ [h])"
proof -
  assume s: "spaced n hs" and h: "h \<notin> set (window n hs)"
  have "n < length hs - i" if "i < length hs" "hs ! i = h" for i
    using window_recent [OF that(1), of n] that h by force
  then show ?thesis using s unfolding spaced_def by (auto simp: nth_append less_Suc_eq)
qed


section \<open>What the client was sent\<close>

fun events :: "frame list \<Rightarrow> string list" where
  "events [] = []"
| "events (Event s _ # fs) = s # events fs"
| "events (_ # fs) = events fs"

lemma events_append [simp]: "events (fs @ gs) = events fs @ events gs"
  by (induction fs rule: events.induct) simp_all

definition client_ok :: "relay_client \<Rightarrow> bool" where
  "client_ok c \<longleftrightarrow> ring_inv 128 (cl_seen c) (map hashEvent (events (cl_out c))) \<and> spaced 128 (map hashEvent (events (cl_out c)))"

lemma client_ok_new: "client_ok (newClient wh names)"
  by (simp add: client_ok_def newClient_def ring_inv_new spaced_def)

lemma client_ok_flush: "client_ok c \<Longrightarrow> flushSSEEvent acc f ev c = (wrote, ok, ev', c') \<Longrightarrow> client_ok c'"
  by (auto simp: client_ok_def flushSSEEvent_def Let_def ring_inv_add ring_has_iff spaced_snoc split: if_splits)

lemma client_ok_out: "client_ok c \<Longrightarrow> client_ok (c\<lparr>cl_out := cl_out c @ [Ping]\<rparr>)" "client_ok c \<Longrightarrow> client_ok (c\<lparr>cl_out := cl_out c @ [Retry]\<rparr>)"
  by (simp_all add: client_ok_def)

lemma client_ok_open: "client_ok c \<Longrightarrow> open_client a i h c = (ok, c') \<Longrightarrow> client_ok c'"
  by (auto simp: client_ok_def open_client_def Let_def split: if_splits prod.splits)

lemma credit_client [simp]: "ss_client (credit t tok w st) = ss_client st" "ss_event (credit t tok w st) = ss_event st"
  by (simp_all add: credit_def)

lemma client_ok_line:
  assumes "client_ok (ss_client st)" "take_line a t tok line st = r"
  shows "client_ok (ss_client (case r of Inl x \<Rightarrow> x | Inr x \<Rightarrow> x))"
  using assms client_ok_flush [OF assms(1)] by (auto simp: take_line_def Let_def split: if_splits prod.splits)

lemma client_ok_end: "client_ok (ss_client st) \<Longrightarrow> client_ok (ss_client (take_end a g t tok e st))"
  using client_ok_flush by (auto simp: take_end_def Let_def split: prod.splits)

lemma client_ok_loop: "client_ok (ss_client st) \<Longrightarrow> client_ok (ss_client (snd (stream_loop tok ps lines st)))"
proof (induction tok ps lines st rule: stream_loop.induct)
  case (6 tok acc gone t ps line e lines st)
  obtain r where r: "take_line acc t tok line st = r" by simp
  show ?case using client_ok_line [OF "6.prems" r] client_ok_end "6.IH" r by (auto split: sum.splits option.splits)
qed (simp_all add: client_ok_out)

text \<open>The state in which the loop of a connection starts.\<close>

definition stream_start :: "Upstream \<Rightarrow> relay_client \<Rightarrow> stream_state" where
  "stream_start u c = \<lparr>ss_event = [], ss_hasField = False, ss_credited = False, ss_up = u, ss_client = c\<rparr>"

lemma stream_cases:
  assumes "stream rd u c = (res, u', c')"
  obtains (build) "res = NotConnected" "u' = u" "c' = c"
  | (refused) x tok e u1 t out where "Do (at_start (rd_try rd)) x u = ((None, tok, e), u1)" "c' = c" "res = NotConnected"
      "u' = give_up (rd_end rd) None tok u1 \<or> u' = give_up (rd_end rd) None tok (settle_tok t out tok u1)"
  | (status) b tok e u1 t where "Do (at_start (rd_try rd)) (Inr True) u = ((Some b, tok, e), u1)" "c' = c" "res = NotConnected"
      "u' = give_up (rd_end rd) (Some b) tok (settle_tok t cbSettleFailure tok u1)"
  | (unwritten) b tok e u1 h where "Do (at_start (rd_try rd)) (Inr True) u = ((Some b, tok, e), u1)"
      "open_client (rd_accepts rd) (u_ID u) h c = (False, c')" "res = Connected" "u' = give_up (rd_end rd) (Some b) tok u1"
  | (looped) b tok e u1 h c1 fin st body where "Do (at_start (rd_try rd)) (Inr True) u = ((Some b, tok, e), u1)"
      "open_client (rd_accepts rd) (u_ID u) h c = (True, c1)"
      "stream_loop tok (rd_picks rd) (readSSELines body) (stream_start u1 c1) = (fin, st)" "c' = ss_client st"
      "res = (if fin then Connected else Streaming b tok)" "u' = (if fin then give_up (rd_end rd) (Some b) tok (ss_up st) else ss_up st)"
proof (cases "at_exchange (rd_try rd)")
  case (BuildError m)
  then show thesis using assms build by (simp add: stream_def Let_def)
next
  case (NetError m)
  obtain b tok e u1 where d: "Do (at_start (rd_try rd)) (Inl m) u = ((b, tok, e), u1)" by (metis prod.exhaust)
  then have "b = None" by (auto simp: Do_def Let_def split: prod.splits if_splits)
  then show thesis using assms NetError d refused [of "Inl m" tok e u1 "at_settle (rd_try rd)" cbSettleFailure]
    by (auto simp: stream_def Let_def split: if_splits)
next
  case (Answer resp)
  obtain b tok e u1 where d: "Do (at_start (rd_try rd)) (Inr True) u = ((b, tok, e), u1)" by (metis prod.exhaust)
  show thesis
  proof (cases b)
    case None
    then show thesis using assms Answer d refused by (auto simp: stream_def Let_def)
  next
    case (Some x)
    obtain ok c1 where o: "open_client (rd_accepts rd) (u_ID u) (rs_Header resp) c = (ok, c1)" by (metis surj_pair)
    obtain fin st where l: "stream_loop tok (rd_picks rd) (readSSELines (rs_Body resp)) (stream_start u1 c1) = (fin, st)" by (metis surj_pair)
    consider "StatusCode resp \<noteq> 200" | "StatusCode resp = 200" "\<not> ok" | "StatusCode resp = 200" ok by blast
    then show thesis
    proof cases
      case 1
      then show thesis using assms Answer d Some status [of x tok e u1 "at_settle (rd_try rd)"] by (simp add: stream_def Let_def)
    next
      case 2
      then show thesis using assms Answer d Some o unwritten by (simp add: stream_def Let_def)
    next
      case 3
      then show thesis using assms Answer d Some o l looped [of x tok e u1 "rs_Header resp" c1 "rs_Body resp" fin st]
        by (cases fin) (simp_all add: stream_def Let_def stream_start_def)
    qed
  qed
qed

lemma client_ok_stream: "client_ok c \<Longrightarrow> stream rd u c = (res, u', c') \<Longrightarrow> client_ok c'"
proof (erule stream_cases)
  fix b tok e u1 h c1 fin st body
  assume c: "client_ok c" "open_client (rd_accepts rd) (u_ID u) h c = (True, c1)"
    "stream_loop tok (rd_picks rd) (readSSELines body) (stream_start u1 c1) = (fin, st)" "c' = ss_client st"
  have "client_ok (ss_client (stream_start u1 c1))" using client_ok_open [OF c(1,2)] by (simp add: stream_start_def)
  then show "client_ok c'" using client_ok_loop c(3,4) by (metis snd_conv)
qed (simp_all add: client_ok_open)

lemma client_ok_Serve: "client_ok c \<Longrightarrow> Serve tokens required rds sticky c p = (res, c', p') \<Longrightarrow> client_ok c'"
proof (induction rds arbitrary: sticky c p)
  case (Cons rd rds)
  obtain ou p1 where pk: "pickUpstream tokens (rd_now rd) sticky required p = (ou, p1)" by (metis surj_pair)
  show ?case
  proof (cases ou)
    case None
    then show ?thesis using Cons pk by (auto split: if_splits)
  next
    case (Some u)
    obtain r u' c1 where st: "stream rd u c = (r, u', c1)" by (metis prod_cases3)
    from client_ok_stream [OF Cons.prems(1) st] Cons.IH Cons.prems show ?thesis
      using pk Some st by (cases r) (auto simp: Let_def split: if_splits)
  qed
qed simp


section \<open>Connections and probes are returned\<close>

text \<open>What a connection owes: before its token is spent, body and token; afterwards the body, and the token is void.\<close>

definition stream_owes :: "bool \<Rightarrow> trackedBody option \<Rightarrow> CBToken \<Rightarrow> Upstream \<Rightarrow> Upstream \<Rightarrow> bool" where
  "stream_owes spent b tok u0 u \<longleftrightarrow>
     (if spent then owes (b, zeroToken) u0 u \<and> (tok_probe tok \<longrightarrow> \<not> cbProbeInFlight (brk u))
      else owes (b, tok) u0 u \<and> (tok_probe tok \<longrightarrow> tok_u tok \<noteq> None \<and> cbProbeGen (brk u) = tok_gen tok))"

lemma stream_owes_Do: "up_ok u \<Longrightarrow> Do now x u = ((b, tok, e), u') \<Longrightarrow> stream_owes False b tok u u'"
proof -
  assume a: "up_ok u" "Do now x u = ((b, tok, e), u')"
  obtain k ok b' where acq: "CBTryAcquire (u_ID u) now (brk u) = ((k, ok), b')" by (metis prod.exhaust)
  have "tok = (if ok then k else zeroToken)" "brk u' = b'"
    using a(2) acq by (auto simp: Do_def Let_def TrackResponse_def IncrActive_def DecrActive_def ConsumeRateToken_def
        split: sum.splits prod.splits if_splits)
  moreover have "tok_probe k \<longrightarrow> tok_u k \<noteq> None \<and> cbProbeGen b' = tok_gen k"
    using acq by (auto simp: cb_unfold zeroToken_def split: CBState.splits if_splits)
  ultimately show ?thesis using Do_owes [OF a] by (auto simp: stream_owes_def zeroToken_def)
qed

lemma give_back_settled: "give_back t' out' (b, zeroToken) (settle_tok t out tok u) = give_back t out (b, tok) u"
  by (cases b) (simp_all add: give_back_def settle_tok_def closeBody_def DecrActive_def)

lemma settle_clears:
  "tok_u tok \<noteq> None \<Longrightarrow> tok_probe tok \<Longrightarrow> cbProbeGen b = tok_gen tok \<Longrightarrow> \<not> cbProbeInFlight (settle t out tok b)"
  by (auto simp: cb_unfold split: cbOutcome.splits)

lemma stream_owes_settle: "stream_owes False b tok u0 u \<Longrightarrow> stream_owes True b tok u0 (settle_tok t out tok u)"
  using settle_clears [of tok "brk u" t out] by (auto simp: stream_owes_def owes_def give_back_settled)

lemma stream_owes_failure: "stream_owes True b tok u0 u \<Longrightarrow> stream_owes True b tok u0 (CBFailure_up t u)"
proof -
  assume a: "stream_owes True b tok u0 u"
  have flag: "cbProbeInFlight (CBFailure t x) = cbProbeInFlight x" if "cb_inv x" for x
    using that by (auto simp: cb_unfold cb_inv_def split: CBState.splits)
  have inv: "cb_inv (brk u)" using a by (simp add: stream_owes_def owes_def balanced_def)
  have "activeConns (give_back t' out (b, zeroToken) (CBFailure_up t u)) = activeConns (give_back t' out (b, zeroToken) u)" for t' out
    by (simp add: give_back_active CBFailure_up_def)
  then show ?thesis using a flag [OF inv] cb_inv_CBFailure [OF inv, of t]
    by (auto simp: stream_owes_def owes_def balanced_def) (simp_all add: CBFailure_up_def)
qed

lemma stream_owes_give_up: "stream_owes spent b tok u0 u \<Longrightarrow> balanced u0 (give_up t b tok u)"
proof (cases spent)
  case True
  assume a: "stream_owes spent b tok u0 u"
  then have "settle t cbSettleRelease tok (brk u) = brk u" using True by (auto simp: stream_owes_def cb_unfold)
  then have "give_up t b tok u = give_back t cbSettleRelease (b, zeroToken) u"
    by (cases b) (simp_all add: give_up_def give_back_def settle_tok_def closeBody_def DecrActive_def)
  then show ?thesis using a True by (simp add: stream_owes_def owes_def)
next
  case False
  assume a: "stream_owes spent b tok u0 u"
  have "give_up t b tok u = give_back t cbSettleRelease (b, tok) u" by (simp add: give_up_def give_back_def)
  then show ?thesis using a False by (simp add: stream_owes_def owes_def)
qed

lemma credit_owes:
  "stream_owes (ss_credited st) b tok u0 (ss_up st) \<Longrightarrow> stream_owes (ss_credited (credit t tok w st)) b tok u0 (ss_up (credit t tok w st))"
  by (auto simp: credit_def stream_owes_settle)

lemma line_owes:
  assumes "stream_owes (ss_credited st) b tok u0 (ss_up st)" "take_line a t tok line st = r" "st' = (case r of Inl x \<Rightarrow> x | Inr x \<Rightarrow> x)"
  shows "stream_owes (ss_credited st') b tok u0 (ss_up st')"
  using assms(2,3) assms(1) by (auto simp: take_line_def Let_def intro!: credit_owes split: if_splits prod.splits)

lemma end_owes:
  assumes "stream_owes (ss_credited st) b tok u0 (ss_up st)"
  shows "\<exists>spent. stream_owes spent b tok u0 (ss_up (take_end a g t tok e st))"
proof (cases "e = LineEOF")
  case True
  obtain wrote ok ev c where f: "flushSSEEvent a True (ss_event st) (ss_client st) = (wrote, ok, ev, c)" by (metis prod_cases4)
  let ?st1 = "st\<lparr>ss_event := ev, ss_client := c\<rparr>"
  have "stream_owes (ss_credited (credit t tok wrote ?st1)) b tok u0 (ss_up (credit t tok wrote ?st1))"
    using credit_owes [of ?st1] assms by simp
  then show ?thesis using True f assms
    by (cases "ss_credited (credit t tok wrote ?st1)") (auto simp: take_end_def Let_def dest: stream_owes_settle)
next
  case False
  then show ?thesis using assms
    by (cases "ss_credited st"; cases g) (auto simp: take_end_def dest: stream_owes_settle stream_owes_failure)
qed

lemma loop_owes:
  "stream_owes (ss_credited st) b tok u0 (ss_up st) \<Longrightarrow> \<exists>spent. stream_owes spent b tok u0 (ss_up (snd (stream_loop tok ps lines st)))"
proof (induction tok ps lines st rule: stream_loop.induct)
  case (6 tok acc gone t ps line e lines st)
  obtain r where r: "take_line acc t tok line st = r" by simp
  let ?st = "case r of Inl x \<Rightarrow> x | Inr x \<Rightarrow> x"
  have o: "stream_owes (ss_credited ?st) b tok u0 (ss_up ?st)" using line_owes [OF "6.prems" r refl] .
  show ?case
  proof (cases r)
    case (Inl x)
    then show ?thesis using r o by auto
  next
    case (Inr x)
    then show ?thesis using r o end_owes [of x] "6.IH" [of x] by (cases e) auto
  qed
qed auto

text \<open>A connection that is over is balanced; one that is not is, as soon as it is given up.\<close>

lemma stream_balanced:
  assumes "up_ok u" "stream rd u c = (res, u', c')"
  shows "case res of Streaming b tok \<Rightarrow> \<forall>t. balanced u (give_up t (Some b) tok u') | _ \<Rightarrow> balanced u u'"
  using assms(2)
proof (cases rule: stream_cases)
  case build
  then show ?thesis using assms(1) by (simp add: balanced_refl)
next
  case (refused x tok e u1 t out)
  then show ?thesis using stream_owes_Do [OF assms(1) refused(1)] by (auto intro: stream_owes_give_up stream_owes_settle)
next
  case (status b tok e u1 t)
  then show ?thesis using stream_owes_Do [OF assms(1) status(1)] by (auto intro: stream_owes_give_up stream_owes_settle)
next
  case (unwritten b tok e u1 h)
  then show ?thesis using stream_owes_Do [OF assms(1) unwritten(1)] by (auto intro: stream_owes_give_up)
next
  case (looped b tok e u1 h c1 fin st body)
  have "stream_owes (ss_credited (stream_start u1 c1)) (Some b) tok u (ss_up (stream_start u1 c1))"
    using stream_owes_Do [OF assms(1) looped(1)] by (simp add: stream_start_def)
  then obtain spent where "stream_owes spent (Some b) tok u (ss_up st)" using loop_owes looped(3) by (metis snd_conv)
  then show ?thesis using looped stream_owes_give_up by (cases fin) auto
qed


lemma select_mem: "u \<in> set (fst (selectFromCandidatesForPath tokens now p all n path b)) \<Longrightarrow> u \<in> set all"
proof -
  assume "u \<in> set (fst (selectFromCandidatesForPath tokens now p all n path b))"
  then have "u \<in> set (base_tier now p all)" by (rule select_in_base)
  moreover have "set (base_tier now p all) \<subseteq> set all" by (auto simp: base_tier_def Let_def split: if_splits)
  ultimately show ?thesis by blast
qed

lemma mem_ByID: "ids_ok p \<Longrightarrow> u \<in> set (upstreams p) \<Longrightarrow> ByID p (u_ID u) = Some u"
proof -
  assume a: "ids_ok p" "u \<in> set (upstreams p)"
  then obtain v where v: "ByID p (u_ID u) = Some v" using ByID_some by blast
  then have "u_ID v = u_ID u" "v \<in> set (upstreams p)" using ByID_ID ByID_mem by blast+
  then show ?thesis using a v by (auto simp: ids_ok_def distinct_map inj_on_def)
qed

lemma pick_counted:
  assumes "pickUpstream tokens now prefer required p = (ou, p1)"
  shows "\<exists>c. p1 = p\<lparr>rrCounter := c\<rparr>" "\<And>u. ou = Some u \<Longrightarrow> u \<in> set (upstreams p)"
proof -
  have pref: "u \<in> set (upstreams p)" if "preferred_upstream now p prefer = Some u" for u
  proof -
    have "ByGlob now p prefer = Some u \<or> ByID p prefer = Some u"
      using that by (simp add: preferred_upstream_def split: if_splits option.splits)
    then show ?thesis using ByID_mem by (auto simp: ByGlob_def find_Some_iff)
  qed
  obtain us q where s: "SelectForPath tokens now p [] 1 = (us, q)" by (metis surj_pair)
  obtain vs q' where m: "SelectMatching tokens now p required [] 1 = (vs, q')" by (metis surj_pair)
  have ou: "preferred_upstream now p prefer = Some u \<or> ByID p (sel_ID required) = Some u \<or> u \<in> set us \<union> set vs" if "ou = Some u" for u
    using assms s m that by (auto simp: pickUpstream_def GetForPath_def split: if_splits option.splits list.splits)
  consider "p1 = p" | "p1 = q" | "p1 = q'"
    using assms s m by (auto simp: pickUpstream_def GetForPath_def split: if_splits option.splits list.splits)
  then show "\<exists>c. p1 = p\<lparr>rrCounter := c\<rparr>"
  proof cases
    case 1
    show ?thesis unfolding 1 by (rule exI [of _ "rrCounter p"]) simp
  next
    case 2
    then show ?thesis using selection_counts(1) [of tokens now p "[]" 1] s by auto
  next
    case 3
    then show ?thesis using selection_counts(3) [of tokens now p required "[]" 1] m by auto
  qed
  have "set (fst (SelectForPath tokens now p [] 1)) \<subseteq> set (upstreams p)"
    unfolding SelectForPath_def by (rule subsetI) (rule select_mem)
  moreover have "set (fst (SelectMatching tokens now p required [] 1)) \<subseteq> set (filter (selects required) (upstreams p))"
    unfolding SelectMatching_def by (rule subsetI) (rule select_mem)
  ultimately have sel: "set us \<union> set vs \<subseteq> set (upstreams p)" unfolding s m by auto
  show "u \<in> set (upstreams p)" if "ou = Some u" for u
    using ou [OF that] sel by (elim disjE) (auto dest: pref ByID_mem)
qed

lemma pick_found:
  assumes "acct p0 p H" "pickUpstream tokens now prefer required p = (ou, p1)"
  shows "acct p0 p1 H" "\<And>u. ou = Some u \<Longrightarrow> ByID p1 (u_ID u) = Some u"
proof -
  obtain c where p1: "p1 = p\<lparr>rrCounter := c\<rparr>" using pick_counted(1) [OF assms(2)] by blast
  then show "acct p0 p1 H" using assms(1) acct_counter by simp
  show "ByID p1 (u_ID u) = Some u" if "ou = Some u" for u
    using pick_counted(2) [OF assms(2) that] mem_ByID [OF acct_ids [OF assms(1)]] p1 by (simp add: ByID_selection)
qed

definition hung_up :: "time \<Rightarrow> relayed \<Rightarrow> Pool \<Rightarrow> Pool" where
  "hung_up t res p = (case res of Open i b tok \<Rightarrow> upd_up i (give_up t (Some b) tok) p | _ \<Rightarrow> p)"

lemma acct_replace:
  assumes "acct p0 p Map.empty" "ByID p (u_ID u) = Some u" "\<And>v. up_ok v \<Longrightarrow> balanced v u \<Longrightarrow> balanced v (f u)" "u_ID (f u) = u_ID u"
  shows "acct p0 (upd_up (u_ID u) (\<lambda>_. f u) p) Map.empty"
  using assms by (intro acct_upd [OF assms(1)]) (auto simp: standing_def)

lemma Serve_acct:
  assumes "acct p0 p Map.empty" "Serve tokens required rds sticky c p = (res, c', p')"
  shows "acct p0 (hung_up t res p') Map.empty"
  using assms
proof (induction rds arbitrary: sticky c p)
  case Nil
  then show ?case by (auto simp: hung_up_def)
next
  case (Cons rd rds)
  obtain ou p1 where pk: "pickUpstream tokens (rd_now rd) sticky required p = (ou, p1)" by (metis surj_pair)
  note found = pick_found [OF Cons.prems(1) pk]
  show ?case
  proof (cases ou)
    case None
    then show ?thesis using Cons found(1) pk by (auto simp: hung_up_def selected_unavailable_def split: if_splits)
  next
    case (Some u)
    obtain r u' c1 where st: "stream rd u c = (r, u', c1)" by (metis prod_cases3)
    let ?p2 = "upd_up (u_ID u) (\<lambda>_. u') p1"
    have up: "up_ok u" using Cons.prems(1) found Some by (metis acct_find balanced_ok standing_def option.case(1))
    note bal = stream_balanced [OF up st]
    have next_ok: "acct p0 ?p2 Map.empty" if "\<And>b tok. r \<noteq> Streaming b tok"
      using acct_replace [OF found(1) found(2) [OF Some], of "\<lambda>_. u'"] bal that balanced_trans
      by (cases r) (auto simp: balanced_def)
    show ?thesis
    proof (cases r)
      case (Streaming b tok)
      have g: "balanced u (give_up t (Some b) tok u')" using bal Streaming by simp
      then have "acct p0 (upd_up (u_ID u) (\<lambda>_. give_up t (Some b) tok u') p1) Map.empty"
        using acct_replace [OF found(1) found(2) [OF Some], of "\<lambda>_. give_up t (Some b) tok u'"] balanced_trans by (auto simp: balanced_def)
      moreover have "u_ID u' = u_ID u" using g by (simp add: balanced_def give_up_def)
      then have "upd_up (u_ID u) (give_up t (Some b) tok) ?p2 = upd_up (u_ID u) (\<lambda>_. give_up t (Some b) tok u') p1"
        by (subst upd_up_upd_up) (simp_all add: comp_def)
      ultimately show ?thesis using Cons.prems(2) pk Some st Streaming
        by (auto simp: hung_up_def Let_def split: if_splits) (use Cons.prems(1) in auto)
    next
      case Connected
      then show ?thesis using Cons.IH Cons.prems pk Some st next_ok
        by (auto simp: hung_up_def Let_def split: if_splits)
    next
      case NotConnected
      then show ?thesis using Cons.IH Cons.prems pk Some st next_ok
        by (auto simp: hung_up_def Let_def selected_unavailable_def split: if_splits)
    qed
  qed
qed


section \<open>A stream read to its end\<close>

text \<open>The events of a text: its lines with their ends, gathered up to each blank line; what is left at the end is closed
  with a blank line.\<close>

fun keep_lines :: "string \<Rightarrow> string list" where
  "keep_lines [] = []"
| "keep_lines (c # s) = (if c = newline then [c] # keep_lines s else case keep_lines s of [] \<Rightarrow> [[c]] | l # ls \<Rightarrow> (c # l) # ls)"

fun group_events :: "string \<Rightarrow> string list \<Rightarrow> string list" where
  "group_events acc [] = (if acc = [] then [] else [trim_crlf acc @ [newline, newline]])"
| "group_events acc (l # ls) = (if is_terminator l then (acc @ l) # group_events [] ls else group_events (acc @ l) ls)"

definition sse_events :: "string \<Rightarrow> string list" where
  "sse_events data = group_events [] (keep_lines data)"

text \<open>The events whose hash is not among the last \<open>n\<close> sent.\<close>

fun unseen :: "nat \<Rightarrow> 32 word list \<Rightarrow> string list \<Rightarrow> string list" where
  "unseen n hs [] = []"
| "unseen n hs (e # es) = (if hashEvent e \<in> set (window n hs) then unseen n hs es else e # unseen n (hs @ [hashEvent e]) es)"

lemma keep_lines_line: "newline \<notin> set l \<Longrightarrow> keep_lines (l @ newline # s) = (l @ [newline]) # keep_lines s"
  by (induction l) auto

lemma keep_lines_rest: "newline \<notin> set l \<Longrightarrow> l \<noteq> [] \<Longrightarrow> keep_lines l = [l]"
proof (induction l)
  case (Cons a l)
  then show ?case by (cases "l = []") auto
qed simp

lemma concat_keep_lines: "concat (keep_lines s) = s"
  by (induction s) (auto split: list.splits)

lemma split_at_newline:
  obtains "newline \<notin> set s" | l t where "s = l @ newline # t" "newline \<notin> set l"
  by (metis in_set_conv_decomp_first)

lemma IndexByte_line: "newline \<notin> set l \<Longrightarrow> IndexByte (take n (l @ newline # t)) newline = (if length l < n then Some (length l) else None)"
proof (cases "length l < n")
  case True
  assume "newline \<notin> set l"
  moreover have "take n (l @ newline # t) = l @ newline # take (n - Suc (length l)) t" using True by (simp add: take_Cons' Suc_diff_Suc)
  ultimately show ?thesis using True by (simp add: IndexByte_append)
next
  case False
  assume "newline \<notin> set l"
  then have "newline \<notin> set (take n l)" by (meson in_set_takeD)
  then show ?thesis using False by (simp add: IndexByte_None)
qed

text \<open>Below the cap, a line is everything up to and with the next line end.\<close>

lemma readCappedLine_line:
  assumes "newline \<notin> set l" "int (length sb + length l) \<le> cap" "b_data b = l @ newline # t"
  shows "readCappedLine cap sb b = ((sb @ l @ [newline], None), b\<lparr>b_data := t\<rparr>)"
  using assms
proof (induction cap sb b arbitrary: l rule: readCappedLine.induct)
  case (1 cap sb b)
  show ?case
  proof (cases "length l < bufSize")
    case True
    then have "IndexByte (take bufSize (b_data b)) newline = Some (length l)"
      using IndexByte_line [OF "1.prems"(1), of bufSize t] "1.prems"(3) by metis
    then have "ReadSlice b = ((l @ [newline], None), b\<lparr>b_data := t\<rparr>)" using "1.prems"(3) by (simp add: ReadSlice_def)
    then show ?thesis by (simp add: readCappedLine.simps [of cap sb b])
  next
    case False
    let ?c = "take bufSize l"
    have "IndexByte (take bufSize (b_data b)) newline = None"
      using IndexByte_line [OF "1.prems"(1), of bufSize t] False "1.prems"(3) by metis
    then have s: "ReadSlice b = ((?c, Some BufferFull), b\<lparr>b_data := drop bufSize l @ newline # t\<rparr>)"
      using False "1.prems"(3) by (simp add: ReadSlice_def)
    have small: "\<not> cap < int (length (sb @ ?c))" using "1.prems"(2) by simp
    have "readCappedLine cap (sb @ ?c) (b\<lparr>b_data := drop bufSize l @ newline # t\<rparr>) =
      (((sb @ ?c) @ drop bufSize l @ [newline], None), b\<lparr>b_data := drop bufSize l @ newline # t, b_data := t\<rparr>)"
      using "1.IH" [OF s [symmetric] refl refl refl small, of "drop bufSize l"] "1.prems" False by (simp add: min_absorb2) (meson in_set_dropD)
    then show ?thesis using s small by (simp add: readCappedLine.simps [of cap sb b])
  qed
qed

lemma readCappedLine_rest:
  assumes "newline \<notin> set (b_data b)" "int (length sb + length (b_data b)) \<le> cap" "\<not> b_broken b"
  shows "readCappedLine cap sb b = ((sb @ b_data b, Some LineEOF), b\<lparr>b_data := []\<rparr>)"
  using assms
proof (induction cap sb b rule: readCappedLine.induct)
  case (1 cap sb b)
  have none: "IndexByte (take bufSize (b_data b)) newline = None" using "1.prems"(1) by (meson IndexByte_None in_set_takeD)
  show ?case
  proof (cases "length (b_data b) < bufSize")
    case True
    then show ?thesis using "1.prems" none by (simp add: readCappedLine.simps [of cap sb b] ReadSlice_def)
  next
    case False
    let ?c = "take bufSize (b_data b)"
    have s: "ReadSlice b = ((?c, Some BufferFull), b\<lparr>b_data := drop bufSize (b_data b)\<rparr>)" using False none by (simp add: ReadSlice_def)
    have small: "\<not> cap < int (length (sb @ ?c))" using "1.prems"(2) by simp
    have "readCappedLine cap (sb @ ?c) (b\<lparr>b_data := drop bufSize (b_data b)\<rparr>) =
      (((sb @ ?c) @ drop bufSize (b_data b), Some LineEOF), b\<lparr>b_data := drop bufSize (b_data b), b_data := []\<rparr>)"
      using "1.IH" [OF s [symmetric] refl refl refl small] "1.prems" False by (simp add: min_absorb2) (meson in_set_dropD)
    then show ?thesis using s small by (simp add: readCappedLine.simps [of cap sb b])
  qed
qed

text \<open>The lines sent are the lines of the text, then the end.\<close>

lemma readSSELines_eq:
  assumes "int (length (b_data b)) \<le> sseMaxEventBytes" "\<not> b_broken b"
  shows "\<exists>ls rest. readSSELines b = map (\<lambda>l. (l, None)) ls @ [(rest, Some LineEOF)] \<and>
    keep_lines (b_data b) = ls @ (if rest = [] then [] else [rest]) \<and> [] \<notin> set ls \<and> \<not> is_terminator rest"
  using assms
proof (induction b rule: readSSELines.induct)
  case (1 b)
  show ?case
  proof (rule split_at_newline [of "b_data b"])
    assume n: "newline \<notin> set (b_data b)"
    then have "readSSELines b = [(b_data b, Some LineEOF)]"
      using readCappedLine_rest [OF n, of "[]" sseMaxEventBytes] "1.prems" by (simp add: readSSELines.simps [of b])
    then show ?thesis using n keep_lines_rest [OF n] by (intro exI [of _ "[]"] exI [of _ "b_data b"]) (auto simp: is_terminator_def)
  next
    fix l t
    assume d: "b_data b = l @ newline # t" "newline \<notin> set l"
    have r: "readCappedLine sseMaxEventBytes [] b = ((l @ [newline], None), b\<lparr>b_data := t\<rparr>)"
      using readCappedLine_line [OF d(2) _ d(1), of "[]"] "1.prems"(1) d(1) by simp
    then obtain ls rest where "readSSELines (b\<lparr>b_data := t\<rparr>) = map (\<lambda>l. (l, None)) ls @ [(rest, Some LineEOF)]"
      "keep_lines t = ls @ (if rest = [] then [] else [rest])" "[] \<notin> set ls" "\<not> is_terminator rest"
      using "1.IH" [OF r [symmetric] refl] "1.prems" d(1) by auto
    then show ?thesis using r d by (intro exI [of _ "(l @ [newline]) # ls"] exI [of _ rest]) (auto simp: readSSELines.simps [of b] keep_lines_line)
  qed
qed


text \<open>Picks of an undisturbed stream: lines and keep-alives, every write accepted.\<close>

fun calm :: "sse_pick \<Rightarrow> bool" where
  "calm (PickLine accepted _ _) = accepted"
| "calm (PickPing accepted) = accepted"
| "calm _ = False"

fun is_line :: "sse_pick \<Rightarrow> bool" where
  "is_line (PickLine _ _ _) = True"
| "is_line _ = False"

abbreviation sent :: "relay_client \<Rightarrow> string list" where
  "sent c \<equiv> events (cl_out c)"

abbreviation sent_hashes :: "relay_client \<Rightarrow> 32 word list" where
  "sent_hashes c \<equiv> map hashEvent (sent c)"

lemma unseen_append: "unseen n hs (es @ fs) = unseen n hs es @ unseen n (hs @ map hashEvent (unseen n hs es)) fs"
  by (induction n hs es rule: unseen.induct) simp_all

lemma flush_sent:
  assumes "client_ok c" "ev \<noteq> []" "flushSSEEvent True f ev c = (wrote, ok, ev', c')"
  shows "ok \<and> ev' = [] \<and> client_ok c' \<and>
    sent c' = sent c @ unseen 128 (sent_hashes c) [if f then trim_crlf ev @ [newline, newline] else ev]"
proof -
  have "ring_has (cl_seen c) h \<longleftrightarrow> h \<in> set (window 128 (sent_hashes c))" for h
    using assms(1) ring_has_iff unfolding client_ok_def by blast
  then show ?thesis using assms client_ok_flush [OF assms(1,3)] by (auto simp: flushSSEEvent_def Let_def split: if_splits)
qed

lemma take_line_calm:
  assumes "client_ok (ss_client st)" "line \<noteq> []" "int (length (ss_event st) + length line) \<le> sseMaxEventBytes"
  shows "\<exists>st'. take_line True t tok line st = Inr st' \<and> client_ok (ss_client st') \<and>
    (if is_terminator line
     then ss_event st' = [] \<and> sent (ss_client st') = sent (ss_client st) @ unseen 128 (sent_hashes (ss_client st)) [ss_event st @ line]
     else ss_event st' = ss_event st @ line \<and> ss_client st' = ss_client st)"
proof (cases "is_terminator line")
  case True
  obtain wrote ok ev c where f: "flushSSEEvent True False (ss_event st @ line) (ss_client st) = (wrote, ok, ev, c)" by (metis prod_cases4)
  from flush_sent [OF assms(1) _ f] assms(2,3) True f show ?thesis by (auto simp: take_line_def Let_def)
next
  case False
  then show ?thesis using assms by (auto simp: take_line_def Let_def)
qed

lemma take_end_calm:
  assumes "client_ok (ss_client st)"
  shows "sent (ss_client (take_end True g t tok LineEOF st)) =
    sent (ss_client st) @ unseen 128 (sent_hashes (ss_client st)) (group_events (ss_event st) [])"
proof -
  obtain wrote ok ev c where f: "flushSSEEvent True True (ss_event st) (ss_client st) = (wrote, ok, ev, c)" by (metis prod_cases4)
  show ?thesis
  proof (cases "ss_event st = []")
    case True
    then show ?thesis using f by (auto simp: take_end_def flushSSEEvent_def Let_def)
  next
    case False
    from flush_sent [OF assms False f] False f show ?thesis by (auto simp: take_end_def Let_def)
  qed
qed

lemma loop_sent:
  assumes "list_all calm ps" "length ls < length (filter is_line ps)" "[] \<notin> set ls" "\<not> is_terminator rest" "client_ok (ss_client st)"
    and "int (length (ss_event st) + length (concat ls) + length rest) \<le> sseMaxEventBytes"
  shows "fst (stream_loop tok ps (map (\<lambda>l. (l, None)) ls @ [(rest, Some LineEOF)]) st) \<and>
    sent (ss_client (snd (stream_loop tok ps (map (\<lambda>l. (l, None)) ls @ [(rest, Some LineEOF)]) st))) =
    sent (ss_client st) @ unseen 128 (sent_hashes (ss_client st)) (group_events (ss_event st) (ls @ (if rest = [] then [] else [rest])))"
  using assms
proof (induction ps arbitrary: ls st)
  case (Cons pk ps)
  show ?case
  proof (cases pk)
    case (PickPing a)
    let ?st = "st\<lparr>ss_client := (ss_client st)\<lparr>cl_out := cl_out (ss_client st) @ [Ping]\<rparr>\<rparr>"
    show ?thesis using Cons.IH [of ls ?st] Cons.prems PickPing by (simp add: client_ok_out)
  next
    case (PickLine a g t)
    then have a: "a" using Cons.prems(1) by simp
    show ?thesis
    proof (cases ls)
      case Nil
      show ?thesis
      proof (cases "rest = []")
        case True
        then show ?thesis using Nil PickLine a take_end_calm [OF Cons.prems(5)] by (simp add: take_line_def)
      next
        case False
        obtain st1 where st1: "take_line True t tok rest st = Inr st1" "client_ok (ss_client st1)" "ss_event st1 = ss_event st @ rest" "ss_client st1 = ss_client st"
          using take_line_calm [OF Cons.prems(5) False, of t tok] Cons.prems(4,6) Nil by auto
        then show ?thesis using Nil PickLine a False Cons.prems(4) take_end_calm [OF st1(2), of g t tok] by simp
      qed
    next
      case (Cons l ls')
      have l: "l \<noteq> []" "int (length (ss_event st) + length l) \<le> sseMaxEventBytes" using Cons.prems(3,6) Cons by auto
      obtain st1 where st1: "take_line True t tok l st = Inr st1" "client_ok (ss_client st1)"
        "if is_terminator l
         then ss_event st1 = [] \<and> sent (ss_client st1) = sent (ss_client st) @ unseen 128 (sent_hashes (ss_client st)) [ss_event st @ l]
         else ss_event st1 = ss_event st @ l \<and> ss_client st1 = ss_client st"
        using take_line_calm [OF Cons.prems(5) l] by blast
      have cap: "int (length (ss_event st1) + length (concat ls') + length rest) \<le> sseMaxEventBytes"
        using st1(3) Cons.prems(6) Cons by (auto split: if_splits)
      have tail: "list_all calm ps" "length ls' < length (filter is_line ps)" "[] \<notin> set ls'"
        using Cons.prems(1,2,3) Cons PickLine by auto
      note ih = Cons.IH [OF tail Cons.prems(4) st1(2) cap]
      let ?r = "if rest = [] then [] else [rest]" and ?hs = "sent_hashes (ss_client st)"
      have step: "stream_loop tok (pk # ps) (map (\<lambda>l. (l, None)) ls @ [(rest, Some LineEOF)]) st =
          stream_loop tok ps (map (\<lambda>l. (l, None)) ls' @ [(rest, Some LineEOF)]) st1"
        unfolding Cons PickLine using st1(1) a by simp
      have "sent (ss_client st1) @ unseen 128 (sent_hashes (ss_client st1)) (group_events (ss_event st1) (ls' @ ?r)) =
          sent (ss_client st) @ unseen 128 ?hs (group_events (ss_event st) (ls @ ?r))"
      proof (cases "is_terminator l")
        case True
        then have g: "group_events (ss_event st) (ls @ ?r) = [ss_event st @ l] @ group_events [] (ls' @ ?r)" unfolding Cons by simp
        have "ss_event st1 = []" "sent (ss_client st1) = sent (ss_client st) @ unseen 128 ?hs [ss_event st @ l]" using st1(3) True by simp_all
        then show ?thesis by (simp only: g unseen_append map_append append_assoc)
      next
        case False
        then have g: "group_events (ss_event st) (ls @ ?r) = group_events (ss_event st @ l) (ls' @ ?r)" unfolding Cons by simp
        have "ss_event st1 = ss_event st @ l" "ss_client st1 = ss_client st" using st1(3) False by simp_all
        then show ?thesis by (simp only: g)
      qed
      then show ?thesis using ih unfolding step by metis
    qed
  qed (use Cons.prems(1) in simp_all)
qed simp


section \<open>The relay\<close>

text \<open>C9. No event reaches a client twice within 128 events: whatever the upstreams send, however often the relay moves
  from one to the next and whatever the timers do, two equal events that one client was sent are more than 128 sent events apart.\<close>

theorem relay_no_duplicates:
  "spaced 128 (sent (fst (snd (Serve tokens required rds prefer (newClient wh names) p))))"
proof -
  obtain res c p' where s: "Serve tokens required rds prefer (newClient wh names) p = (res, c, p')" by (metis prod_cases3)
  have "spaced 128 (map hashEvent (sent c))" using client_ok_Serve [OF client_ok_new s] by (simp add: client_ok_def)
  then show ?thesis using s by (auto simp: spaced_def)
qed


text \<open>C7. The relay leaks nothing: however its connections end - refused, failed, closed by either side, idle, over the cap, with
  or without a delivered event - every upstream has the active connections and the recovery probe it had before, once the connection
  that is still open, if there is one, has been closed.\<close>

theorem relay_leaks_nothing:
  assumes "pool_ok p" "Serve tokens required rds prefer c p = (res, c', p')"
  shows "list_all2 balanced (upstreams p) (upstreams (hung_up t res p'))"
  using Serve_acct [OF acct_refl [OF assms(1)] assms(2)] by (rule acct_balanced)

definition sampleBody :: http_Body where
  "sampleBody = \<lparr>b_data = ''data: x'' @ [newline, newline] @ ''data: x'' @ [newline, newline] @ ''data: y'', b_broken = False\<rparr>"

definition sampleRound :: round where
  "sampleRound = \<lparr>rd_gone = False, rd_now = 0, rd_try = (answering 200 [])\<lparr>at_exchange := Answer \<lparr>StatusCode = 200, rs_Header = [], rs_Body = sampleBody\<rparr>\<rparr>,
     rd_accepts = True, rd_picks = PickPing True # replicate 6 (PickLine True False second), rd_end = 3 * second, rd_over = False, rd_stop = True\<rparr>"

lemma sample_events: "sse_events (b_data sampleBody) = [''data: x'' @ [newline, newline], ''data: x'' @ [newline, newline], ''data: y'' @ [newline, newline]]"
  by code_simp

lemma sample_unseen:
  "unseen 128 [] [''data: x'' @ [newline, newline], ''data: x'' @ [newline, newline], ''data: y'' @ [newline, newline]] =
     [''data: x'' @ [newline, newline], ''data: y'' @ [newline, newline]]"
  by code_simp

lemma sample_lines: "length (readSSELines sampleBody) \<le> 6"
  by code_simp


lemma relay_leaks_nothing_witness:
  "\<exists>res c' p'. Serve (\<lambda>_ _. 1) no_selector [sampleRound] [] (newClient [] Map.empty) sampleThree = (res, c', p') \<and>
     list_all2 balanced (upstreams sampleThree) (upstreams (hung_up 0 res p'))"
proof -
  obtain res c' p' where s: "Serve (\<lambda>_ _. 1) no_selector [sampleRound] [] (newClient [] Map.empty) sampleThree = (res, c', p')" by (metis prod_cases3)
  show ?thesis using relay_leaks_nothing [OF sampleThree_ok s, of 0] s by blast
qed

text \<open>A fresh ring holds the hash 0, so an event with that hash is taken for one already sent.\<close>

lemma zero_hash_dropped: "hashEvent ev = 0 \<Longrightarrow> flushSSEEvent True False ev (newClient wh names) = (False, True, [], newClient wh names)"
  by (cases ev) (auto simp: flushSSEEvent_def newClient_def newSeenRing_def ring_has_def list_ex_iff)

end
