(* ===== verification/Spec2Isabelle.thy ===== *)
theory Spec2Isabelle
  imports Proxy Sse
begin

text \<open>
  A verification development of ebeacon, a reverse proxy in front of Ethereum beacon nodes (sources under \<open>src/\<close>).

  \<^bold>\<open>The program.\<close>  A configuration file names networks and, for each, its upstream beacon nodes.  The front (\<open>proxy\<close>) lets a
  request in, finds its network and hands it on.  The handler of the network (\<open>network\<close>) rewrites and filters the request,
  answers it from the cache or dispatches it: one attempt after the other, hedged, or by consensus.  The pool (\<open>upstream\<close>) selects upstreams
  by health, fork, rate limit, priority and score; each upstream has a circuit breaker.  Health checks and reported heads feed the pool.
  Responses are kept in \<open>cache\<close>.

  \<^bold>\<open>Theories, from the bottom up.\<close>
  \<^item> \<open>Go_Prelude\<close>, \<open>Go_Http\<close>: strings, integers, durations, URLs, queries and headers of Go's standard library.
  \<^item> \<open>Config_Types\<close>, \<open>Config_Defaults\<close>, \<open>Config_Validate\<close>: \<open>config/config.go\<close>.  Precedence of settings, and what a configuration that loads guarantees.
  \<^item> \<open>Circuit_Breaker\<close>, \<open>Scoring\<close>, \<open>Rate_Tuner\<close>, \<open>Selector\<close>, \<open>Block_Cache\<close>, \<open>Upstream\<close>, \<open>Pool\<close>, \<open>Health_Monitor\<close>: package \<open>upstream\<close>.  The invariant of
    the breaker, its exclusive probe, opening and recovery; the score window and the vote table as refinements; selection from the best tier;
    fair rotation; the finalized epoch.
  \<^item> \<open>Memory_Store\<close>, \<open>Response_Cache\<close>: package \<open>cache\<close>.  The store refines one list of entries; the cache is coherent.
  \<^item> \<open>Api_Path\<close>, \<open>Cache_Key\<close>, \<open>Http_Forward\<close>, \<open>Session\<close>, \<open>Routing\<close>: the pure and the stateful helpers of package \<open>network\<close>.
  \<^item> \<open>Dispatch\<close>, \<open>Sequential\<close>, \<open>Hedge\<close>, \<open>Consensus\<close>, \<open>Execute\<close>: the dispatchers of \<open>network/network.go\<close> and \<open>network/consensus.go\<close>.  \<open>acct\<close> in
    \<open>Dispatch\<close> is the account of connections and breaker tokens that all of them keep.
  \<^item> \<open>Server\<close>: the handler \<open>Network.ServeHTTP\<close>.  \<open>Proxy\<close>: package \<open>proxy\<close>, with authentication, routing and cross-origin headers.
  \<^item> \<open>Sse\<close>: the relay of event streams, \<open>network/sse.go\<close>.
  \<^item> This theory: the property of the composition of them all.

  \<^bold>\<open>Correspondence.\<close>  A struct is a record, an enumeration a datatype, and a method a function from the state before to the result
  and the state after, under the name it has in the source; a part of a long function has a name of its own.  A pointer that may be nil is an option.
  \<open>uint64\<close> and \<open>uint32\<close> are words and wrap; \<open>int\<close> and durations are integers, durations in nanoseconds; \<open>float64\<close> is \<open>real\<close>.  Strings are lists of bytes.  A Go map that is
  iterated is an association list, in the order of the iteration.  An error is a value of a sum or option type, a panic a
  value of the outcome.  The clock is an argument.

  \<^bold>\<open>Concurrency.\<close>  What happens under one lock is one step.  Breaker, sessions, block cache, store and monitor are verified for every sequence of their
  steps.  A dispatched request is followed on its own: the answers it meets, the order in which timers, results and the end of the request
  reach it, and the result of a leader that it waits for are arguments, over which the theorems quantify.

  \<^bold>\<open>Termination and bounds.\<close>  Loops are total functions.  Those over events (\<open>hedge_loop\<close>, \<open>stream_loop\<close>, \<open>Serve\<close>) recurse on the list of the
  events that occur, and report when the list ends before they return; \<open>hedge_returns\<close> shows how many events are enough.  There is no other fuel.

  \<^bold>\<open>Parameters.\<close>  Compiled regular expressions, \<open>strconv.ParseFloat\<close>, the parsers of \<open>net/netip\<close>, \<open>strconv.Quote\<close>, JSON, gzip and digests, the token count of
  a limiter of \<open>golang.org/x/time/rate\<close>, the random generator, and the answers of the network.

  \<^bold>\<open>Not modelled.\<close>  The head watcher and the cache warmer of \<open>network\<close> as loops (the operations they call on pool and cache are modelled);
  the construction of a network and its goroutines; the Redis store and the Redis shared state, which are clients of a third-party
  library; the status page and the debug log; \<open>main.go\<close>; Prometheus metrics and logging throughout; and the scripts under \<open>scripts/\<close>, which
  run against a deployed proxy.
\<close>

section \<open>A request through the whole proxy\<close>

definition untouched_or_balanced :: "string \<times> Network \<Rightarrow> string \<times> Network \<Rightarrow> bool" where
  "untouched_or_balanced x y \<longleftrightarrow> fst x = fst y \<and> list_all2 balanced (upstreams (n_pool (snd x))) (upstreams (n_pool (snd y)))"

lemma pool_ok_balanced: "pool_ok p \<Longrightarrow> list_all2 balanced (upstreams p) (upstreams p)"
  by (simp add: pool_ok_def list.rel_refl_strong balanced_refl list_all_iff)

lemma networks_same: "list_all (\<lambda>x. pool_ok (n_pool (snd x))) ns \<Longrightarrow> list_all2 untouched_or_balanced ns ns"
  by (rule list.rel_refl_strong) (auto simp: untouched_or_balanced_def pool_ok_balanced list_all_iff)

lemma networks_update:
  "list_all (\<lambda>x. pool_ok (n_pool (snd x))) ns \<Longrightarrow> map_of ns i = Some n \<Longrightarrow>
     list_all2 balanced (upstreams (n_pool n)) (upstreams (n_pool n')) \<Longrightarrow> list_all2 untouched_or_balanced ns (AList.update i n' ns)"
proof (induction ns)
  case (Cons x ns)
  obtain j m where x: "x = (j, m)" by (cases x)
  have same: "list_all2 untouched_or_balanced ns ns" "untouched_or_balanced x x"
    using Cons.prems(1) networks_same pool_ok_balanced by (auto simp: untouched_or_balanced_def)
  show ?case
  proof (cases "i = j")
    case True
    then have "untouched_or_balanced x (j, n')" using Cons.prems(2,3) x by (simp add: untouched_or_balanced_def)
    then show ?thesis using True x same(1) by simp
  next
    case False
    then show ?thesis using Cons x same(2) by auto
  qed
qed simp

lemma serve_network_leaks_nothing:
  assumes "list_all (\<lambda>x. pool_ok (n_pool (snd x))) (networks P)" "serve_network v wh i r P = (w, P')" "w \<noteq> Waiting"
  shows "list_all2 untouched_or_balanced (networks P) (networks P')"
proof (cases "map_of (networks P) i")
  case None
  then show ?thesis using assms networks_same by (simp add: serve_network_def)
next
  case (Some n)
  obtain w1 n' where s: "ServeHTTP v wh r n = (w1, n')" by (metis surj_pair)
  have "pool_ok (n_pool n)" using assms(1) map_of_SomeD [OF Some] by (force simp: list_all_iff)
  then have "acct (n_pool n) (n_pool n') Map.empty" using serve_acct [OF acct_refl s] assms(2,3) Some s by (auto simp: serve_network_def)
  then show ?thesis using networks_update [OF assms(1) Some acct_balanced] assms(2) Some s by (auto simp: serve_network_def)
qed

lemma authenticate_networks: "authenticate v wh r k P = (x, P') \<Longrightarrow> networks P' = networks P"
  by (auto simp: authenticate_def applyAuthRateLimits_def Let_def split: if_splits option.splits)

lemma proxy_leaks_nothing:
  assumes "list_all (\<lambda>x. pool_ok (n_pool (snd x))) (networks P)" "proxy_ServeHTTP quote json v wh r P = (w, P')" "w \<noteq> Waiting"
  shows "list_all2 untouched_or_balanced (networks P) (networks P')"
proof -
  have step: "list_all2 untouched_or_balanced (networks P) (networks P')"
    if a: "authenticate v wh r k P = (x, P1)" and p: "P' = P1 \<or> (\<exists>i r1. serve_network v wh i r1 P1 = (w, P'))" for k x P1
    using p authenticate_networks [OF a] assms(1,3) networks_same serve_network_leaks_nothing by metis
  consider "P' = P" | k x P1 where "authenticate v wh r k P = (x, P1)" "P' = P1 \<or> (\<exists>i r1. serve_network v wh i r1 P1 = (w, P'))"
  proof -
    have "P' = P \<or> (\<exists>k x P1. authenticate v wh r k P = (x, P1) \<and> (P' = P1 \<or> (\<exists>i r1. serve_network v wh i r1 P1 = (w, P'))))"
      using assms(2) by (auto simp: proxy_ServeHTTP_def split: if_splits option.splits prod.splits)
    then show thesis using that by blast
  qed
  then show ?thesis using step networks_same [OF assms(1)] by cases auto
qed


definition soleProxy :: Proxy where
  "soleProxy = NewProxy [(''mainnet'', sampleNetwork)]"

lemma sole_route: "routeRequest soleProxy (plainGet ''/eth/v1/node/version'') = None"
  by code_simp

lemma sole_answers:
  "fst (serve_front id id None (sampleWorld failsOnce) [] (plainGet ''/eth/v1/node/version'') soleProxy) \<noteq> Waiting"
proof -
  have "p_auth soleProxy = None" "single soleProxy = Some ''mainnet''" "map_of (networks soleProxy) ''mainnet'' = Some sampleNetwork"
    by (simp_all add: soleProxy_def NewProxy_def single_def)
  then have "fst (serve_front id id None (sampleWorld failsOnce) [] (plainGet ''/eth/v1/node/version'') soleProxy) =
      fst (ServeHTTP (sampleWorld failsOnce) [] (plainGet ''/eth/v1/node/version'') sampleNetwork)"
    using sole_route by (simp add: serve_front_def WrapWithCORS_def proxy_ServeHTTP_def authenticate_def serve_network_def plainGet_def split: prod.splits)
  then show ?thesis using answered_sample by simp
qed


end
